(* ===== verification/Vc_Prelude.thy ===== *)
theory Vc_Prelude
  imports Complex_Main "HOL-Library.Word" "HOL-Library.Multiset"
begin

text \<open>
  The shared base of the development: the names of the machine-integer types,
  the status values the C++ code returns, and the generic facts on words and
  lists the component theories rest on.
\<close>

section \<open>Types\<close>

type_synonym u64 = "64 word"
type_synonym u32 = "32 word"
type_synonym wide = "128 word"

text \<open>
  \<open>vc_unat\<close> moves a goal on \<open>uint64_t\<close> values to natural numbers; \<open>vc_defs\<close>
  collects small accessor definitions.
\<close>

named_theorems vc_unat
named_theorems vc_defs

abbreviation u64_max :: u64 where
  "u64_max \<equiv> - 1"

text \<open>The part of \<open>rocksdb::Status\<close> that the modelled code produces.\<close>

datatype status =
    OK
  | InvalidArgument string
  | Corruption string
  | NotSupported string
  | IOError string
  | NotFound string

definition ok :: "status \<Rightarrow> bool" where
  "ok s \<longleftrightarrow> s = OK"

lemma ok_OK [simp]: "ok OK"
  by (simp add: ok_def)

lemma not_ok_simps [simp]:
  "\<not> ok (InvalidArgument m)" "\<not> ok (Corruption m)" "\<not> ok (NotSupported m)" "\<not> ok (IOError m)"
  "\<not> ok (NotFound m)"
  by (simp_all add: ok_def)

section \<open>Words\<close>

declare of_int_uint [simp del]

lemma unat_u64_max: "unat u64_max = 18446744073709551615"
  by (simp add: unsigned_minus_1_eq_mask mask_eq_exp_minus_1)

lemma unat_u64_less: "unat (x :: u64) < 2 ^ 64"
  using unsigned_less [of x] by simp

lemma unat_u64_le: "unat (x :: u64) \<le> 18446744073709551615"
  using unat_u64_less [of x] by simp

lemma u64_le_max [simp]: "(x :: u64) \<le> u64_max"
  by simp

lemma u64_le_iff [vc_unat]: "(x :: u64) \<le> y \<longleftrightarrow> unat x \<le> unat y"
  by (rule word_le_nat_alt)

lemma u64_less_iff [vc_unat]: "(x :: u64) < y \<longleftrightarrow> unat x < unat y"
  by (rule word_less_nat_alt)

lemma u64_eq_iff: "(x :: u64) = y \<longleftrightarrow> unat x = unat y"
  by (simp add: word_unat_eq_iff)

lemma unat_u64_pos_iff: "0 < unat (x :: u64) \<longleftrightarrow> x \<noteq> 0"
  by (simp add: unat_gt_0)

lemma unat_max_u64 [vc_unat]: "unat (max (x :: u64) y) = max (unat x) (unat y)"
  by (simp add: max_def word_le_nat_alt)

lemma unat_min_u64 [vc_unat]: "unat (min (x :: u64) y) = min (unat x) (unat y)"
  by (simp add: min_def word_le_nat_alt)

lemma unat_sub_u64: "(y :: u64) \<le> x \<Longrightarrow> unat (x - y) = unat x - unat y"
  by (rule unat_sub)

lemma unat_add_u64: "unat x + unat y < 2 ^ 64 \<Longrightarrow> unat (x + y :: u64) = unat x + unat y"
  by (rule unat_add_lem [THEN iffD1]) simp

lemma unat_drop_bit: "unat (drop_bit k (v :: 'a :: len word)) = unat v div 2 ^ k"
  using unsigned_less [of v, where ?'a = nat]
  by (simp only: unsigned_drop_bit_eq) (simp add: drop_bit_eq_div take_bit_nat_eq_self)

text \<open>Products of two \<open>uint64_t\<close> never leave \<open>unsigned __int128\<close>.\<close>

lemma unat_wide_bound: "unat (x :: u64) < 340282366920938463463374607431768211456"
  using unat_u64_less [of x] by simp

lemma unat_wide_ucast [simp]: "unat (ucast (x :: u64) :: wide) = unat x"
  by (simp add: unsigned_ucast_eq take_bit_nat_eq_self unat_wide_bound)

lemma unat_wide_mult: "unat (ucast (x :: u64) * ucast (y :: u64) :: wide) = unat x * unat y"
proof -
  have "unat x * unat y < 2 ^ 64 * 2 ^ 64"
    by (rule mult_strict_mono) (use unat_u64_less in auto)
  then have "unat (ucast x :: wide) * unat (ucast y :: wide) < 2 ^ LENGTH(128)"
    by simp
  then show ?thesis
    by (subst unat_mult_lem [THEN iffD1]) simp_all
qed

lemma unat_u64_of_wide:
  assumes "unat (w :: wide) < 2 ^ 64"
  shows "unat (ucast w :: u64) = unat w"
  using assms by (simp add: unsigned_ucast_eq take_bit_nat_eq_self)

section \<open>Ceiling division on natural numbers\<close>

definition ceil_div :: "nat \<Rightarrow> nat \<Rightarrow> nat" where
  "ceil_div a b = a div b + (if a mod b \<noteq> 0 then 1 else 0)"

lemma ceil_div_le_iff:
  assumes "0 < b"
  shows "ceil_div a b \<le> c \<longleftrightarrow> a \<le> c * b"
proof
  assume "ceil_div a b \<le> c"
  have "a = a div b * b + a mod b" by simp
  also have "\<dots> \<le> a div b * b + (if a mod b \<noteq> 0 then 1 else 0) * b"
    using mod_less_divisor [OF assms, of a] by (intro add_left_mono) simp
  also have "\<dots> = (a div b + (if a mod b \<noteq> 0 then 1 else 0)) * b"
    by (rule add_mult_distrib [symmetric])
  also have "\<dots> \<le> c * b"
    using \<open>ceil_div a b \<le> c\<close> unfolding ceil_div_def by (rule mult_le_mono1)
  finally show "a \<le> c * b" .
next
  assume a: "a \<le> c * b"
  show "ceil_div a b \<le> c"
  proof (cases "a mod b = 0")
    case True
    then have "a div b \<le> c"
      using a assms by (metis div_le_mono nonzero_mult_div_cancel_right less_numeral_extra(3))
    with True show ?thesis by (simp add: ceil_div_def)
  next
    case False
    have "a div b * b < a"
      using False by (metis div_mult_mod_eq less_add_same_cancel1 bot_nat_0.not_eq_extremum)
    then have "a div b * b < c * b" using a by (rule less_le_trans)
    then have "a div b < c" by simp
    with False show ?thesis by (simp add: ceil_div_def)
  qed
qed

lemma le_ceil_div_mult: "0 < b \<Longrightarrow> a \<le> ceil_div a b * b"
  using ceil_div_le_iff [of b a "ceil_div a b"] by simp

lemma ceil_div_mono: "0 < b \<Longrightarrow> a \<le> a' \<Longrightarrow> ceil_div a b \<le> ceil_div a' b"
  using ceil_div_le_iff [of b a "ceil_div a' b"] le_ceil_div_mult [of b a'] by simp

lemma ceil_div_pos: "0 < b \<Longrightarrow> 0 < a \<Longrightarrow> 0 < ceil_div a b"
  using ceil_div_le_iff [of b a 0] by (cases "ceil_div a b = 0") auto

end
