(* ===== verification/Size_Model.thy ===== *)
theory Size_Model
  imports Vc_Prelude
begin

text \<open>
  The SST size model of \<open>db/virtual_compaction/sst_size_model.h\<close>: an upper
  envelope of rational affine lines from entry counts to file bytes, evaluated
  in 128-bit arithmetic with saturation, and its inverse. The main results are
  that \<open>MaxEntries\<close> is the exact upper adjoint of \<open>Estimate\<close>, that \<open>Estimate\<close>
  is the saturated envelope of the rational lines, and that a calibration line
  covers both of its samples.
\<close>

section \<open>Data and operations\<close>

record Line =
  numerator :: u64
  denominator :: u64
  fixed_bytes :: u64

record SSTSizeModel =
  lines :: "Line list"

definition Logical :: "u64 \<Rightarrow> SSTSizeModel" where
  "Logical bytes_per_entry =
     \<lparr>lines = (if bytes_per_entry \<noteq> 0
                 then [\<lparr>numerator = bytes_per_entry, denominator = 1, fixed_bytes = 0\<rparr>]
                 else [])\<rparr>"

text \<open>The line \<open>AddCalibration\<close> fits through its two samples.\<close>

definition calibration_line :: "u64 \<Rightarrow> u64 \<Rightarrow> u64 \<Rightarrow> u64 \<Rightarrow> Line" where
  "calibration_line n1 bytes1 n2 bytes2 =
     (let num = bytes2 - bytes1;
          den = n2 - n1;
          intercept_left = (ucast bytes1 :: wide) * ucast den;
          intercept_right = (ucast n1 :: wide) * ucast num;
          fixed = (if intercept_left > intercept_right
                   then let difference = intercept_left - intercept_right
                        in ucast (difference div ucast den
                                  + (if difference mod ucast den \<noteq> 0 then 1 else 0))
                   else 0)
      in \<lparr>numerator = num, denominator = den, fixed_bytes = fixed\<rparr>)"

definition AddCalibration ::
    "SSTSizeModel \<Rightarrow> u64 \<Rightarrow> u64 \<Rightarrow> u64 \<Rightarrow> u64 \<Rightarrow> bool \<times> SSTSizeModel" where
  "AddCalibration m n1 bytes1 n2 bytes2 =
     (if n1 = 0 \<or> n2 \<le> n1 \<or> bytes2 \<le> bytes1 then (False, m)
      else (True, m\<lparr>lines := lines m @ [calibration_line n1 bytes1 n2 bytes2]\<rparr>))"

definition Valid :: "SSTSizeModel \<Rightarrow> bool" where
  "Valid m \<longleftrightarrow> lines m \<noteq> []"

text \<open>One iteration of the loop of \<open>Estimate\<close>.\<close>

definition line_estimate :: "u64 \<Rightarrow> Line \<Rightarrow> u64" where
  "line_estimate entries line =
     (let product = (ucast entries :: wide) * ucast (numerator line);
          variable_bytes = product div ucast (denominator line)
                           + (if product mod ucast (denominator line) \<noteq> 0 then 1 else 0);
          available = u64_max - fixed_bytes line
      in if variable_bytes > ucast available then u64_max
         else ucast variable_bytes + fixed_bytes line)"

definition Estimate :: "SSTSizeModel \<Rightarrow> u64 \<Rightarrow> u64" where
  "Estimate m entries =
     (if entries = 0 then 0
      else fold (\<lambda>line result. max result (line_estimate entries line)) (lines m) 0)"

text \<open>One iteration of the loop of \<open>MaxEntries\<close>, below the early return.\<close>

definition line_capacity :: "u64 \<Rightarrow> Line \<Rightarrow> u64" where
  "line_capacity target_bytes line =
     (let product = (ucast (target_bytes - fixed_bytes line) :: wide) * ucast (denominator line);
          capacity = product div ucast (numerator line)
      in if capacity > ucast u64_max then u64_max else ucast capacity)"

fun MaxEntries_loop :: "u64 \<Rightarrow> Line list \<Rightarrow> u64 \<Rightarrow> u64" where
  "MaxEntries_loop target_bytes [] result = result"
| "MaxEntries_loop target_bytes (line # rest) result =
     (if target_bytes < fixed_bytes line then 0
      else MaxEntries_loop target_bytes rest (min result (line_capacity target_bytes line)))"

definition MaxEntries :: "SSTSizeModel \<Rightarrow> u64 \<Rightarrow> u64" where
  "MaxEntries m target_bytes =
     (if \<not> Valid m then 0
      else if target_bytes = u64_max then u64_max
      else MaxEntries_loop target_bytes (lines m) u64_max)"

section \<open>Well-formed models\<close>

text \<open>
  The divisions of \<open>Estimate\<close> and \<open>MaxEntries\<close> are defined only for nonzero
  denominators and numerators. Every model the class can build has them.
\<close>

definition line_ok :: "Line \<Rightarrow> bool" where
  "line_ok l \<longleftrightarrow> numerator l \<noteq> 0 \<and> denominator l \<noteq> 0"

definition model_ok :: "SSTSizeModel \<Rightarrow> bool" where
  "model_ok m \<longleftrightarrow> list_all line_ok (lines m)"

lemma model_ok_Logical [intro]: "model_ok (Logical b)"
  by (simp add: model_ok_def Logical_def line_ok_def)

lemma calibration_line_sel [simp]:
  "numerator (calibration_line n1 b1 n2 b2) = b2 - b1"
  "denominator (calibration_line n1 b1 n2 b2) = n2 - n1"
  by (simp_all add: calibration_line_def Let_def)

lemma model_ok_AddCalibration [intro]:
  "model_ok m \<Longrightarrow> model_ok (snd (AddCalibration m n1 b1 n2 b2))"
  by (auto simp: model_ok_def AddCalibration_def line_ok_def)

section \<open>The rational envelope\<close>

text \<open>Bytes one line assigns to \<open>n\<close> entries, before saturation.\<close>

definition line_bytes :: "nat \<Rightarrow> Line \<Rightarrow> nat" where
  "line_bytes n l = ceil_div (n * unat (numerator l)) (unat (denominator l)) + unat (fixed_bytes l)"

lemma unat_wide_ceil:
  fixes a :: wide and d :: u64
  assumes "d \<noteq> 0"
  shows "unat (a div ucast d + (if a mod ucast d \<noteq> 0 then 1 else 0)) = ceil_div (unat a) (unat d)"
proof -
  have bound: "unat a < 2 ^ 128" using unsigned_less [of a] by simp
  have dpos: "0 < unat d" using assms by (simp add: unat_gt_0)
  have m0: "a mod ucast d = 0 \<longleftrightarrow> unat a mod unat d = 0"
    by (simp add: word_unat_eq_iff unat_mod_distrib)
  have "ceil_div (unat a) (unat d) \<le> unat a"
    using dpos by (simp add: ceil_div_le_iff)
  then have "ceil_div (unat a) (unat d) < 2 ^ 128"
    using bound by (rule le_less_trans)
  then show ?thesis
    by (subst unat_add_lem [THEN iffD1])
       (auto simp: ceil_div_def unat_div_distrib m0 split: if_splits)
qed

lemma unat_line_estimate:
  assumes "line_ok l"
  shows "unat (line_estimate n l) = min 18446744073709551615 (line_bytes (unat n) l)"
proof -
  define w where "w = (ucast n :: wide) * ucast (numerator l)"
  define v where "v = w div ucast (denominator l) + (if w mod ucast (denominator l) \<noteq> 0 then 1 else 0)"
  define f where "f = fixed_bytes l"
  have v: "unat v = ceil_div (unat n * unat (numerator l)) (unat (denominator l))"
    using assms unfolding v_def w_def line_ok_def by (simp add: unat_wide_ceil unat_wide_mult)
  have f: "unat f \<le> 18446744073709551615" by (rule unat_u64_le)
  have av: "unat (u64_max - f) = 18446744073709551615 - unat f"
    by (simp add: unat_sub_u64 unat_u64_max)
  have le: "line_estimate n l = (if v > ucast (u64_max - f) then u64_max else ucast v + f)"
    by (simp add: line_estimate_def Let_def v_def w_def f_def)
  have cond: "v > ucast (u64_max - f) \<longleftrightarrow> unat v > 18446744073709551615 - unat f"
    by (simp add: word_less_nat_alt av)
  show ?thesis
  proof (cases "unat v > 18446744073709551615 - unat f")
    case True
    then show ?thesis
      using cond f by (simp add: le line_bytes_def v [symmetric] f_def [symmetric] unat_u64_max)
  next
    case False
    then have sum: "unat v + unat f \<le> 18446744073709551615" using f by simp
    then have uc: "unat (ucast v :: u64) = unat v" by (simp add: unat_u64_of_wide)
    have "unat (ucast v + f) = unat v + unat f"
      using sum by (simp add: unat_add_u64 uc)
    then show ?thesis
      using cond False sum by (simp add: le line_bytes_def v [symmetric] f_def [symmetric])
  qed
qed

lemma fold_max_ge_init: "init \<le> fold (\<lambda>x r. max r (f x)) xs (init :: u64)"
  by (induction xs arbitrary: init) (auto intro: order.trans [OF max.cobounded1])

lemma fold_max_le_iff:
  "fold (\<lambda>x r. max r (f x)) xs (init :: u64) \<le> t \<longleftrightarrow> init \<le> t \<and> (\<forall>x \<in> set xs. f x \<le> t)"
  by (induction xs arbitrary: init) auto

lemma Estimate_le_iff:
  "Estimate m n \<le> t \<longleftrightarrow> n = 0 \<or> (\<forall>l \<in> set (lines m). line_estimate n l \<le> t)"
  by (simp add: Estimate_def fold_max_le_iff)

lemma MaxEntries_loop_iff:
  "n \<le> MaxEntries_loop t ls r \<longleftrightarrow>
     n = 0 \<or> (n \<le> r \<and> (\<forall>l \<in> set ls. fixed_bytes l \<le> t \<and> n \<le> line_capacity t l))"
  by (induction ls arbitrary: r) auto

lemma unat_line_capacity:
  assumes "fixed_bytes l \<le> t"
  shows "unat (line_capacity t l) =
    min 18446744073709551615
        ((unat t - unat (fixed_bytes l)) * unat (denominator l) div unat (numerator l))"
proof -
  define c where "c = (ucast (t - fixed_bytes l) :: wide) * ucast (denominator l) div ucast (numerator l)"
  have c: "unat c = (unat t - unat (fixed_bytes l)) * unat (denominator l) div unat (numerator l)"
    using assms unfolding c_def by (simp add: unat_div_distrib unat_wide_mult unat_sub_u64)
  have "line_capacity t l = (if c > ucast u64_max then u64_max else ucast c)"
    by (simp add: line_capacity_def Let_def c_def)
  moreover have "c > ucast u64_max \<longleftrightarrow> unat c > 18446744073709551615"
    by (simp only: word_less_nat_alt unat_wide_ucast unat_u64_max)
  ultimately show ?thesis
    by (auto simp: c [symmetric] unat_u64_max unat_u64_of_wide)
qed

text \<open>One line: its estimate fits a target exactly when the count fits its capacity.\<close>

lemma line_estimate_le_iff:
  assumes "line_ok l" "n \<noteq> 0" "t \<noteq> u64_max"
  shows "line_estimate n l \<le> t \<longleftrightarrow> fixed_bytes l \<le> t \<and> n \<le> line_capacity t l"
proof -
  let ?N = "unat (numerator l)" and ?D = "unat (denominator l)" and ?F = "unat (fixed_bytes l)"
  have pos: "0 < ?N" "0 < ?D" "0 < unat n"
    using assms by (simp_all add: line_ok_def unat_gt_0)
  have t: "unat t < 18446744073709551615"
    using assms(3) unat_u64_le [of t] by (simp add: u64_eq_iff unat_u64_max)
  have "line_estimate n l \<le> t \<longleftrightarrow> ceil_div (unat n * ?N) ?D + ?F \<le> unat t"
    using t by (simp add: word_le_nat_alt unat_line_estimate [OF assms(1)] line_bytes_def min_le_iff_disj)
  also have "\<dots> \<longleftrightarrow> ?F \<le> unat t \<and> ceil_div (unat n * ?N) ?D \<le> unat t - ?F"
    by auto
  also have "\<dots> \<longleftrightarrow> ?F \<le> unat t \<and> unat n \<le> (unat t - ?F) * ?D div ?N"
    using pos by (simp add: ceil_div_le_iff less_eq_div_iff_mult_less_eq)
  also have "\<dots> \<longleftrightarrow> fixed_bytes l \<le> t \<and> n \<le> line_capacity t l"
    using unat_u64_le [of n] by (auto simp: word_le_nat_alt unat_line_capacity)
  finally show ?thesis .
qed

section \<open>Calibration\<close>

lemma unat_calibration_fixed:
  assumes "n1 < n2" "b1 < b2"
  shows "unat (fixed_bytes (calibration_line n1 b1 n2 b2)) =
    ceil_div (unat b1 * (unat n2 - unat n1) - unat n1 * (unat b2 - unat b1)) (unat n2 - unat n1)"
proof -
  let ?D = "unat n2 - unat n1" and ?N = "unat b2 - unat b1"
  have sub: "unat (n2 - n1) = ?D" "unat (b2 - b1) = ?N"
    using assms by (simp_all add: unat_sub_u64 less_imp_le)
  have D: "0 < ?D" using assms by (simp add: word_less_nat_alt)
  then have d0: "n2 - n1 \<noteq> 0" using sub by (metis unat_0 less_irrefl)
  define L where "L = (ucast b1 :: wide) * ucast (n2 - n1)"
  define R where "R = (ucast n1 :: wide) * ucast (b2 - b1)"
  have LR: "unat L = unat b1 * ?D" "unat R = unat n1 * ?N"
    unfolding L_def R_def by (simp_all add: unat_wide_mult sub)
  have le: "ceil_div (unat L - unat R) ?D \<le> unat b1"
    using D by (simp add: ceil_div_le_iff LR)
  show ?thesis
  proof (cases "R < L")
    case True
    then have d: "unat (L - R) = unat L - unat R" by (simp add: unat_sub less_imp_le)
    have "fixed_bytes (calibration_line n1 b1 n2 b2) =
        ucast ((L - R) div ucast (n2 - n1) + (if (L - R) mod ucast (n2 - n1) \<noteq> 0 then 1 else 0))"
      using True by (simp add: calibration_line_def Let_def L_def R_def)
    moreover have "unat ((L - R) div ucast (n2 - n1)
        + (if (L - R) mod ucast (n2 - n1) \<noteq> 0 then 1 else 0)) = ceil_div (unat L - unat R) ?D"
      by (subst unat_wide_ceil [OF d0]) (simp add: d sub)
    ultimately show ?thesis
      using le unat_u64_less [of b1] by (simp add: unat_u64_of_wide LR)
  next
    case False
    then have "unat b1 * ?D - unat n1 * ?N = 0" by (simp add: word_less_nat_alt LR)
    moreover have "fixed_bytes (calibration_line n1 b1 n2 b2) = 0"
      using False by (simp add: calibration_line_def Let_def L_def R_def)
    ultimately show ?thesis by (simp add: ceil_div_def)
  qed
qed

text \<open>
  The fitted line is above both samples, and above the first by less than two
  bytes unless the intercept was clamped at zero.
\<close>

lemma calibration_line_covers:
  assumes "n1 < n2" "b1 < b2"
  shows "unat b1 \<le> line_bytes (unat n1) (calibration_line n1 b1 n2 b2)"
    and "unat b2 \<le> line_bytes (unat n2) (calibration_line n1 b1 n2 b2)"
proof -
  define D N where "D = unat n2 - unat n1" and "N = unat b2 - unat b1"
  define F where "F = ceil_div (unat b1 * D - unat n1 * N) D"
  have D: "0 < D" using assms by (simp add: D_def word_less_nat_alt)
  have lb: "line_bytes n (calibration_line n1 b1 n2 b2) = ceil_div (n * N) D + F" for n
    using assms
    by (simp add: line_bytes_def unat_calibration_fixed unat_sub_u64 less_imp_le D_def N_def F_def)
  have F: "unat b1 * D - unat n1 * N \<le> F * D"
    unfolding F_def by (rule le_ceil_div_mult [OF D])
  have 1: "unat n1 * N \<le> ceil_div (unat n1 * N) D * D" by (rule le_ceil_div_mult [OF D])
  have "unat b1 * D \<le> (ceil_div (unat n1 * N) D + F) * D"
    using F 1 by (simp add: add_mult_distrib)
  then show "unat b1 \<le> line_bytes (unat n1) (calibration_line n1 b1 n2 b2)"
    using D by (simp add: lb)
  have n2: "unat n2 = unat n1 + D" and b2: "unat b2 = unat b1 + N"
    using assms by (simp_all add: D_def N_def word_less_nat_alt)
  have 2: "unat n2 * N \<le> ceil_div (unat n2 * N) D * D" by (rule le_ceil_div_mult [OF D])
  have "unat b2 * D \<le> (ceil_div (unat n2 * N) D + F) * D"
    using F 2 by (simp add: add_mult_distrib n2 b2 mult.commute [of D N])
  then show "unat b2 \<le> line_bytes (unat n2) (calibration_line n1 b1 n2 b2)"
    using D by (simp add: lb)
qed

lemma Estimate_ge_line:
  assumes "l \<in> set (lines m)" "n \<noteq> 0"
  shows "line_estimate n l \<le> Estimate m n"
  using Estimate_le_iff [of m n "Estimate m n"] assms by simp

section \<open>The estimator interface\<close>

text \<open>
  What the splitting code relies on: a byte estimate and the capacity that is
  its upper adjoint.
\<close>

locale size_estimator =
  fixes inv :: "'m \<Rightarrow> bool"
    and est :: "'m \<Rightarrow> u64 \<Rightarrow> u64"
    and cap :: "'m \<Rightarrow> u64 \<Rightarrow> u64"
  assumes adjoint: "inv m \<Longrightarrow> est m n \<le> t \<longleftrightarrow> n \<le> cap m t"
begin

lemma est_cap_le: "inv m \<Longrightarrow> est m (cap m t) \<le> t"
  by (simp add: adjoint)

lemma le_cap_est: "inv m \<Longrightarrow> n \<le> cap m (est m n)"
  by (simp add: adjoint [symmetric])

lemma est_mono: "inv m \<Longrightarrow> n \<le> n' \<Longrightarrow> est m n \<le> est m n'"
  using le_cap_est [of m n'] by (simp add: adjoint)

lemma cap_mono: "inv m \<Longrightarrow> t \<le> t' \<Longrightarrow> cap m t \<le> cap m t'"
  using est_cap_le [of m t] by (simp add: adjoint [symmetric])

lemma over_cap: "inv m \<Longrightarrow> cap m t < n \<Longrightarrow> t < est m n"
  by (simp add: adjoint flip: not_le)

end

lemma Estimate_le_iff_MaxEntries:
  assumes "model_ok m" "Valid m"
  shows "Estimate m n \<le> t \<longleftrightarrow> n \<le> MaxEntries m t"
proof (cases "t = u64_max \<or> n = 0")
  case True
  then show ?thesis using assms by (auto simp: MaxEntries_def Estimate_def)
next
  case False
  then show ?thesis
    using assms
    by (auto simp: Estimate_le_iff MaxEntries_def MaxEntries_loop_iff line_estimate_le_iff
        model_ok_def list_all_iff)
qed

definition usable :: "SSTSizeModel \<Rightarrow> bool" where
  "usable m \<longleftrightarrow> model_ok m \<and> Valid m"

lemma usable_Logical: "b \<noteq> 0 \<Longrightarrow> usable (Logical b)"
  by (simp add: usable_def Valid_def model_ok_def line_ok_def Logical_def)

interpretation sm: size_estimator usable Estimate MaxEntries
  by unfold_locales (simp add: usable_def Estimate_le_iff_MaxEntries)

lemma AddCalibration_above_samples:
  assumes "model_ok m" "AddCalibration m n1 b1 n2 b2 = (True, m')"
  shows "b1 \<le> Estimate m' n1 \<and> b2 \<le> Estimate m' n2 \<and> Estimate m n \<le> Estimate m' n"
proof -
  let ?l = "calibration_line n1 b1 n2 b2"
  have g: "n1 \<noteq> 0" "n1 < n2" "b1 < b2" and m': "lines m' = lines m @ [?l]"
    using assms(2) by (auto simp: AddCalibration_def split: if_splits)
  have l: "line_ok ?l" using g by (auto simp: line_ok_def)
  have "b1 \<le> line_estimate n1 ?l" "b2 \<le> line_estimate n2 ?l"
    using calibration_line_covers [OF g(2,3)] unat_u64_le [of b1] unat_u64_le [of b2]
    by (simp_all add: word_le_nat_alt unat_line_estimate [OF l])
  moreover have "line_estimate n1 ?l \<le> Estimate m' n1" "line_estimate n2 ?l \<le> Estimate m' n2"
    using g by (auto intro!: Estimate_ge_line simp: m')
  moreover have "Estimate m n \<le> Estimate m' n"
    by (cases "n = 0") (auto simp: Estimate_le_iff m' intro: Estimate_ge_line)
  ultimately show ?thesis by (meson order.trans)
qed

section \<open>Properties\<close>

text \<open>C3: \<open>MaxEntries\<close> is the exact inverse of \<open>Estimate\<close> on every valid model, saturation and
  rounding included: a file of \<open>n\<close> entries is estimated within a byte target exactly when \<open>n\<close> is at
  most \<open>MaxEntries\<close> of the target.\<close>

theorem MaxEntries_exact_inverse:
  assumes "usable m"
  shows "(Estimate m n \<le> t \<longleftrightarrow> n \<le> MaxEntries m t) \<and> Estimate m (MaxEntries m t) \<le> t \<and>
    (n < n' \<longrightarrow> Estimate m n \<le> Estimate m n')"
  using sm.adjoint [OF assms] sm.est_cap_le [OF assms] sm.est_mono [OF assms] by (simp add: less_imp_le)

theorem MaxEntries_exact_inverse_witness:
  "Estimate (Logical 1048) (MaxEntries (Logical 1048) 67108864) \<le> 67108864"
  using MaxEntries_exact_inverse [OF usable_Logical [of 1048]] by simp

text \<open>C17: a calibration that \<open>AddCalibration\<close> accepts makes the model cover both samples, and never
  lowers the estimate of any entry count.\<close>

theorem AddCalibration_covers:
  assumes "model_ok m" "AddCalibration m n1 b1 n2 b2 = (True, m')"
  shows "b1 \<le> Estimate m' n1 \<and> b2 \<le> Estimate m' n2 \<and> Estimate m n \<le> Estimate m' n"
  by (rule AddCalibration_above_samples [OF assms])

theorem AddCalibration_covers_witness:
  "1000 \<le> Estimate (snd (AddCalibration (Logical 7) 10 1000 20 1900)) 10"
  using AddCalibration_covers [of "Logical 7" 10 1000 20 1900 "snd (AddCalibration (Logical 7) 10 1000 20 1900)"]
  by (simp add: model_ok_Logical AddCalibration_def)

text \<open>C29: \<open>Estimate\<close> of a positive count is the upper envelope of the rational lines, each rounded
  up to whole bytes, and saturates at the largest \<open>uint64_t\<close> instead of wrapping.\<close>

theorem Estimate_spec:
  assumes "model_ok m" "Valid m" "n \<noteq> 0"
  shows "unat (Estimate m n) =
    min (2 ^ 64 - 1) (Max ((\<lambda>l. line_bytes (unat n) l) ` set (lines m)))"
proof -
  let ?S = "(\<lambda>l. line_bytes (unat n) l) ` set (lines m)"
  have S: "finite ?S" "?S \<noteq> {}" using assms(2) by (auto simp: Valid_def)
  have le: "unat (Estimate m n) \<le> t \<longleftrightarrow> (\<forall>l \<in> set (lines m). unat (line_estimate n l) \<le> t)"
    if "t < 2 ^ 64" for t
  proof -
    have t: "unat (of_nat t :: u64) = t" using that by (simp add: unsigned_of_nat take_bit_nat_eq_self)
    show ?thesis
      using assms(3) Estimate_le_iff [of m n "of_nat t"] by (simp add: word_le_nat_alt t)
  qed
  have "unat (Estimate m n) \<le> t \<longleftrightarrow> min (2 ^ 64 - 1) (Max ?S) \<le> t" if "t < 2 ^ 64" for t
    using that assms(1) S
    by (auto simp: le unat_line_estimate model_ok_def list_all_iff min_le_iff_disj)
  from this [of "unat (Estimate m n)"] this [of "min (2 ^ 64 - 1) (Max ?S)"] show ?thesis
    using unat_u64_less [of "Estimate m n"] by auto
qed

theorem Estimate_spec_witness:
  "unat (Estimate (Logical 1048) 3) = min (2 ^ 64 - 1) (Max ((\<lambda>l. line_bytes 3 l) ` set (lines (Logical 1048))))"
  using Estimate_spec [of "Logical 1048" 3] usable_Logical [of 1048] by (simp add: usable_def)

end
