(* ===== verification/Size_Calibration.thy ===== *)
theory Size_Calibration
  imports Size_Model
begin

text \<open>
  The calibration of \<open>db/virtual_compaction/sst_size_calibration.cc\<close>: sample SSTs are
  written to a private in-memory environment, measured, and a line of the size model
  is fitted to each pair. The SST writer, the environment and the caller's populate
  function are parameters that act on a world of any type; the control flow, the
  checks and the plan of the samples are the code's.
\<close>

section \<open>Data\<close>

record ExternalSstFileInfo =
  info_file_size :: u64
  info_num_entries :: u64
  info_num_range_del_entries :: u64

record SSTSizeCalibrationSample =
  sample_entries :: u64
  sample_stride :: u64
  sample_file_bytes :: u64

text \<open>The operations of the writer and of the private environment that the code calls.\<close>

record 'w sample_env =
  env_CreateDirIfMissing :: "string \<Rightarrow> 'w \<Rightarrow> status \<times> 'w"
  writer_Open :: "string \<Rightarrow> 'w \<Rightarrow> status \<times> 'w"
  writer_Finish :: "'w \<Rightarrow> (status \<times> ExternalSstFileInfo) \<times> 'w"
  env_GetFileSize :: "string \<Rightarrow> 'w \<Rightarrow> (status \<times> u64) \<times> 'w"
  env_DeleteFile :: "string \<Rightarrow> 'w \<Rightarrow> status \<times> 'w"

definition kMiB :: u64 where "kMiB = 1048576"
definition kMaxSampleEntries :: u64 where "kMaxSampleEntries = 262144"
definition kMaxLogicalEntryBytes :: u64 where "kMaxLogicalEntryBytes = 64 * kMiB"

fun to_string :: "nat \<Rightarrow> string" where
  "to_string n = (if n < 10 then [char_of (48 + n)] else to_string (n div 10) @ [char_of (48 + n mod 10)])"

declare to_string.simps [simp del]

definition sample_path :: "nat \<Rightarrow> string" where
  "sample_path ordinal = ''/sst-size-calibration/sample-'' @ to_string ordinal @ ''.sst''"

section \<open>Measuring one sample\<close>

text \<open>The block that owns the writer: the status, whether the file was opened, and its info.\<close>

definition write_sample ::
    "'w sample_env \<Rightarrow> (u64 \<Rightarrow> u64 \<Rightarrow> 'w \<Rightarrow> status \<times> 'w) \<Rightarrow> u64 \<Rightarrow> u64 \<Rightarrow> string \<Rightarrow> 'w \<Rightarrow>
     (status \<times> bool \<times> u64) \<times> 'w" where
  "write_sample E populate entries stride path w0 =
     (case writer_Open E path w0 of (s1, w1) \<Rightarrow>
      if \<not> ok s1 then ((s1, False, 0), w1)
      else case populate entries stride w1 of (s2, w2) \<Rightarrow>
      if \<not> ok s2 then ((s2, True, 0), w2)
      else case writer_Finish E w2 of ((s3, info), w3) \<Rightarrow>
      if \<not> ok s3 then ((s3, True, 0), w3)
      else if info_num_entries info \<noteq> entries \<or> info_num_range_del_entries info \<noteq> 0 \<or> info_file_size info = 0
      then ((Corruption ''SST size calibration: sample count/size mismatch'', True, 0), w3)
      else case env_GetFileSize E path w3 of ((s4, actual_file_bytes), w4) \<Rightarrow>
      if \<not> ok s4 then ((s4, True, 0), w4)
      else if actual_file_bytes \<noteq> info_file_size info
      then ((Corruption ''SST size calibration: finished size mismatch'', True, 0), w4)
      else ((OK, True, info_file_size info), w4))"

definition MeasureSample ::
    "'w sample_env \<Rightarrow> (u64 \<Rightarrow> u64 \<Rightarrow> 'w \<Rightarrow> status \<times> 'w) \<Rightarrow> u64 \<Rightarrow> u64 \<Rightarrow> nat \<Rightarrow> 'w \<Rightarrow>
     (status + SSTSizeCalibrationSample) \<times> 'w" where
  "MeasureSample E populate entries stride ordinal w0 =
     (let path = sample_path ordinal in
      case write_sample E populate entries stride path w0 of ((s, opened, bytes), w1) \<Rightarrow>
      let (s', w2) = (if opened
                      then (case env_DeleteFile E path w1 of (cleanup, w2) \<Rightarrow>
                              (if \<not> ok cleanup \<and> ok s then cleanup else s, w2))
                      else (s, w1))
      in if \<not> ok s' then (Inl s', w2)
         else (Inr \<lparr>sample_entries = entries, sample_stride = stride, sample_file_bytes = bytes\<rparr>, w2))"

section \<open>The calibration\<close>

text \<open>The two sample sizes and the sparse stride.\<close>

definition calibration_n2 :: "u64 \<Rightarrow> u64 \<Rightarrow> u64" where
  "calibration_n2 logical_entry_bytes key_domain =
     min (min (max 2 (8 * kMiB div logical_entry_bytes)) kMaxSampleEntries) key_domain"

definition calibration_n1 :: "u64 \<Rightarrow> u64 \<Rightarrow> u64" where
  "calibration_n1 logical_entry_bytes key_domain =
     min (max 1 (4 * kMiB div logical_entry_bytes)) (calibration_n2 logical_entry_bytes key_domain div 2)"

definition calibration_stride :: "u64 \<Rightarrow> u64 \<Rightarrow> u64 \<Rightarrow> u64" where
  "calibration_stride logical_entry_bytes key_domain target_sst_bytes =
     (let n2 = calibration_n2 logical_entry_bytes key_domain;
          typical_entries = max 1 (target_sst_bytes div logical_entry_bytes)
      in max 1 ((key_domain - 1) div max (n2 - 1) (typical_entries - 1)))"

text \<open>The loop over the strides.\<close>

fun calibrate_loop ::
    "'w sample_env \<Rightarrow> (u64 \<Rightarrow> u64 \<Rightarrow> 'w \<Rightarrow> status \<times> 'w) \<Rightarrow> u64 \<Rightarrow> u64 \<Rightarrow> u64 list \<Rightarrow>
     SSTSizeModel \<Rightarrow> SSTSizeCalibrationSample list \<Rightarrow> 'w \<Rightarrow>
     (status + SSTSizeModel \<times> SSTSizeCalibrationSample list) \<times> 'w" where
  "calibrate_loop E populate n1 n2 [] calibrated measured w = (Inr (calibrated, measured), w)"
| "calibrate_loop E populate n1 n2 (key_stride # strides) calibrated measured w =
     (if measured \<noteq> [] \<and> key_stride = 1
      then calibrate_loop E populate n1 n2 strides calibrated measured w
      else case MeasureSample E populate n1 key_stride (length measured) w of
        (Inl s, w1) \<Rightarrow> (Inl s, w1)
      | (Inr first, w1) \<Rightarrow>
          (case MeasureSample E populate n2 key_stride (length measured + 1) w1 of
             (Inl s, w2) \<Rightarrow> (Inl s, w2)
           | (Inr second, w2) \<Rightarrow>
               (case AddCalibration calibrated n1 (sample_file_bytes first) n2 (sample_file_bytes second) of
                  (False, _) \<Rightarrow>
                    (Inl (InvalidArgument ''SST size calibration: invalid measured size slope''), w2)
                | (True, calibrated') \<Rightarrow>
                    calibrate_loop E populate n1 n2 strides calibrated' (measured @ [first, second]) w2)))"

text \<open>
  The entry point. \<open>None\<close> stands for a null pointer or an empty function; the private
  environment is the world \<open>new_env\<close>. The result on success is what is stored in \<open>*out\<close>
  and \<open>*samples\<close>.
\<close>

definition CalibrateSSTSizeModel ::
    "'w sample_env \<Rightarrow> 'w option \<Rightarrow> u64 \<Rightarrow> u64 \<Rightarrow> u64 \<Rightarrow> (u64 \<Rightarrow> u64 \<Rightarrow> 'w \<Rightarrow> status \<times> 'w) option \<Rightarrow>
     bool \<Rightarrow> status + SSTSizeModel \<times> SSTSizeCalibrationSample list" where
  "CalibrateSSTSizeModel E new_env logical_entry_bytes key_domain target_sst_bytes populate out_null =
     (case populate of
        None \<Rightarrow> Inl (InvalidArgument ''SST size calibration: invalid input or entry exceeds 64 MiB'')
      | Some pop \<Rightarrow>
      if out_null \<or> logical_entry_bytes = 0 \<or> kMaxLogicalEntryBytes < logical_entry_bytes
         \<or> key_domain < 2 \<or> target_sst_bytes = 0
      then Inl (InvalidArgument ''SST size calibration: invalid input or entry exceeds 64 MiB'')
      else case new_env of
        None \<Rightarrow> Inl (IOError ''SST size calibration: cannot allocate private Env'')
      | Some w0 \<Rightarrow>
        (case env_CreateDirIfMissing E ''/sst-size-calibration'' w0 of (s, w1) \<Rightarrow>
         if \<not> ok s then Inl s
         else case calibrate_loop E pop (calibration_n1 logical_entry_bytes key_domain)
                     (calibration_n2 logical_entry_bytes key_domain)
                     [1, calibration_stride logical_entry_bytes key_domain target_sst_bytes]
                     \<lparr>lines = []\<rparr> [] w1 of
           (Inl s, _) \<Rightarrow> Inl s
         | (Inr (calibrated, measured), _) \<Rightarrow>
             if \<not> Valid calibrated then Inl (Corruption ''SST size calibration: empty model'')
             else Inr (calibrated, measured)))"

section \<open>The plan of the samples\<close>

text \<open>Inputs that pass the guard.\<close>

definition calibration_input_ok :: "u64 \<Rightarrow> u64 \<Rightarrow> u64 \<Rightarrow> bool" where
  "calibration_input_ok logical_entry_bytes key_domain target_sst_bytes \<longleftrightarrow>
     0 < logical_entry_bytes \<and> logical_entry_bytes \<le> kMaxLogicalEntryBytes \<and> 2 \<le> key_domain \<and>
     0 < target_sst_bytes"

lemma calibration_sizes:
  assumes "2 \<le> key_domain"
  shows "2 \<le> unat (calibration_n2 b key_domain)" "unat (calibration_n2 b key_domain) \<le> unat key_domain"
    "1 \<le> unat (calibration_n1 b key_domain)"
    "unat (calibration_n1 b key_domain) \<le> unat (calibration_n2 b key_domain) div 2"
    "unat (calibration_n2 b key_domain) \<le> 262144"
proof -
  have k: "2 \<le> unat key_domain" using assms by (simp add: u64_le_iff)
  then show n2: "2 \<le> unat (calibration_n2 b key_domain)"
    by (simp add: calibration_n2_def kMaxSampleEntries_def unat_max_u64 unat_min_u64)
  show "unat (calibration_n2 b key_domain) \<le> unat key_domain" "unat (calibration_n2 b key_domain) \<le> 262144"
    by (simp_all add: calibration_n2_def unat_min_u64 kMaxSampleEntries_def)
  show "1 \<le> unat (calibration_n1 b key_domain)"
    using n2 by (simp add: calibration_n1_def unat_max_u64 unat_min_u64 unat_div_distrib)
  show "unat (calibration_n1 b key_domain) \<le> unat (calibration_n2 b key_domain) div 2"
    by (simp add: calibration_n1_def unat_min_u64 unat_div_distrib)
qed

lemma calibration_n1_less:
  assumes "2 \<le> key_domain"
  shows "calibration_n1 b key_domain \<noteq> 0" "calibration_n1 b key_domain < calibration_n2 b key_domain"
  using calibration_sizes [OF assms, of b] by (auto simp: u64_less_iff unat_u64_pos_iff [symmetric])

text \<open>The largest key id of a sample stays inside the key domain.\<close>

lemma calibration_stride_fits:
  assumes "2 \<le> key_domain"
  shows "1 \<le> calibration_stride b key_domain t \<and>
    (unat (calibration_n2 b key_domain) - 1) * unat (calibration_stride b key_domain t) < unat key_domain"
proof -
  let ?n = "unat (calibration_n2 b key_domain)" and ?d = "unat key_domain"
  define q where "q = max (calibration_n2 b key_domain - 1) (max 1 (t div b) - 1)"
  note sz = calibration_sizes [OF assms, of b]
  have sub: "unat (calibration_n2 b key_domain - 1) = ?n - 1" "unat (key_domain - 1) = ?d - 1"
    using sz by (simp_all add: unat_sub_u64 u64_le_iff)
  then have q: "?n - 1 \<le> unat q" by (simp add: q_def unat_max_u64)
  have st: "unat (calibration_stride b key_domain t) = max 1 ((?d - 1) div unat q)"
    by (simp add: calibration_stride_def Let_def q_def [symmetric] unat_max_u64 unat_div_distrib sub)
  have "(?n - 1) * ((?d - 1) div unat q) \<le> unat q * ((?d - 1) div unat q)"
    using q by (rule mult_le_mono1)
  also have "\<dots> \<le> ?d - 1" by (simp add: mult.commute)
  finally have "(?n - 1) * max 1 ((?d - 1) div unat q) \<le> ?d - 1"
    using sz(2) by (cases "(?d - 1) div unat q \<le> 1") (auto simp: max_def)
  moreover have "1 \<le> calibration_stride b key_domain t" by (simp add: u64_le_iff st)
  ultimately show ?thesis using sz by (simp add: st)
qed

section \<open>What a measurement and a calibration guarantee\<close>

lemma write_sample_ok:
  assumes "write_sample E pop n st path w0 = ((OK, opened, bytes), w1)"
  shows "opened \<and> bytes \<noteq> 0"
  using assms by (auto simp: write_sample_def ok_def split: prod.splits if_splits)

lemma MeasureSample_ok:
  assumes "MeasureSample E pop n st i w0 = (Inr x, w1)"
  shows "sample_entries x = n \<and> sample_stride x = st \<and> sample_file_bytes x \<noteq> 0"
  using assms write_sample_ok
  by (fastforce simp: MeasureSample_def Let_def ok_def split: prod.splits if_splits)

text \<open>The calibrated model stays well formed and covers what has been measured so far.\<close>

definition covers_samples :: "SSTSizeModel \<Rightarrow> SSTSizeCalibrationSample list \<Rightarrow> bool" where
  "covers_samples m xs \<longleftrightarrow> (\<forall>x \<in> set xs. sample_file_bytes x \<le> Estimate m (sample_entries x))"

lemma covers_samples_step:
  assumes "model_ok m" "covers_samples m xs" "AddCalibration m n1 b1 n2 b2 = (True, m')"
    and "sample_entries x = n1" "sample_file_bytes x = b1" "sample_entries y = n2" "sample_file_bytes y = b2"
  shows "model_ok m' \<and> covers_samples m' (xs @ [x, y]) \<and> lines m' \<noteq> []"
proof -
  note c = AddCalibration_above_samples [OF assms(1,3)]
  have "model_ok m'" using model_ok_AddCalibration [OF assms(1), of n1 b1 n2 b2] assms(3) by simp
  moreover have "lines m' \<noteq> []" using assms(3) by (auto simp: AddCalibration_def split: if_splits)
  moreover have "covers_samples m' (xs @ [x, y])"
    using assms(2,4-7) c by (auto simp: covers_samples_def intro: order.trans)
  ultimately show ?thesis by blast
qed

lemma calibrate_loop_covers:
  assumes "calibrate_loop E pop n1 n2 strides m xs w = (Inr (m', xs'), w')"
    and "model_ok m" "covers_samples m xs" "\<forall>x \<in> set xs. sample_entries x = n1 \<or> sample_entries x = n2"
  shows "model_ok m' \<and> covers_samples m' xs' \<and> (\<exists>ys. xs' = xs @ ys) \<and>
    (\<forall>x \<in> set xs'. sample_entries x = n1 \<or> sample_entries x = n2)"
  using assms
proof (induction strides arbitrary: m xs w)
  case (Cons s strides)
  show ?case
  proof (cases "xs \<noteq> [] \<and> s = 1")
    case True
    then show ?thesis using Cons by simp
  next
    case False
    obtain x w1 where x: "MeasureSample E pop n1 s (length xs) w = (Inr x, w1)"
      using Cons.prems(1) False by (auto split: prod.splits sum.splits)
    obtain y w2 where y: "MeasureSample E pop n2 s (length xs + 1) w1 = (Inr y, w2)"
      using Cons.prems(1) False x by (auto split: prod.splits sum.splits)
    obtain m1 where m1: "AddCalibration m n1 (sample_file_bytes x) n2 (sample_file_bytes y) = (True, m1)"
      and rest: "calibrate_loop E pop n1 n2 strides m1 (xs @ [x, y]) w2 = (Inr (m', xs'), w')"
      using Cons.prems(1) False x y by (auto split: prod.splits bool.splits)
    have e: "sample_entries x = n1" "sample_entries y = n2"
      using MeasureSample_ok [OF x] MeasureSample_ok [OF y] by auto
    have "model_ok m1" "covers_samples m1 (xs @ [x, y])"
      using covers_samples_step [OF Cons.prems(2,3) m1 e(1) refl e(2) refl] by auto
    then show ?thesis using Cons.IH [OF rest] Cons.prems(4) e by auto
  qed
qed auto

section \<open>Properties\<close>

text \<open>C30: the plan of a calibration is sound for every accepted input: both samples are nonempty, the
  first is at most half of the second, neither exceeds the sample limit or the key domain, the
  stride is positive, and the largest key of the larger sample is inside the key domain, without
  overflow.\<close>

theorem calibration_plan_sound:
  assumes "calibration_input_ok b key_domain t"
  shows "0 < unat (calibration_n1 b key_domain) \<and>
    2 * unat (calibration_n1 b key_domain) \<le> unat (calibration_n2 b key_domain) \<and>
    unat (calibration_n2 b key_domain) \<le> min 262144 (unat key_domain) \<and>
    0 < unat (calibration_stride b key_domain t) \<and>
    (unat (calibration_n2 b key_domain) - 1) * unat (calibration_stride b key_domain t) < unat key_domain"
proof -
  have k: "2 \<le> key_domain" using assms by (simp add: calibration_input_ok_def)
  show ?thesis
    using calibration_sizes [OF k, of b] calibration_stride_fits [OF k, of b t] by (simp add: u64_le_iff)
qed

theorem calibration_plan_sound_witness:
  "(unat (calibration_n2 1048 1000000) - 1) * unat (calibration_stride 1048 1000000 67108864) < 1000000"
  using calibration_plan_sound [of 1048 1000000 67108864]
  by (simp add: calibration_input_ok_def kMaxLogicalEntryBytes_def kMiB_def)

text \<open>C26: when a calibration succeeds, the model is usable and its estimate covers every measured
  sample, each of which has one of the two planned entry counts.\<close>

theorem CalibrateSSTSizeModel_covers:
  assumes "CalibrateSSTSizeModel E new_env b key_domain t populate out_null = Inr (m, samples)"
  shows "calibration_input_ok b key_domain t \<and> usable m \<and>
    (\<forall>x \<in> set samples. sample_file_bytes x \<le> Estimate m (sample_entries x) \<and>
       sample_entries x \<in> {calibration_n1 b key_domain, calibration_n2 b key_domain})"
proof -
  obtain pop w1 w2 where
    guard: "b \<noteq> 0" "b \<le> kMaxLogicalEntryBytes" "2 \<le> key_domain" "t \<noteq> 0" and
    loop: "calibrate_loop E pop (calibration_n1 b key_domain) (calibration_n2 b key_domain)
      [1, calibration_stride b key_domain t] \<lparr>lines = []\<rparr> [] w1 = (Inr (m, samples), w2)" and
    v: "Valid m"
    using assms by (auto simp: CalibrateSSTSizeModel_def not_less simp del: calibrate_loop.simps split: option.splits if_splits prod.splits sum.splits)
  have "model_ok m \<and> covers_samples m samples \<and>
      (\<forall>x \<in> set samples. sample_entries x = calibration_n1 b key_domain \<or> sample_entries x = calibration_n2 b key_domain)"
    using calibrate_loop_covers [OF loop] by (simp add: model_ok_def covers_samples_def)
  then show ?thesis
    using guard v by (auto simp: calibration_input_ok_def usable_def covers_samples_def word_neq_0_conv)
qed

text \<open>A writer whose files take 100 bytes and 50 more per entry, on a world that holds the count.\<close>

definition affine_env :: "u64 sample_env" where
  "affine_env =
     \<lparr>env_CreateDirIfMissing = (\<lambda>_ w. (OK, w)),
      writer_Open = (\<lambda>_ _. (OK, 0)),
      writer_Finish = (\<lambda>w. ((OK, \<lparr>info_file_size = 100 + 50 * w, info_num_entries = w, info_num_range_del_entries = 0\<rparr>), w)),
      env_GetFileSize = (\<lambda>_ w. ((OK, 100 + 50 * w), w)),
      env_DeleteFile = (\<lambda>_ _. (OK, 0))\<rparr>"

theorem CalibrateSSTSizeModel_covers_witness:
  "usable (fst (projr (CalibrateSSTSizeModel affine_env (Some 0) 1048576 100 67108864
     (Some (\<lambda>n _ _. (OK, n))) False)))"
proof -
  let ?r = "CalibrateSSTSizeModel affine_env (Some 0) 1048576 100 67108864 (Some (\<lambda>n _ _. (OK, n))) False"
  have "isl ?r = False" by code_simp
  then have "?r = Inr (projr ?r)" by (cases ?r) auto
  then have "?r = Inr (fst (projr ?r), snd (projr ?r))" by simp
  then show ?thesis using CalibrateSSTSizeModel_covers by blast
qed

end
