(* ===== verification/KMV_Hash.thy ===== *)
theory KMV_Hash
  imports Vc_Prelude
begin

text \<open>
  The fingerprint of \<open>db/virtual_compaction/virtual_sst.cc\<close>: SplitMix64's
  finalizer \<open>KMVHash\<close>, its inverse \<open>KMVUnhash\<close>, and the two environment readers
  that size the sketches. The finalizer is proved to be a bijection of the
  64-bit words with \<open>KMVUnhash\<close> as its inverse, which is what lets a sample keep
  the fingerprint alone.
\<close>

unbundle bit_operations_syntax

section \<open>Definitions\<close>

text \<open>
  The loop of \<open>InvertXorShift\<close>. A shift of 0 would never reach 64, so the loop is
  a partial function and None stands for not returning.
\<close>

partial_function (option) InvertXorShift_loop :: "u64 \<Rightarrow> nat \<Rightarrow> u64 option" where
  "InvertXorShift_loop x s =
     (if s < 64 then InvertXorShift_loop (x XOR drop_bit s x) (2 * s) else Some x)"

definition InvertXorShift :: "u64 \<Rightarrow> nat \<Rightarrow> u64 option" where
  "InvertXorShift y shift = InvertXorShift_loop y shift"

definition KMVHash :: "u64 \<Rightarrow> u64" where
  "KMVHash x0 =
     (let x1 = x0 + 0x9e3779b97f4a7c15;
          x2 = (x1 XOR drop_bit 30 x1) * 0xbf58476d1ce4e5b9;
          x3 = (x2 XOR drop_bit 27 x2) * 0x94d049bb133111eb
      in x3 XOR drop_bit 31 x3)"

definition KMVUnhash :: "u64 \<Rightarrow> u64 option" where
  "KMVUnhash x0 =
     (case InvertXorShift x0 31 of None \<Rightarrow> None | Some x1 \<Rightarrow>
      (case InvertXorShift (x1 * 0x319642b2d24d8ec3) 27 of None \<Rightarrow> None | Some x2 \<Rightarrow>
       (case InvertXorShift (x2 * 0x96de1b173f119089) 30 of None \<Rightarrow> None | Some x3 \<Rightarrow>
        Some (x3 - 0x9e3779b97f4a7c15))))"

text \<open>
  The environment readers. The argument is the value \<open>getenv\<close> returned, None for a
  null pointer; the digit loop stops with None at a character that is not a
  digit or where the next digit would overflow \<open>size_t\<close>.
\<close>

definition kDefaultKMVSamples :: u64 where
  "kDefaultKMVSamples = 512"

definition kDefaultKMVRangeBuckets :: u64 where
  "kDefaultKMVRangeBuckets = 8"

definition digit :: "char \<Rightarrow> u64" where
  "digit c = of_nat (of_char c) - of_nat (of_char CHR ''0'')"

fun parse_size :: "u64 \<Rightarrow> string \<Rightarrow> u64 option" where
  "parse_size parsed [] = Some parsed"
| "parse_size parsed (c # cs) =
     (if (of_char c :: nat) < of_char CHR ''0'' \<or> (of_char c :: nat) > of_char CHR ''9''
         \<or> parsed > (u64_max - digit c) div 10
      then None
      else parse_size (parsed * 10 + digit c) cs)"

definition read_size_env :: "u64 \<Rightarrow> string option \<Rightarrow> u64" where
  "read_size_env dflt v =
     (case v of None \<Rightarrow> dflt
      | Some [] \<Rightarrow> dflt
      | Some s \<Rightarrow> (case parse_size 0 s of None \<Rightarrow> dflt
                   | Some parsed \<Rightarrow> if parsed = 0 then dflt else parsed))"

definition VirtualSSTKMVSamples :: "string option \<Rightarrow> u64" where
  "VirtualSSTKMVSamples v = read_size_env kDefaultKMVSamples v"

definition VirtualSSTKMVRangeBuckets :: "string option \<Rightarrow> u64" where
  "VirtualSSTKMVRangeBuckets v = read_size_env kDefaultKMVRangeBuckets v"

section \<open>Xor-shifts\<close>

definition xorshift :: "nat \<Rightarrow> u64 \<Rightarrow> u64" where
  "xorshift s x = x XOR drop_bit s x"

lemma xorshift_twice: "xorshift s (xorshift s x) = xorshift (2 * s) x"
  by (rule bit_word_eqI) (auto simp: xorshift_def bit_simps mult_2 add.assoc [symmetric])

lemma xorshift_large: "64 \<le> s \<Longrightarrow> xorshift s x = x"
  by (rule bit_word_eqI) (auto simp: xorshift_def bit_simps dest: bit_imp_le_length)

lemma InvertXorShift_loop_returns: "0 < s \<Longrightarrow> \<exists>y. InvertXorShift_loop x s = Some y"
proof (induction "64 - s" arbitrary: x s rule: less_induct)
  case less
  show ?case
  proof (cases "s < 64")
    case True
    then have "64 - 2 * s < 64 - s" using less.prems by simp
    from less.hyps [OF this] less.prems True show ?thesis
      by (subst InvertXorShift_loop.simps) simp
  next
    case False
    then show ?thesis by (subst InvertXorShift_loop.simps) simp
  qed
qed

lemma InvertXorShift_loop_inverts: "0 < s \<Longrightarrow> InvertXorShift_loop (xorshift s x) s = Some x"
proof (induction "64 - s" arbitrary: s rule: less_induct)
  case less
  show ?case
  proof (cases "s < 64")
    case True
    then have "64 - 2 * s < 64 - s" using less.prems by simp
    then have "InvertXorShift_loop (xorshift (2 * s) x) (2 * s) = Some x"
      using less.prems by (intro less.hyps) simp_all
    then show ?thesis
      using True by (subst InvertXorShift_loop.simps) (simp add: xorshift_def [symmetric] xorshift_twice)
  next
    case False
    then show ?thesis
      by (subst InvertXorShift_loop.simps) (simp add: xorshift_large)
  qed
qed

lemma InvertXorShift_xorshift [simp]: "0 < s \<Longrightarrow> InvertXorShift (xorshift s x) s = Some x"
  by (simp add: InvertXorShift_def InvertXorShift_loop_inverts)

section \<open>The finalizer is a bijection\<close>

lemma multiplier_inverses:
  "(0xbf58476d1ce4e5b9 :: u64) * 0x96de1b173f119089 = 1"
  "(0x94d049bb133111eb :: u64) * 0x319642b2d24d8ec3 = 1"
  by simp_all

lemma KMVHash_xorshift:
  "KMVHash x = xorshift 31 (xorshift 27 (xorshift 30 (x + 0x9e3779b97f4a7c15)
      * 0xbf58476d1ce4e5b9) * 0x94d049bb133111eb)"
  by (simp only: KMVHash_def Let_def xorshift_def)

lemma KMVUnhash_KMVHash: "KMVUnhash (KMVHash x) = Some x"
  by (simp only: KMVUnhash_def KMVHash_xorshift InvertXorShift_xorshift zero_less_numeral
      option.case mult.assoc multiplier_inverses mult_1_right add_diff_cancel)

lemma inj_KMVHash: "inj KMVHash"
  by (rule injI) (metis KMVUnhash_KMVHash option.inject)

lemma surj_KMVHash: "surj KMVHash"
  by (rule finite_UNIV_inj_surj [OF finite inj_KMVHash])

lemma KMVUnhash_total: "\<exists>x. KMVUnhash h = Some x \<and> KMVHash x = h"
  by (metis surj_KMVHash surjD KMVUnhash_KMVHash)

lemma KMVHash_eq_iff [simp]: "KMVHash x = KMVHash y \<longleftrightarrow> x = y"
  using inj_KMVHash by (auto dest: injD)

section \<open>The environment readers\<close>

text \<open>The decimal value of a digit string.\<close>

definition digits_ok :: "string \<Rightarrow> bool" where
  "digits_ok s \<longleftrightarrow> (\<forall>c \<in> set s. of_char CHR ''0'' \<le> (of_char c :: nat) \<and> (of_char c :: nat) \<le> of_char CHR ''9'')"

definition dec_value :: "nat \<Rightarrow> string \<Rightarrow> nat" where
  "dec_value a s = foldl (\<lambda>v c. 10 * v + (of_char c - of_char CHR ''0'')) a s"

lemma dec_value_Cons [simp]:
  "dec_value a [] = a"
  "dec_value a (c # cs) = dec_value (10 * a + (of_char c - of_char CHR ''0'')) cs"
  by (simp_all add: dec_value_def)

lemma dec_value_ge: "a \<le> dec_value a s"
proof (induction s arbitrary: a)
  case (Cons c cs)
  have "a \<le> 10 * a + (of_char c - of_char CHR ''0'')" by simp
  also have "\<dots> \<le> dec_value a (c # cs)" using Cons.IH by simp
  finally show ?case .
qed simp

lemma parse_size_digit:
  assumes "of_char CHR ''0'' \<le> (of_char c :: nat)" "(of_char c :: nat) \<le> of_char CHR ''9''"
  shows "unat (digit c) = of_char c - of_char CHR ''0''" "unat (digit c) \<le> 9"
proof -
  obtain k where k: "of_char c = (of_char CHR ''0'' :: nat) + k" "k \<le> 9"
    using that [of "of_char c - of_char CHR ''0''"] assms by simp
  then have "digit c = of_nat k" by (simp add: digit_def)
  moreover have "unat (of_nat k :: u64) = k" using k(2) by (simp add: unsigned_of_nat take_bit_nat_eq_self)
  ultimately show "unat (digit c) = of_char c - of_char CHR ''0''" "unat (digit c) \<le> 9"
    using k by simp_all
qed

lemma parse_size_step:
  assumes "unat (d :: u64) \<le> 9"
  shows "parsed > (u64_max - d) div 10 \<longleftrightarrow> 2 ^ 64 \<le> 10 * unat parsed + unat d"
    and "10 * unat parsed + unat d < 2 ^ 64 \<Longrightarrow> unat (parsed * 10 + d) = 10 * unat parsed + unat d"
proof -
  have "unat ((u64_max - d) div 10) = (18446744073709551615 - unat d) div 10"
    by (simp add: unat_div_distrib unat_sub_u64 unat_u64_max)
  then show "parsed > (u64_max - d) div 10 \<longleftrightarrow> 2 ^ 64 \<le> 10 * unat parsed + unat d"
    using assms by (simp add: word_less_nat_alt) arith
  show "unat (parsed * 10 + d) = 10 * unat parsed + unat d" if "10 * unat parsed + unat d < 2 ^ 64"
    using that by (simp add: unat_word_ariths)
qed

lemma parse_size_spec:
  "parse_size a s =
     (if digits_ok s \<and> dec_value (unat a) s < 2 ^ 64 then Some (of_nat (dec_value (unat a) s)) else None)"
proof (induction s arbitrary: a)
  case Nil
  then show ?case using unat_u64_less [of a] by (simp add: digits_ok_def)
next
  case (Cons c cs)
  show ?case
  proof (cases "of_char CHR ''0'' \<le> (of_char c :: nat) \<and> (of_char c :: nat) \<le> of_char CHR ''9''")
    case True
    note d = parse_size_digit [OF True [THEN conjunct1] True [THEN conjunct2]]
    note st = parse_size_step [OF d(2), of a]
    show ?thesis
    proof (cases "2 ^ 64 \<le> 10 * unat a + unat (digit c)")
      case over: True
      then have "2 ^ 64 \<le> dec_value (unat a) (c # cs)"
        using dec_value_ge [of "10 * unat a + unat (digit c)" cs] by (simp add: d(1))
      then show ?thesis using over st by simp
    next
      case False
      then have "parse_size a (c # cs) = parse_size (a * 10 + digit c) cs"
        using True st by simp
      moreover have "unat (a * 10 + digit c) = 10 * unat a + (of_char c - of_char CHR ''0'')"
        using False st by (simp add: d(1))
      ultimately show ?thesis
        using True by (simp add: Cons.IH digits_ok_def)
    qed
  next
    case False
    then show ?thesis by (auto simp: digits_ok_def)
  qed
qed

section \<open>Properties\<close>

text \<open>
  C24: \<open>KMVUnhash\<close> inverts \<open>KMVHash\<close> on every key, and every 64-bit fingerprint is
  the hash of exactly one key, which \<open>KMVUnhash\<close> returns: a fingerprint identifies
  its key, as the header claims.
\<close>

theorem kmv_hash_bijection:
  "KMVUnhash (KMVHash k) = Some k \<and> bij KMVHash \<and> map_option KMVHash (KMVUnhash h) = Some h"
  using KMVUnhash_total [of h]
  by (auto simp: KMVUnhash_KMVHash bij_def inj_KMVHash surj_KMVHash)

text \<open>
  the sample budget is the decimal value of the variable when it is a nonempty
  digit string whose value fits \<open>size_t\<close> and is not zero, and 512 in every other
  case: no malformed or overflowing value gets through.
\<close>

theorem kmv_samples_env_spec:
  "VirtualSSTKMVSamples v =
     (case v of
        Some s \<Rightarrow> if s \<noteq> [] \<and> digits_ok s \<and> 0 < dec_value 0 s \<and> dec_value 0 s < 2 ^ 64
                  then of_nat (dec_value 0 s) else 512
      | None \<Rightarrow> 512)"
proof -
  have "(of_nat n :: u64) = 0 \<longleftrightarrow> n = 0" if "n < 2 ^ 64" for n
    using that by (simp add: word_unat_eq_iff unsigned_of_nat take_bit_nat_eq_self)
  then show ?thesis
    by (auto simp: VirtualSSTKMVSamples_def read_size_env_def kDefaultKMVSamples_def parse_size_spec
        split: option.splits list.splits)
qed

end
