(* ===== verification/Fp_Round.thy ===== *)
theory Fp_Round
  imports Vc_Prelude "HOL-Library.Log_Nat"
begin

text \<open>
  Rounding of rationals to a binary floating-point format, to nearest with ties to even:
  the base of the model of the \<open>double\<close> and \<open>long double\<close> arithmetic of the sources. The
  laws the users rest on are those of the locale \<open>rounding\<close>: rounding is monotone, fixes
  the representable values and lands in them.
\<close>

section \<open>Binary floating-point formats\<close>

record fp_fmt =
  prec :: nat
  emin :: int
  emax :: int

definition binary64 :: fp_fmt where
  "binary64 = \<lparr>prec = 53, emin = - 1022, emax = 1023\<rparr>"

definition x87ext :: fp_fmt where
  "x87ext = \<lparr>prec = 64, emin = - 16382, emax = 16383\<rparr>"

definition pow2 :: "int \<Rightarrow> rat" where
  "pow2 k = 2 powi k"

lemma pow2_code [code]:
  "pow2 k = (if 0 \<le> k then of_int (2 ^ nat k) else 1 / of_int (2 ^ nat (- k)))"
  by (simp add: pow2_def power_int_def inverse_eq_divide power_divide)

text \<open>The exponent of the leading bit of a positive rational.\<close>

definition ilog2 :: "rat \<Rightarrow> int" where
  "ilog2 x = (let (a, b) = quotient_of x; k = bitlen a - bitlen b
              in if pow2 k \<le> x then k else k - 1)"

text \<open>Round to the nearest integer, ties to even.\<close>

definition rne :: "rat \<Rightarrow> int" where
  "rne x = (let f = \<lfloor>x\<rfloor>; d = x - of_int f
            in if d < 1 / 2 then f
               else if 1 / 2 < d then f + 1
               else if even f then f else f + 1)"

definition quantum :: "fp_fmt \<Rightarrow> rat \<Rightarrow> int" where
  "quantum F x = max (ilog2 \<bar>x\<bar>) (emin F) - (int (prec F) - 1)"

definition rnd :: "fp_fmt \<Rightarrow> rat \<Rightarrow> rat" where
  "rnd F x = (if x = 0 then 0
              else let q = quantum F x in of_int (rne (x / pow2 q)) * pow2 q)"

section \<open>Powers of two and the leading exponent\<close>

lemma pow2_pos [simp]: "0 < pow2 k"
  by (simp add: pow2_def)

lemma pow2_nonzero [simp]: "pow2 k \<noteq> 0"
  by (simp add: pow2_def)

lemma pow2_nonneg [simp]: "0 \<le> pow2 k"
  by (simp add: pow2_def)

lemma pow2_abs [simp]: "\<bar>pow2 k\<bar> = pow2 k"
  by (simp add: pow2_def)

lemma pow2_simps [simp]: "pow2 0 = 1" "pow2 1 = 2" "pow2 (int n) = 2 ^ n"
  by (simp_all add: pow2_def)

lemma pow2_add: "pow2 (a + b) = pow2 a * pow2 b"
  by (simp add: pow2_def power_int_add)

lemma pow2_less_iff [simp]: "pow2 a < pow2 b \<longleftrightarrow> a < b"
  unfolding pow2_def
  by (metis power_int_strict_increasing one_less_numeral_iff semiring_norm(76)
      linorder_less_linear order_less_asym order_less_irrefl)

lemma pow2_le_iff [simp]: "pow2 a \<le> pow2 b \<longleftrightarrow> a \<le> b"
  by (simp flip: not_less)

lemma pow2_diff: "pow2 (a - b) = pow2 a / pow2 b"
  by (simp add: pow2_def power_int_diff)

lemma pow2_of_int: "0 \<le> k \<Longrightarrow> pow2 k = of_int (2 ^ nat k)"
  by (simp add: pow2_def power_int_def)

lemma bitlen_pow2_bounds:
  assumes "0 < a"
  shows "pow2 (bitlen a - 1) \<le> of_int a" "of_int a < pow2 (bitlen a)"
proof -
  have b: "2 ^ nat (bitlen a - 1) \<le> a" "a < 2 ^ nat (bitlen a)"
    using bitlen_bounds [OF assms] by auto
  have p: "0 < bitlen a" using assms using bitlen_nonneg [of a] bitlen_eq_zero_iff [of a] by linarith
  have "(of_int (2 ^ nat (bitlen a - 1)) :: rat) \<le> of_int a" "(of_int a :: rat) < of_int (2 ^ nat (bitlen a))"
    using b by (simp_all only: of_int_le_iff of_int_less_iff)
  then show "pow2 (bitlen a - 1) \<le> of_int a" "of_int a < pow2 (bitlen a)"
    using p by (simp_all add: pow2_def power_int_def)
qed

lemma ilog2_bounds:
  assumes "0 < x"
  shows "pow2 (ilog2 x) \<le> x" "x < pow2 (ilog2 x + 1)"
proof -
  obtain a b where q: "quotient_of x = (a, b)" by (cases "quotient_of x")
  have b: "0 < b" using q by (rule quotient_of_denom_pos)
  have x: "x = of_int a / of_int b" using q by (rule quotient_of_div)
  have a: "0 < a" using assms b unfolding x by (simp add: zero_less_divide_iff)
  define k where "k = bitlen a - bitlen b"
  have ub: "x < pow2 (k + 1)"
  proof -
    have "of_int a < pow2 (k + 1) * pow2 (bitlen b - 1)"
      using bitlen_pow2_bounds(2) [OF a] by (simp add: k_def flip: pow2_add)
    also have "\<dots> \<le> pow2 (k + 1) * of_int b"
      using bitlen_pow2_bounds(1) [OF b] by (intro mult_left_mono) simp_all
    finally show ?thesis using b by (simp add: x divide_less_eq)
  qed
  have lb: "pow2 (k - 1) \<le> x"
  proof -
    have "pow2 (k - 1) * of_int b \<le> pow2 (k - 1) * pow2 (bitlen b)"
      using bitlen_pow2_bounds(2) [OF b] by (intro mult_left_mono) simp_all
    also have "\<dots> = pow2 (bitlen a - 1)" by (simp add: k_def flip: pow2_add)
    also have "\<dots> \<le> of_int a" by (rule bitlen_pow2_bounds(1) [OF a])
    finally show ?thesis using b by (simp add: x le_divide_eq)
  qed
  show "pow2 (ilog2 x) \<le> x" "x < pow2 (ilog2 x + 1)"
    using ub lb by (auto simp: ilog2_def q k_def [symmetric] Let_def not_le)
qed

lemma ilog2_mono:
  assumes "0 < x" "x \<le> y"
  shows "ilog2 x \<le> ilog2 y"
proof -
  have "pow2 (ilog2 x) < pow2 (ilog2 y + 1)"
    using ilog2_bounds(1) [of x] ilog2_bounds(2) [of y] assms by linarith
  then show ?thesis by simp
qed

section \<open>Rounding to an integer\<close>

lemma rne_of_int [simp]: "rne (of_int k) = k"
  by (simp add: rne_def Let_def)

lemma rne_bounds: "\<bar>of_int (rne x) - x\<bar> \<le> 1 / 2"
proof -
  have "of_int \<lfloor>x\<rfloor> \<le> x" "x < of_int \<lfloor>x\<rfloor> + 1" by linarith+
  then show ?thesis by (auto simp: rne_def Let_def abs_le_iff)
qed

lemma rne_mono:
  assumes "x \<le> y"
  shows "rne x \<le> rne y"
proof (cases "\<lfloor>x\<rfloor> = \<lfloor>y\<rfloor>")
  case True
  then show ?thesis using assms by (auto simp: rne_def Let_def)
next
  case False
  then have "\<lfloor>x\<rfloor> + 1 \<le> \<lfloor>y\<rfloor>" using floor_mono [OF assms] by linarith
  moreover have "rne x \<le> \<lfloor>x\<rfloor> + 1" "\<lfloor>y\<rfloor> \<le> rne y" by (auto simp: rne_def Let_def)
  ultimately show ?thesis by linarith
qed

lemma rne_uminus: "rne (- x) = - rne x"
proof (cases "x = of_int \<lfloor>x\<rfloor>")
  case True
  then show ?thesis by (metis of_int_minus rne_of_int)
next
  case False
  have f: "\<lfloor>- x\<rfloor> = - \<lfloor>x\<rfloor> - 1"
    using False by (simp add: floor_eq_iff) linarith
  show ?thesis by (auto simp: rne_def Let_def f)
qed

section \<open>Representable values and the rounding laws\<close>

definition repr :: "fp_fmt \<Rightarrow> rat \<Rightarrow> bool" where
  "repr F x \<longleftrightarrow> (\<exists>m e. x = of_int m * pow2 e \<and> \<bar>m\<bar> < 2 ^ prec F \<and> emin F - int (prec F) + 1 \<le> e)"

lemma rnd_0 [simp]: "rnd F 0 = 0"
  by (simp add: rnd_def)

lemma rnd_uminus: "rnd F (- x) = - rnd F x"
  by (simp add: rnd_def quantum_def Let_def rne_uminus)

lemma quantum_ge: "emin F - int (prec F) + 1 \<le> quantum F x"
  by (simp add: quantum_def)

lemma scaled_bound:
  assumes "x \<noteq> 0"
  shows "\<bar>x\<bar> / pow2 (quantum F x) < pow2 (int (prec F))"
proof -
  have "\<bar>x\<bar> < pow2 (ilog2 \<bar>x\<bar> + 1)" using assms by (intro ilog2_bounds) simp
  also have "\<dots> \<le> pow2 (int (prec F) + quantum F x)" by (simp add: quantum_def)
  finally show ?thesis by (simp add: pow2_add divide_less_eq)
qed

lemma rnd_exact:
  assumes "repr F x"
  shows "rnd F x = x"
proof (cases "x = 0")
  case False
  from assms obtain m e where x: "x = of_int m * pow2 e" and m: "\<bar>m\<bar> < 2 ^ prec F"
    and e: "emin F - int (prec F) + 1 \<le> e"
    by (auto simp: repr_def)
  have "pow2 (ilog2 \<bar>x\<bar>) \<le> \<bar>x\<bar>" using False by (intro ilog2_bounds) simp
  also have "\<dots> = of_int \<bar>m\<bar> * pow2 e" by (simp add: x abs_mult)
  also have "\<dots> < of_int (2 ^ prec F) * pow2 e"
    using m by (intro mult_strict_right_mono) (simp_all only: of_int_less_iff pow2_pos)
  also have "\<dots> = pow2 (int (prec F) + e)" by (simp add: pow2_add)
  finally have "ilog2 \<bar>x\<bar> < int (prec F) + e" by simp
  then have q: "quantum F x \<le> e" using e by (simp add: quantum_def)
  have "x / pow2 (quantum F x) = of_int m * pow2 (e - quantum F x)"
    by (simp add: x pow2_diff)
  also have "\<dots> = of_int (m * 2 ^ nat (e - quantum F x))"
    using q by (simp add: pow2_of_int)
  finally have "of_int (rne (x / pow2 (quantum F x))) = x / pow2 (quantum F x)"
    by (metis rne_of_int)
  then show ?thesis using False by (simp add: rnd_def Let_def)
qed simp

lemma repr_0 [simp, intro]: "repr F 0"
  unfolding repr_def by (intro exI [of _ 0] exI [of _ "emin F"] exI [of _ "emin F + 1"]) auto

lemma repr_scaled:
  assumes "1 \<le> prec F" "\<bar>r\<bar> \<le> 2 ^ prec F" "emin F - int (prec F) + 1 \<le> q"
  shows "repr F (of_int r * pow2 q)"
proof (cases "\<bar>r\<bar> = 2 ^ prec F")
  case True
  obtain p where p: "prec F = Suc p" using assms(1) by (cases "prec F") auto
  with True have "even \<bar>r\<bar>" by simp
  then obtain m where r: "r = 2 * m" by (auto elim: evenE)
  have m: "\<bar>m\<bar> = 2 ^ (prec F - 1)" using True p by (simp add: r abs_mult)
  have "of_int r * pow2 q = of_int m * pow2 (q + 1)" by (simp add: r pow2_add)
  moreover have "\<bar>m\<bar> < 2 ^ prec F" using m assms(1) by simp
  ultimately show ?thesis using assms(3) unfolding repr_def
    by (intro exI [of _ m] exI [of _ "q + 1"]) auto
next
  case False
  then show ?thesis using assms unfolding repr_def by (intro exI [of _ r] exI [of _ q]) auto
qed

lemma repr_rnd:
  assumes "1 \<le> prec F"
  shows "repr F (rnd F x)"
proof (cases "x = 0")
  case False
  let ?q = "quantum F x"
  have "\<bar>x / pow2 ?q\<bar> \<le> of_int (2 ^ prec F)"
    using scaled_bound [OF False, of F] by (simp add: abs_divide)
  then have "- of_int (2 ^ prec F) \<le> x / pow2 ?q" "x / pow2 ?q \<le> of_int (2 ^ prec F)"
    by linarith+
  then have "rne (of_int (- (2 ^ prec F))) \<le> rne (x / pow2 ?q)"
    "rne (x / pow2 ?q) \<le> rne (of_int (2 ^ prec F))"
    by (auto intro!: rne_mono)
  then have "\<bar>rne (x / pow2 ?q)\<bar> \<le> 2 ^ prec F" unfolding rne_of_int by linarith
  then show ?thesis
    using False repr_scaled [OF assms _ quantum_ge] by (simp add: rnd_def Let_def)
qed simp

lemma rnd_nonneg: "0 \<le> x \<Longrightarrow> 0 \<le> rnd F x"
  using rne_mono [of 0 "x / pow2 (quantum F x)"] rne_of_int [of 0]
  by (auto simp: rnd_def Let_def)

lemma rnd_mono_pos:
  assumes "0 < x" "x \<le> y" "1 \<le> prec F"
  shows "rnd F x \<le> rnd F y"
proof (cases "quantum F x = quantum F y")
  case True
  then show ?thesis using assms rne_mono [of "x / pow2 (quantum F y)" "y / pow2 (quantum F y)"]
    by (simp add: rnd_def Let_def divide_right_mono)
next
  case False
  have lg: "ilog2 x \<le> ilog2 y" by (rule ilog2_mono [OF assms(1,2)])
  with False have iy: "emin F < ilog2 y" "ilog2 x < ilog2 y"
    using assms by (auto simp: quantum_def)
  define z where "z = pow2 (ilog2 y)"
  have z: "x \<le> z" "z \<le> y"
    using ilog2_bounds(2) [OF assms(1)] ilog2_bounds(1) [of y] assms iy pow2_le_iff [of "ilog2 x + 1" "ilog2 y"]
    unfolding z_def by linarith+
  have mult: "\<exists>k. z / pow2 q = of_int k" if "q \<le> ilog2 y" for q
  proof -
    have "z / pow2 q = pow2 (ilog2 y - q)" by (simp only: z_def pow2_diff)
    also have "\<dots> = of_int (2 ^ nat (ilog2 y - q))" using that by (intro pow2_of_int) simp
    finally show ?thesis ..
  qed
  have "quantum F x \<le> ilog2 y" "quantum F y \<le> ilog2 y"
    using iy assms by (simp_all add: quantum_def)
  then obtain k l where k: "z / pow2 (quantum F x) = of_int k"
    and l: "z / pow2 (quantum F y) = of_int l"
    using mult by blast
  have "of_int (rne (x / pow2 (quantum F x))) \<le> z / pow2 (quantum F x)"
    using rne_mono [of "x / pow2 (quantum F x)" "z / pow2 (quantum F x)"] z(1)
    by (simp only: k rne_of_int of_int_le_iff) (simp add: divide_right_mono flip: k)
  then have 1: "rnd F x \<le> z" using assms by (simp add: rnd_def Let_def le_divide_eq)
  have "z / pow2 (quantum F y) \<le> of_int (rne (y / pow2 (quantum F y)))"
    using rne_mono [of "z / pow2 (quantum F y)" "y / pow2 (quantum F y)"] z(2)
    by (simp only: l rne_of_int of_int_le_iff) (simp add: divide_right_mono flip: l)
  then have 2: "z \<le> rnd F y" using assms by (simp add: rnd_def Let_def divide_le_eq)
  from 1 2 show ?thesis by (rule order.trans)
qed

lemma rnd_mono:
  assumes "x \<le> y" "1 \<le> prec F"
  shows "rnd F x \<le> rnd F y"
proof -
  consider "0 < x" | "x \<le> 0" "0 \<le> y" | "y < 0" by linarith
  then show ?thesis
  proof cases
    case 1
    then show ?thesis using assms by (intro rnd_mono_pos)
  next
    case 2
    then show ?thesis using rnd_nonneg [of y F] rnd_nonneg [of "- x" F] by (simp add: rnd_uminus)
  next
    case 3
    then show ?thesis using rnd_mono_pos [of "- y" "- x" F] assms by (simp add: rnd_uminus)
  qed
qed

section \<open>The rounding interface\<close>

text \<open>
  All the development uses of a rounding function: it is monotone, keeps
  representable values and returns representable values.
\<close>

locale rounding =
  fixes R :: "rat \<Rightarrow> rat" and rep :: "rat \<Rightarrow> bool"
  assumes mono: "x \<le> y \<Longrightarrow> R x \<le> R y"
    and exact: "rep x \<Longrightarrow> R x = x"
    and closed: "rep (R x)"
begin

lemma le_rep: "x \<le> y \<Longrightarrow> rep y \<Longrightarrow> R x \<le> y"
  using mono [of x y] by (simp add: exact)

lemma ge_rep: "y \<le> x \<Longrightarrow> rep y \<Longrightarrow> y \<le> R x"
  using mono [of y x] by (simp add: exact)

lemma idem: "R (R x) = R x"
  by (rule exact [OF closed])

end

lemma prec_simps [simp]:
  "prec binary64 = 53" "emin binary64 = - 1022" "emax binary64 = 1023"
  "prec x87ext = 64" "emin x87ext = - 16382" "emax x87ext = 16383"
  by (simp_all add: binary64_def x87ext_def)

interpretation r64: rounding "rnd binary64" "repr binary64"
  by unfold_locales (simp_all add: rnd_mono rnd_exact repr_rnd)

interpretation r80: rounding "rnd x87ext" "repr x87ext"
  by unfold_locales (simp_all add: rnd_mono rnd_exact repr_rnd)

lemma repr_int:
  assumes "\<bar>k\<bar> \<le> 2 ^ prec F" "1 \<le> prec F" "emin F - int (prec F) + 1 \<le> 0"
  shows "repr F (of_int k)"
  using repr_scaled [OF assms(2,1,3)] by simp

lemma repr64_int: "\<bar>k\<bar> \<le> 2 ^ 53 \<Longrightarrow> repr binary64 (of_int k)"
  using repr_int [of k binary64] by simp

lemma uint_u64_less: "uint (x :: u64) < 18446744073709551616"
  using uint_lt2p [of x] by simp

lemma repr80_u64: "repr x87ext (of_int (uint (n :: u64)))"
  using repr_int [of "uint n" x87ext] uint_u64_less [of n] by simp

section \<open>The rounding error\<close>

text \<open>At and above one the rounding error is at most one part in \<open>2 ^ prec\<close>.\<close>

lemma rnd_error:
  assumes "1 \<le> x" "emin F \<le> 0"
  shows "\<bar>rnd F x - x\<bar> \<le> x / 2 ^ prec F"
proof -
  define q where "q = pow2 (quantum F x)"
  have "pow2 0 < pow2 (ilog2 x + 1)" using ilog2_bounds(2) [of x] assms(1) by simp
  then have lg: "0 \<le> ilog2 x" by (simp only: pow2_less_iff)
  have mx: "max (ilog2 x) (emin F) = ilog2 x" using lg assms(2) by simp
  have q: "q = pow2 (ilog2 x) * 2 / 2 ^ prec F" "0 < q"
    using mx assms(1) pow2_diff [of "ilog2 x + 1" "int (prec F)"]
    by (simp_all add: q_def quantum_def pow2_add algebra_simps)
  have "rnd F x - x = (of_int (rne (x / q)) - x / q) * q"
    using assms(1) q(2) by (simp add: rnd_def Let_def q_def [symmetric] algebra_simps)
  then have "\<bar>rnd F x - x\<bar> = \<bar>of_int (rne (x / q)) - x / q\<bar> * q" using q(2) by (simp add: abs_mult)
  also have "\<dots> \<le> 1 / 2 * q" using rne_bounds [of "x / q"] q(2) by (intro mult_right_mono) auto
  also have "\<dots> = pow2 (ilog2 x) / 2 ^ prec F" by (simp add: q(1))
  also have "\<dots> \<le> x / 2 ^ prec F" using ilog2_bounds(1) [of x] assms(1) by (intro divide_right_mono) auto
  finally show ?thesis .
qed

end
