(* ===== verification/Fp_Ops.thy ===== *)
theory Fp_Ops
  imports Fp_Round
begin

text \<open>
  Floating-point values and the operations the C++ code applies to \<open>double\<close>
  (binary64) and \<open>long double\<close> (x87 extended) values: every operation computes
  exactly and rounds once. The sign of a zero and NaN payloads are not kept.
\<close>

section \<open>Values and operations\<close>

datatype fp = Fin rat | PInf | NInf | NaN

text \<open>The value a rational result is stored as: rounded, or infinite past the largest finite value.\<close>

definition fp_of :: "fp_fmt \<Rightarrow> rat \<Rightarrow> fp" where
  "fp_of F x = (let y = rnd F x
                in if y \<noteq> 0 \<and> emax F < ilog2 \<bar>y\<bar> then (if 0 < y then PInf else NInf)
                   else Fin y)"

definition fp_u64 :: "fp_fmt \<Rightarrow> u64 \<Rightarrow> fp" where
  "fp_u64 F n = fp_of F (of_int (uint n))"

fun fp_neg :: "fp \<Rightarrow> fp" where
  "fp_neg (Fin x) = Fin (- x)"
| "fp_neg PInf = NInf"
| "fp_neg NInf = PInf"
| "fp_neg NaN = NaN"

fun fp_add :: "fp_fmt \<Rightarrow> fp \<Rightarrow> fp \<Rightarrow> fp" where
  "fp_add F (Fin x) (Fin y) = fp_of F (x + y)"
| "fp_add F NaN b = NaN"
| "fp_add F a NaN = NaN"
| "fp_add F PInf NInf = NaN"
| "fp_add F NInf PInf = NaN"
| "fp_add F PInf b = PInf"
| "fp_add F a PInf = PInf"
| "fp_add F NInf b = NInf"
| "fp_add F a NInf = NInf"

definition fp_sub :: "fp_fmt \<Rightarrow> fp \<Rightarrow> fp \<Rightarrow> fp" where
  "fp_sub F a b = fp_add F a (fp_neg b)"

definition fp_inf :: "bool \<Rightarrow> fp" where
  "fp_inf neg = (if neg then NInf else PInf)"

fun fp_mul :: "fp_fmt \<Rightarrow> fp \<Rightarrow> fp \<Rightarrow> fp" where
  "fp_mul F (Fin x) (Fin y) = fp_of F (x * y)"
| "fp_mul F NaN b = NaN"
| "fp_mul F a NaN = NaN"
| "fp_mul F (Fin x) PInf = (if x = 0 then NaN else fp_inf (x < 0))"
| "fp_mul F (Fin x) NInf = (if x = 0 then NaN else fp_inf (0 < x))"
| "fp_mul F PInf (Fin y) = (if y = 0 then NaN else fp_inf (y < 0))"
| "fp_mul F NInf (Fin y) = (if y = 0 then NaN else fp_inf (0 < y))"
| "fp_mul F PInf PInf = PInf"
| "fp_mul F PInf NInf = NInf"
| "fp_mul F NInf PInf = NInf"
| "fp_mul F NInf NInf = PInf"

text \<open>Division; a zero divisor counts as positive zero (no negative zero is kept apart).\<close>

fun fp_div :: "fp_fmt \<Rightarrow> fp \<Rightarrow> fp \<Rightarrow> fp" where
  "fp_div F (Fin x) (Fin y) =
     (if y = 0 then (if x = 0 then NaN else fp_inf (x < 0)) else fp_of F (x / y))"
| "fp_div F NaN b = NaN"
| "fp_div F a NaN = NaN"
| "fp_div F (Fin x) b = Fin 0"
| "fp_div F PInf (Fin y) = fp_inf (y < 0)"
| "fp_div F NInf (Fin y) = fp_inf (0 \<le> y)"
| "fp_div F a b = NaN"

fun fp_lt :: "fp \<Rightarrow> fp \<Rightarrow> bool" where
  "fp_lt NaN b = False"
| "fp_lt a NaN = False"
| "fp_lt (Fin x) (Fin y) = (x < y)"
| "fp_lt NInf b = (b \<noteq> NInf)"
| "fp_lt a PInf = (a \<noteq> PInf)"
| "fp_lt a b = False"

fun fp_le :: "fp \<Rightarrow> fp \<Rightarrow> bool" where
  "fp_le NaN b = False"
| "fp_le a NaN = False"
| "fp_le (Fin x) (Fin y) = (x \<le> y)"
| "fp_le NInf b = True"
| "fp_le a PInf = True"
| "fp_le a b = False"

text \<open>\<open>std::max\<close>, \<open>std::min\<close>, \<open>std::abs\<close>, \<open>std::isinf\<close>.\<close>

definition fp_max :: "fp \<Rightarrow> fp \<Rightarrow> fp" where
  "fp_max a b = (if fp_lt a b then b else a)"

definition fp_min :: "fp \<Rightarrow> fp \<Rightarrow> fp" where
  "fp_min a b = (if fp_lt b a then b else a)"

fun fp_abs :: "fp \<Rightarrow> fp" where
  "fp_abs (Fin x) = Fin \<bar>x\<bar>"
| "fp_abs NaN = NaN"
| "fp_abs a = PInf"

definition fp_isinf :: "fp \<Rightarrow> bool" where
  "fp_isinf a \<longleftrightarrow> a = PInf \<or> a = NInf"

text \<open>\<open>std::round\<close> (halves away from zero) and \<open>std::ceil\<close> on the finite values.\<close>

definition round_away :: "rat \<Rightarrow> int" where
  "round_away x = (if 0 \<le> x then \<lfloor>x + 1 / 2\<rfloor> else - \<lfloor>1 / 2 - x\<rfloor>)"

fun fp_round :: "fp \<Rightarrow> fp" where
  "fp_round (Fin x) = Fin (of_int (round_away x))"
| "fp_round a = a"

fun fp_ceil :: "fp \<Rightarrow> fp" where
  "fp_ceil (Fin x) = Fin (of_int \<lceil>x\<rceil>)"
| "fp_ceil a = a"

text \<open>
  \<open>static_cast\<close> to \<open>uint64_t\<close>: truncation, undefined (None) when the truncated value
  is outside the range.
\<close>

fun fp_to_u64 :: "fp \<Rightarrow> u64 option" where
  "fp_to_u64 (Fin x) =
     (if - 1 < x \<and> x < 2 ^ 64 then Some (of_int (if 0 \<le> x then \<lfloor>x\<rfloor> else 0)) else None)"
| "fp_to_u64 a = None"

text \<open>\<open>std::llround\<close> followed by the conversion to \<open>uint64_t\<close>; None outside \<open>long long\<close>.\<close>

fun fp_llround_u64 :: "fp \<Rightarrow> u64 option" where
  "fp_llround_u64 (Fin x) =
     (let r = round_away x in if - (2 ^ 63) \<le> r \<and> r < 2 ^ 63 then Some (of_int r) else None)"
| "fp_llround_u64 a = None"

text \<open>Conversion of a value to another format.\<close>

fun fp_cvt :: "fp_fmt \<Rightarrow> fp \<Rightarrow> fp" where
  "fp_cvt F (Fin x) = fp_of F x"
| "fp_cvt F a = a"

section \<open>Results within range are finite\<close>

lemma repr_pow2: "1 \<le> prec F \<Longrightarrow> emin F - int (prec F) + 1 \<le> k \<Longrightarrow> repr F (pow2 k)"
  using repr_scaled [of F 1 k] by simp

lemma repr_uminus: "repr F x \<Longrightarrow> repr F (- x)"
  unfolding repr_def by (metis abs_minus_cancel mult_minus_left of_int_minus)

lemma rnd_abs_le:
  assumes "1 \<le> prec F" "repr F b" "\<bar>x\<bar> \<le> b"
  shows "\<bar>rnd F x\<bar> \<le> b"
proof -
  have "rnd F x \<le> rnd F b" "rnd F (- b) \<le> rnd F x"
    using assms by (auto intro!: rnd_mono)
  then show ?thesis using assms by (simp add: rnd_exact repr_uminus abs_le_iff)
qed

lemma fp_of_Fin:
  assumes "1 \<le> prec F" "emin F \<le> emax F" "\<bar>x\<bar> \<le> pow2 (emax F)"
  shows "fp_of F x = Fin (rnd F x)"
proof (cases "rnd F x = 0")
  case False
  have "\<bar>rnd F x\<bar> \<le> pow2 (emax F)"
    using assms by (intro rnd_abs_le repr_pow2) auto
  then have "pow2 (ilog2 \<bar>rnd F x\<bar>) \<le> pow2 (emax F)"
    using ilog2_bounds(1) [of "\<bar>rnd F x\<bar>"] False by linarith
  then show ?thesis by (simp add: fp_of_def)
qed (simp add: fp_of_def)

lemma pow2_numeral_le: "k \<le> n \<Longrightarrow> x \<le> 2 ^ k \<Longrightarrow> x \<le> pow2 (int n)"
  by (metis one_le_numeral order.trans pow2_simps(3) power_increasing)

lemma fp64_Fin: "\<bar>x\<bar> \<le> 2 ^ 200 \<Longrightarrow> fp_of binary64 x = Fin (rnd binary64 x)"
  using pow2_numeral_le [of 200 1023 "\<bar>x\<bar>"] by (simp add: fp_of_Fin)

lemma fp80_Fin: "\<bar>x\<bar> \<le> 2 ^ 200 \<Longrightarrow> fp_of x87ext x = Fin (rnd x87ext x)"
  using pow2_numeral_le [of 200 16383 "\<bar>x\<bar>"] by (simp add: fp_of_Fin)

lemma rnd_pos_iff_le: "1 \<le> prec F \<Longrightarrow> 0 \<le> x \<Longrightarrow> 0 \<le> rnd F x"
  by (rule rnd_nonneg)

text \<open>Rounding an integer gives an integer.\<close>

lemma rnd_int:
  assumes "emin F - int (prec F) + 1 \<le> 0"
  shows "\<exists>k. rnd F (of_int i) = of_int k"
proof (cases "of_int i = (0 :: rat)")
  case False
  let ?q = "quantum F (of_int i)"
  show ?thesis
  proof (cases "0 \<le> ?q")
    case True
    then show ?thesis using False
      by (auto simp: rnd_def Let_def pow2_of_int intro!: exI [of _ "rne (of_int i / 2 ^ nat ?q) * 2 ^ nat ?q"])
  next
    case neg: False
    have "(of_int i :: rat) / pow2 ?q = of_int (i * 2 ^ nat (- ?q))"
      using neg pow2_diff [of 0 ?q] by (simp add: pow2_of_int divide_inverse)
    then have "of_int (rne (of_int i / pow2 ?q)) * pow2 ?q = of_int i"
      by (metis rne_of_int nonzero_divide_eq_eq pow2_nonzero)
    then show ?thesis using False by (auto simp: rnd_def Let_def)
  qed
qed (metis of_int_0 rnd_0)

lemma rnd64_int: "\<exists>k. rnd binary64 (of_int i) = of_int k"
  by (rule rnd_int) simp

lemma u64_rat_bounds: "0 \<le> (of_int (uint (n :: u64)) :: rat)" "(of_int (uint n) :: rat) < 2 ^ 64"
proof -
  show "0 \<le> (of_int (uint n) :: rat)" by (simp only: of_int_0_le_iff uint_ge_0)
  have "(of_int (uint n) :: rat) < of_int (2 ^ 64)"
    using uint_u64_less [of n] by (simp only: of_int_less_iff) simp
  then show "(of_int (uint n) :: rat) < 2 ^ 64" by simp
qed

lemma repr64_2_64: "repr binary64 (2 ^ 64)"
  using repr_pow2 [of binary64 64] by (simp add: pow2_of_int)

lemma fp_u64_64: "fp_u64 binary64 n = Fin (rnd binary64 (of_int (uint n)))"
proof -
  have "\<bar>of_int (uint n) :: rat\<bar> \<le> 2 ^ 200"
    using u64_rat_bounds [of n] by simp
  then show ?thesis unfolding fp_u64_def by (rule fp64_Fin)
qed

lemma rnd_u64_bounds:
  "0 \<le> rnd binary64 (of_int (uint (n :: u64)))" "rnd binary64 (of_int (uint n)) \<le> 2 ^ 64"
  using u64_rat_bounds [of n] repr64_2_64
  by (auto intro: rnd_nonneg r64.le_rep)

end
