(* ===== verification/PLR_Model.thy ===== *)
theory PLR_Model
  imports Fp_Ops
begin

text \<open>
  The piecewise linear regression model of \<open>db/virtual_compaction/plr_model.h\<close> and
  \<open>plr_model.cc\<close>: rank prediction by binary search, its inverse, and the greedy
  shrinking-cone fit. Every \<open>double\<close> operation is rounded to binary64 on its own.
\<close>

section \<open>Data\<close>

record PLRSegment =
  key_start :: u64
  key_end :: u64
  slope :: fp
  intercept :: fp

record PLRModel =
  segments :: "PLRSegment list"

abbreviation dadd :: "fp \<Rightarrow> fp \<Rightarrow> fp" where "dadd \<equiv> fp_add binary64"
abbreviation dsub :: "fp \<Rightarrow> fp \<Rightarrow> fp" where "dsub \<equiv> fp_sub binary64"
abbreviation dmul :: "fp \<Rightarrow> fp \<Rightarrow> fp" where "dmul \<equiv> fp_mul binary64"
abbreviation ddiv :: "fp \<Rightarrow> fp \<Rightarrow> fp" where "ddiv \<equiv> fp_div binary64"
abbreviation du64 :: "u64 \<Rightarrow> fp" where "du64 \<equiv> fp_u64 binary64"

text \<open>A \<open>size_t\<close> index as a \<open>double\<close>.\<close>

definition didx :: "nat \<Rightarrow> fp" where
  "didx i = fp_of binary64 (of_int (int i))"

section \<open>Prediction\<close>

definition seg_eval :: "PLRSegment \<Rightarrow> u64 \<Rightarrow> fp" where
  "seg_eval seg k = dadd (dmul (slope seg) (du64 k)) (intercept seg)"

function Predict_search :: "PLRSegment list \<Rightarrow> u64 \<Rightarrow> nat \<Rightarrow> nat \<Rightarrow> nat" where
  "Predict_search segs key lo hi =
     (if lo < hi
      then let mid = lo + (hi - lo) div 2
           in if key_end (segs ! mid) < key then Predict_search segs key (mid + 1) hi
              else Predict_search segs key lo mid
      else lo)"
  by pat_completeness auto
termination
  by (relation "measure (\<lambda>(segs, key, lo, hi). hi - lo)") auto

declare Predict_search.simps [simp del]

definition Predict :: "PLRModel \<Rightarrow> u64 \<Rightarrow> fp" where
  "Predict m key =
     (let segs = segments m in
      if segs = [] then Fin 0
      else let lo = Predict_search segs key 0 (length segs) in
           if length segs \<le> lo then seg_eval (last segs) (key_end (last segs))
           else let seg = segs ! lo in
                if key < key_start seg
                then (if lo = 0 then Fin 0
                      else let prev = segs ! (lo - 1) in seg_eval prev (key_end prev))
                else seg_eval seg key)"

section \<open>Inverse\<close>

definition seg_lo :: "PLRSegment \<Rightarrow> fp" where
  "seg_lo seg = fp_min (seg_eval seg (key_start seg)) (seg_eval seg (key_end seg))"

definition seg_hi :: "PLRSegment \<Rightarrow> fp" where
  "seg_hi seg = fp_max (seg_eval seg (key_start seg)) (seg_eval seg (key_end seg))"

text \<open>The scan for the first segment whose rank range holds the position, or the closest one.\<close>

fun Inverse_best :: "fp \<Rightarrow> PLRSegment list \<Rightarrow> nat \<Rightarrow> nat \<Rightarrow> fp \<Rightarrow> nat" where
  "Inverse_best position [] i best_seg best_dist = best_seg"
| "Inverse_best position (seg # rest) i best_seg best_dist =
     (let lo = seg_lo seg; hi = seg_hi seg in
      if fp_le lo position \<and> fp_le position hi then i
      else let dist = (if fp_lt position lo then dsub lo position else dsub position hi)
           in if fp_lt dist best_dist then Inverse_best position rest (i + 1) i dist
              else Inverse_best position rest (i + 1) best_seg best_dist)"

text \<open>The key one segment assigns to a position; None where the final cast is undefined.\<close>

definition seg_inverse :: "PLRSegment \<Rightarrow> fp \<Rightarrow> u64 option" where
  "seg_inverse seg position =
     (if fp_lt (fp_abs (slope seg)) (fp_of binary64 (1 / 10 ^ 15))
      then Some ((key_start seg + key_end seg) div 2)
      else let key_d = ddiv (dsub position (intercept seg)) (slope seg);
               key_d1 = fp_max key_d (du64 (key_start seg));
               key_d2 = fp_min key_d1 (du64 (key_end seg))
           in fp_to_u64 (fp_round key_d2))"

definition Inverse :: "PLRModel \<Rightarrow> fp \<Rightarrow> u64 option" where
  "Inverse m position =
     (if segments m = [] then Some 0
      else seg_inverse (segments m ! Inverse_best position (segments m) 0 0 PInf) position)"

definition NumSegments :: "PLRModel \<Rightarrow> nat" where
  "NumSegments m = length (segments m)"

definition Empty :: "PLRModel \<Rightarrow> bool" where
  "Empty m \<longleftrightarrow> segments m = []"

definition KeyMin :: "PLRModel \<Rightarrow> u64" where
  "KeyMin m = (if segments m = [] then 0 else key_start (hd (segments m)))"

definition KeyMax :: "PLRModel \<Rightarrow> u64" where
  "KeyMax m = (if segments m = [] then 0 else key_end (last (segments m)))"

section \<open>The greedy fit\<close>

text \<open>The extension loop of one segment over the keys after its first, from index \<open>i\<close>.\<close>

fun fit_extend ::
    "fp \<Rightarrow> fp \<Rightarrow> fp \<Rightarrow> u64 list \<Rightarrow> nat \<Rightarrow> fp \<Rightarrow> fp \<Rightarrow> nat \<Rightarrow> fp \<times> fp \<times> nat" where
  "fit_extend error_bound x0 y0 [] i s_lo s_hi seg_end = (s_lo, s_hi, seg_end)"
| "fit_extend error_bound x0 y0 (k # ks) i s_lo s_hi seg_end =
     (let dx = dsub (du64 k) x0; dy = dsub (didx i) y0 in
      if fp_le dx (Fin 0) then fit_extend error_bound x0 y0 ks (i + 1) s_lo s_hi i
      else let new_s_lo = ddiv (dsub dy error_bound) dx;
               new_s_hi = ddiv (dadd dy error_bound) dx
           in if fp_lt s_hi new_s_lo \<or> fp_lt new_s_hi s_lo then (s_lo, s_hi, seg_end)
              else fit_extend error_bound x0 y0 ks (i + 1)
                     (fp_max s_lo new_s_lo) (fp_min s_hi new_s_hi) i)"

definition fit_slope :: "fp \<Rightarrow> fp \<Rightarrow> fp" where
  "fit_slope s_lo s_hi =
     (if fp_isinf s_lo \<and> fp_isinf s_hi then Fin 0
      else if fp_isinf s_lo then s_hi
      else if fp_isinf s_hi then s_lo
      else ddiv (dadd s_lo s_hi) (Fin 2))"

lemma fit_extend_ge: "snd (snd (fit_extend eb x0 y0 ks i s_lo s_hi e)) \<ge> e"
  if "e < i" for e
  using that by (induction ks arbitrary: i s_lo s_hi e)
    (auto simp: Let_def intro: order.trans less_imp_le)

lemma fit_extend_less: "e < i \<Longrightarrow> snd (snd (fit_extend eb x0 y0 ks i s_lo s_hi e)) < i + length ks"
proof (induction ks arbitrary: i s_lo s_hi e)
  case (Cons k ks)
  have "snd (snd (fit_extend eb x0 y0 ks (Suc i) l h i)) < Suc i + length ks" for l h
    by (rule Cons.IH) simp
  then show ?case using Cons.prems by (auto simp: Let_def)
qed simp

function fit_segments :: "fp \<Rightarrow> u64 list \<Rightarrow> nat \<Rightarrow> PLRSegment list" where
  "fit_segments error_bound keys seg_start =
     (if seg_start < length keys
      then if seg_start = length keys - 1
           then [\<lparr>key_start = keys ! seg_start, key_end = keys ! seg_start,
                  slope = Fin 0, intercept = didx seg_start\<rparr>]
           else let x0 = du64 (keys ! seg_start);
                    y0 = didx seg_start;
                    r = fit_extend error_bound x0 y0 (drop (seg_start + 1) keys) (seg_start + 1)
                          NInf PInf seg_start;
                    sl = fit_slope (fst r) (fst (snd r));
                    seg_end = snd (snd r)
                in \<lparr>key_start = keys ! seg_start, key_end = keys ! seg_end,
                    slope = sl, intercept = dsub y0 (dmul sl x0)\<rparr>
                   # fit_segments error_bound keys (seg_end + 1)
      else [])"
  by pat_completeness auto
termination
proof (relation "measure (\<lambda>(eb, keys, s). length keys - s)", goal_cases)
  case (2 eb keys s x0 y0 r sl e)
  then have "s \<le> e" using fit_extend_ge [of s "s + 1"] by simp
  with 2 show ?case by simp
qed simp

declare fit_segments.simps [simp del]

definition GreedyPLRFit :: "u64 list \<Rightarrow> fp \<Rightarrow> PLRModel" where
  "GreedyPLRFit sorted_keys error_bound = \<lparr>segments = fit_segments error_bound sorted_keys 0\<rparr>"

section \<open>Binary search\<close>

lemma Predict_search_done: "\<not> lo < hi \<Longrightarrow> Predict_search segs key lo hi = lo"
  by (subst Predict_search.simps) simp

lemma Predict_search_bounds: "lo \<le> hi \<Longrightarrow> lo \<le> Predict_search segs key lo hi \<and> Predict_search segs key lo hi \<le> hi"
proof (induction segs key lo hi rule: Predict_search.induct)
  case (1 segs key lo hi)
  show ?case
  proof (cases "lo < hi")
    case True
    let ?mid = "lo + (hi - lo) div 2"
    have mid: "lo \<le> ?mid" "?mid < hi" using True by auto
    show ?thesis
      using "1.IH"(1) [OF True refl] "1.IH"(2) [OF True refl] mid
      by (subst (1 2) Predict_search.simps) (auto simp: Let_def)
  next
    case False
    then show ?thesis using "1.prems" by (simp add: Predict_search_done del: not_less)
  qed
qed

text \<open>
  On segments ordered by their end keys the search returns the number of
  segments that end below the key.
\<close>

lemma Predict_search_spec:
  assumes "sorted_wrt (\<lambda>a b. key_end a \<le> key_end b) segs" "hi \<le> length segs" "lo \<le> hi"
    and "\<forall>j < lo. key_end (segs ! j) < key"
    and "\<forall>j. hi \<le> j \<and> j < length segs \<longrightarrow> key \<le> key_end (segs ! j)"
  shows "(\<forall>j < Predict_search segs key lo hi. key_end (segs ! j) < key) \<and>
         (\<forall>j. Predict_search segs key lo hi \<le> j \<and> j < length segs \<longrightarrow> key \<le> key_end (segs ! j))"
  using assms
proof (induction segs key lo hi rule: Predict_search.induct)
  case (1 segs key lo hi)
  have mono: "key_end (segs ! i) \<le> key_end (segs ! j)" if "i \<le> j" "j < length segs" for i j
    using that "1.prems"(1) by (cases "i = j") (auto simp: sorted_wrt_iff_nth_less)
  show ?case
  proof (cases "lo < hi")
    case False
    then show ?thesis using "1.prems" by (simp add: Predict_search_done del: not_less)
  next
    case True
    let ?mid = "lo + (hi - lo) div 2"
    have mid: "lo \<le> ?mid" "?mid < hi" "?mid < length segs" using True "1.prems"(2) by auto
    show ?thesis
    proof (cases "key_end (segs ! ?mid) < key")
      case below: True
      then have "\<forall>j < ?mid + 1. key_end (segs ! j) < key"
        using mono [OF _ mid(3)] by (auto simp: less_Suc_eq_le intro: le_less_trans)
      moreover have "Predict_search segs key lo hi = Predict_search segs key (?mid + 1) hi"
        using True below by (subst Predict_search.simps) (simp add: Let_def)
      ultimately show ?thesis
        using "1.IH"(1) [OF True refl below "1.prems"(1,2) _ _ "1.prems"(5)] mid by simp
    next
      case above: False
      then have "\<forall>j. ?mid \<le> j \<and> j < length segs \<longrightarrow> key \<le> key_end (segs ! j)"
        using mono by (auto simp: not_less intro: order.trans)
      moreover have "Predict_search segs key lo hi = Predict_search segs key lo ?mid"
        using True above by (subst Predict_search.simps) (simp add: Let_def)
      ultimately show ?thesis
        using "1.IH"(2) [OF True refl above "1.prems"(1) _ mid(1) "1.prems"(4)] mid by simp
    qed
  qed
qed

text \<open>Models whose segments are nonempty key intervals in increasing order.\<close>

definition segs_ok :: "PLRSegment list \<Rightarrow> bool" where
  "segs_ok segs \<longleftrightarrow> (\<forall>s \<in> set segs. key_start s \<le> key_end s) \<and>
     sorted_wrt (\<lambda>a b. key_end a < key_start b) segs"

lemma segs_ok_ends: "segs_ok segs \<Longrightarrow> sorted_wrt (\<lambda>a b. key_end a \<le> key_end b) segs"
  unfolding segs_ok_def sorted_wrt_iff_nth_less
  by (meson less_imp_le less_le_trans nth_mem)

lemma Predict_index:
  assumes "segs_ok segs" "r \<le> length segs"
    and "\<forall>j < r. key_end (segs ! j) < key"
    and "r < length segs \<Longrightarrow> key \<le> key_end (segs ! r)"
  shows "Predict_search segs key 0 (length segs) = r"
proof -
  let ?q = "Predict_search segs key 0 (length segs)"
  have q: "?q \<le> length segs" using Predict_search_bounds [of 0 "length segs"] by simp
  have "(\<forall>j < ?q. key_end (segs ! j) < key) \<and>
        (\<forall>j. ?q \<le> j \<and> j < length segs \<longrightarrow> key \<le> key_end (segs ! j))"
    by (rule Predict_search_spec [OF segs_ok_ends [OF assms(1)]]) auto
  then have s: "\<forall>j < ?q. key_end (segs ! j) < key"
      "\<forall>j. ?q \<le> j \<and> j < length segs \<longrightarrow> key \<le> key_end (segs ! j)"
    by blast+
  show ?thesis
  proof (rule antisym)
    show "?q \<le> r" using s(1) assms(4) q by (metis leD leI le_trans order_less_le_trans)
    show "r \<le> ?q" using s(2) assms(2,3) by (metis leD leI order_refl less_le_trans)
  qed
qed

lemma segs_ok_less:
  assumes "segs_ok segs" "i < j" "j < length segs"
  shows "key_end (segs ! i) < key_start (segs ! j)"
  using assms by (auto simp: segs_ok_def sorted_wrt_iff_nth_less)

lemma segs_ok_range: "segs_ok segs \<Longrightarrow> i < length segs \<Longrightarrow> key_start (segs ! i) \<le> key_end (segs ! i)"
  by (simp add: segs_ok_def)

lemma segs_ok_end_less:
  assumes "segs_ok segs" "i < j" "j < length segs"
  shows "key_end (segs ! i) < key_end (segs ! j)"
  using segs_ok_less [OF assms] segs_ok_range [OF assms(1,3)] by simp

text \<open>The four cases of \<open>Predict\<close>: inside a segment, in a gap, below and above the model.\<close>

lemma Predict_inside:
  assumes "segs_ok (segments m)" "i < length (segments m)"
    and "key_start (segments m ! i) \<le> key" "key \<le> key_end (segments m ! i)"
  shows "Predict m key = seg_eval (segments m ! i) key"
proof -
  have "Predict_search (segments m) key 0 (length (segments m)) = i"
    using assms segs_ok_less [OF assms(1) _ assms(2)]
    by (intro Predict_index) (auto intro: less_le_trans)
  then show ?thesis using assms by (auto simp: Predict_def Let_def)
qed

lemma Predict_gap:
  assumes "segs_ok (segments m)" "Suc i < length (segments m)"
    and "key_end (segments m ! i) < key" "key < key_start (segments m ! Suc i)"
  shows "Predict m key = seg_eval (segments m ! i) (key_end (segments m ! i))"
proof -
  have "Predict_search (segments m) key 0 (length (segments m)) = Suc i"
  proof (rule Predict_index)
    show "\<forall>j < Suc i. key_end (segments m ! j) < key"
      using segs_ok_end_less [OF assms(1), of _ i] assms(2,3) by (auto simp: less_Suc_eq intro: less_trans)
    show "key \<le> key_end (segments m ! Suc i)"
      using assms(4) segs_ok_range [OF assms(1,2)] by simp
  qed (use assms in auto)
  then show ?thesis using assms by (auto simp: Predict_def Let_def)
qed

lemma Predict_below:
  assumes "segs_ok (segments m)" "key < KeyMin m"
  shows "Predict m key = Fin 0"
proof -
  have ne: "segments m \<noteq> []" using assms(2) by (auto simp: KeyMin_def split: if_splits)
  then have k: "key < key_start (segments m ! 0)" using assms(2) by (simp add: KeyMin_def hd_conv_nth)
  have "Predict_search (segments m) key 0 (length (segments m)) = 0"
    using k segs_ok_range [OF assms(1), of 0] by (intro Predict_index [OF assms(1)]) auto
  then show ?thesis using ne k by (simp add: Predict_def)
qed

lemma Predict_above:
  assumes "segs_ok (segments m)" "segments m \<noteq> []" "KeyMax m < key"
  shows "Predict m key = seg_eval (last (segments m)) (key_end (last (segments m)))"
proof -
  let ?n = "length (segments m)"
  have k: "key_end (segments m ! (?n - 1)) < key" using assms by (simp add: KeyMax_def last_conv_nth)
  have "Predict_search (segments m) key 0 ?n = ?n"
  proof (rule Predict_index [OF assms(1)])
    show "\<forall>j < ?n. key_end (segments m ! j) < key"
    proof (intro allI impI)
      fix j assume "j < ?n"
      then consider "j = ?n - 1" | "j < ?n - 1" by linarith
      then show "key_end (segments m ! j) < key"
        using segs_ok_end_less [OF assms(1), of j "?n - 1"] k assms(2)
        by cases (auto intro: less_trans)
    qed
  qed simp_all
  then show ?thesis using assms(2) by (simp add: Predict_def Let_def)
qed

section \<open>The fit covers the keys\<close>

text \<open>The segments cut the key sequence, from index \<open>s\<close> on, into consecutive blocks.\<close>

fun covers :: "u64 list \<Rightarrow> nat \<Rightarrow> PLRSegment list \<Rightarrow> bool" where
  "covers keys s [] \<longleftrightarrow> length keys \<le> s"
| "covers keys s (g # gs) \<longleftrightarrow>
     (\<exists>e. s \<le> e \<and> e < length keys \<and> key_start g = keys ! s \<and> key_end g = keys ! e \<and> covers keys (Suc e) gs)"

lemma fit_segments_covers: "covers keys s (fit_segments eb keys s)"
proof (induction eb keys s rule: fit_segments.induct)
  case (1 eb keys s)
  let ?r = "fit_extend eb (du64 (keys ! s)) (didx s) (drop (s + 1) keys) (s + 1) NInf PInf s"
  let ?e = "snd (snd ?r)"
  consider "length keys \<le> s" | "s < length keys" "s = length keys - 1"
    | "s < length keys" "s \<noteq> length keys - 1" by linarith
  then show ?case
  proof cases
    case 1
    then show ?thesis by (subst fit_segments.simps) simp
  next
    case 2
    have "fit_segments eb keys s =
        [\<lparr>key_start = keys ! s, key_end = keys ! s, slope = Fin 0, intercept = didx s\<rparr>]"
      using 2 by (subst fit_segments.simps) simp
    moreover have "length keys \<le> Suc s" using 2 by linarith
    ultimately show ?thesis using 2(1) by (simp del: One_nat_def) blast
  next
    case 3
    have "s \<le> ?e" by (rule fit_extend_ge) simp
    moreover have "?e < s + 1 + length (drop (s + 1) keys)" by (rule fit_extend_less) simp
    ultimately have e: "s \<le> ?e" "?e < length keys" using 3 by simp_all
    have "covers keys (?e + 1) (fit_segments eb keys (?e + 1))"
      by (rule "1.IH" [OF 3 refl refl refl refl refl])
    moreover have "fit_segments eb keys s =
        \<lparr>key_start = keys ! s, key_end = keys ! ?e, slope = fit_slope (fst ?r) (fst (snd ?r)),
         intercept = dsub (didx s) (dmul (fit_slope (fst ?r) (fst (snd ?r))) (du64 (keys ! s)))\<rparr>
        # fit_segments eb keys (?e + 1)"
      using 3 by (subst fit_segments.simps) (simp add: Let_def)
    ultimately show ?thesis using e by auto
  qed
qed

lemma covers_length: "covers keys s gs \<Longrightarrow> length gs \<le> length keys - s"
proof (induction gs arbitrary: s)
  case (Cons g gs)
  then obtain e where "s \<le> e" "e < length keys" "covers keys (Suc e) gs" by auto
  with Cons.IH [of "Suc e"] show ?case by simp
qed simp

lemma covers_mem:
  assumes "covers keys s gs" "sorted keys" "s \<le> i" "i < length keys"
  shows "\<exists>g \<in> set gs. key_start g \<le> keys ! i \<and> keys ! i \<le> key_end g"
  using assms
proof (induction gs arbitrary: s)
  case (Cons g gs)
  then obtain e where e: "s \<le> e" "e < length keys" "key_start g = keys ! s" "key_end g = keys ! e"
    "covers keys (Suc e) gs" by auto
  show ?case
  proof (cases "i \<le> e")
    case True
    then show ?thesis using Cons.prems e by (auto simp: sorted_iff_nth_mono)
  next
    case False
    then show ?thesis using Cons.IH [OF e(5)] Cons.prems by auto
  qed
qed simp

lemma covers_starts:
  assumes "covers keys s gs" "sorted_wrt (<) keys" "g \<in> set gs"
  shows "s < length keys \<and> keys ! s \<le> key_start g"
  using assms
proof (induction gs arbitrary: s)
  case (Cons a gs)
  then obtain e where e: "s \<le> e" "e < length keys" "key_start a = keys ! s"
    "covers keys (Suc e) gs" by auto
  show ?case
  proof (cases "g = a")
    case True
    then show ?thesis using e by simp
  next
    case False
    then have "Suc e < length keys" "keys ! Suc e \<le> key_start g"
      using Cons.IH [OF e(4)] Cons.prems by auto
    moreover have "keys ! s < keys ! Suc e"
      using Cons.prems(2) e \<open>Suc e < length keys\<close> by (simp add: sorted_wrt_iff_nth_less)
    ultimately show ?thesis using e by simp
  qed
qed simp

lemma covers_segs_ok:
  assumes "covers keys s gs" "sorted_wrt (<) keys"
  shows "segs_ok gs"
  using assms
proof (induction gs arbitrary: s)
  case (Cons g gs)
  then obtain e where e: "s \<le> e" "e < length keys" "key_start g = keys ! s" "key_end g = keys ! e"
    "covers keys (Suc e) gs" by auto
  have "key_start g \<le> key_end g"
    using e Cons.prems(2) by (cases "s = e") (auto simp: sorted_wrt_iff_nth_less intro: less_imp_le)
  moreover have "key_end g < key_start h" if "h \<in> set gs" for h
  proof -
    have "Suc e < length keys" "keys ! Suc e \<le> key_start h"
      using covers_starts [OF e(5) Cons.prems(2) that] by auto
    moreover have "keys ! e < keys ! Suc e"
      using Cons.prems(2) \<open>Suc e < length keys\<close> by (simp add: sorted_wrt_iff_nth_less)
    ultimately show ?thesis using e by simp
  qed
  ultimately show ?case using Cons.IH [OF e(5) Cons.prems(2)] by (auto simp: segs_ok_def)
qed (simp add: segs_ok_def)

lemma covers_ends:
  assumes "covers keys s gs" "s < length keys"
  shows "gs \<noteq> [] \<and> key_start (hd gs) = keys ! s \<and> key_end (last gs) = last keys"
  using assms
proof (induction gs arbitrary: s)
  case (Cons g gs)
  then obtain e where e: "s \<le> e" "e < length keys" "key_start g = keys ! s" "key_end g = keys ! e"
    "covers keys (Suc e) gs" by auto
  show ?case
  proof (cases "gs = []")
    case True
    then have "e = length keys - 1" using e by simp
    moreover have "keys \<noteq> []" using e by auto
    ultimately show ?thesis using True e by (simp add: last_conv_nth)
  next
    case False
    then have "Suc e < length keys" using e(5) by (cases gs) auto
    then show ?thesis using Cons.IH [OF e(5)] e False by simp
  qed
qed simp

section \<open>Fitted slopes are finite and non-negative\<close>

abbreviation rnd64 :: "rat \<Rightarrow> rat" where "rnd64 \<equiv> rnd binary64"

text \<open>Arithmetic on values of bounded size stays finite: it is exact arithmetic, then rounding.\<close>

lemma dsub_Fin: "\<bar>x - y\<bar> \<le> 2 ^ 200 \<Longrightarrow> dsub (Fin x) (Fin y) = Fin (rnd64 (x - y))"
  using fp64_Fin [of "x - y"] by (simp add: fp_sub_def)

lemma dadd_Fin: "\<bar>x + y\<bar> \<le> 2 ^ 200 \<Longrightarrow> dadd (Fin x) (Fin y) = Fin (rnd64 (x + y))"
  using fp64_Fin [of "x + y"] by simp

lemma dmul_Fin: "\<bar>x * y\<bar> \<le> 2 ^ 200 \<Longrightarrow> dmul (Fin x) (Fin y) = Fin (rnd64 (x * y))"
  using fp64_Fin [of "x * y"] by simp

lemma ddiv_Fin: "y \<noteq> 0 \<Longrightarrow> \<bar>x / y\<bar> \<le> 2 ^ 200 \<Longrightarrow> ddiv (Fin x) (Fin y) = Fin (rnd64 (x / y))"
  using fp64_Fin [of "x / y"] by simp

declare fp_add.simps [simp del] fp_mul.simps [simp del] fp_div.simps [simp del]

lemma repr64_power: "repr binary64 (2 ^ n)"
  using repr_pow2 [of binary64 "int n"] by simp

lemma rnd64_le_power: "\<bar>x\<bar> \<le> 2 ^ n \<Longrightarrow> \<bar>rnd64 x\<bar> \<le> 2 ^ n"
  using rnd_abs_le [OF _ repr64_power] by simp

lemma rnd64_uminus: "rnd64 (- x) = - rnd64 x"
  by (rule rnd_uminus)

lemma rnd64_mono: "x \<le> y \<Longrightarrow> rnd64 x \<le> rnd64 y"
  by (rule r64.mono)

lemma didx_Fin: "int i \<le> 2 ^ 64 \<Longrightarrow> didx i = Fin (rnd64 (of_int (int i)))"
proof -
  assume "int i \<le> 2 ^ 64"
  then have "(of_int (int i) :: rat) \<le> of_int (2 ^ 64)" by (simp only: of_int_le_iff)
  then have "\<bar>of_int (int i) :: rat\<bar> \<le> 2 ^ 200" by simp
  then show ?thesis unfolding didx_def by (rule fp64_Fin)
qed

lemma didx_bounds:
  assumes "int i \<le> 2 ^ 64"
  shows "0 \<le> rnd64 (of_int (int i)) \<and> rnd64 (of_int (int i)) \<le> 2 ^ 64"
proof -
  have "(of_int (int i) :: rat) \<le> of_int (2 ^ 64)" using assms by (simp only: of_int_le_iff)
  then have "\<bar>of_int (int i) :: rat\<bar> \<le> 2 ^ 64" by simp
  then show ?thesis using rnd64_le_power [of "of_int (int i)" 64] rnd_nonneg [where F = binary64 and x = "of_int (int i)"]
    by simp
qed

lemma repr_double: "repr F x \<Longrightarrow> repr F (2 * x)"
proof -
  assume "repr F x"
  then obtain m q where m: "x = of_int m * pow2 q" "\<bar>m\<bar> < 2 ^ prec F" "emin F - int (prec F) + 1 \<le> q"
    unfolding repr_def by blast
  have "2 * x = of_int m * pow2 (q + 1)" using m(1) by (simp add: pow2_add)
  moreover have "emin F - int (prec F) + 1 \<le> q + 1" using m(3) by simp
  ultimately show ?thesis unfolding repr_def using m(2) by blast
qed

text \<open>The cone of admissible slopes: open, or two finite bounds around a non-negative middle.\<close>

definition cone :: "fp \<Rightarrow> fp \<Rightarrow> bool" where
  "cone l h \<longleftrightarrow> (l = NInf \<and> h = PInf) \<or>
     (\<exists>a b. l = Fin a \<and> h = Fin b \<and> a \<le> b \<and> 0 \<le> a + b \<and> \<bar>a\<bar> \<le> 2 ^ 65 \<and> \<bar>b\<bar> \<le> 2 ^ 65 \<and>
       repr binary64 a \<and> repr binary64 b)"

lemma cone_meet:
  assumes "cone l h" "cone (Fin a) (Fin b)" "\<not> fp_lt h (Fin a)" "\<not> fp_lt (Fin b) l"
  shows "cone (fp_max l (Fin a)) (fp_min h (Fin b))"
  using assms unfolding cone_def fp_max_def fp_min_def by (auto simp: not_less)

lemma cone_meet_le:
  assumes "cone l h" "cone (Fin a) (Fin b)"
  shows "fp_le l (fp_max l (Fin a))" "fp_le (Fin a) (fp_max l (Fin a))"
    "fp_le (fp_min h (Fin b)) h" "fp_le (fp_min h (Fin b)) (Fin b)"
  using assms unfolding cone_def fp_max_def fp_min_def by auto

text \<open>The bounds one key puts on the slope of a segment.\<close>

lemma new_bounds_cone:
  assumes "0 \<le> DY" "DY \<le> 2 ^ 64" "1 \<le> D" "0 \<le> e" "e \<le> 2 ^ 53"
  obtains a b where "ddiv (dsub (Fin DY) (Fin e)) (Fin D) = Fin a"
    "ddiv (dadd (Fin DY) (Fin e)) (Fin D) = Fin b" "cone (Fin a) (Fin b)"
proof -
  let ?n = "rnd64 (DY - e)" and ?p = "rnd64 (DY + e)"
  have big: "(2::rat) ^ 64 + 2 ^ 53 \<le> 2 ^ 65" "(2::rat) ^ 65 \<le> 2 ^ 200" by simp_all
  have r: "\<bar>DY - e\<bar> \<le> 2 ^ 65" "\<bar>DY + e\<bar> \<le> 2 ^ 65" using assms big by auto
  have n: "\<bar>?n\<bar> \<le> 2 ^ 65" "\<bar>?p\<bar> \<le> 2 ^ 65" by (rule rnd64_le_power, rule r)+
  have div: "\<bar>x / D\<bar> \<le> 2 ^ 65" if "\<bar>x\<bar> \<le> 2 ^ 65" for x
  proof -
    have "\<bar>x / D\<bar> = \<bar>x\<bar> / D" using assms(3) by simp
    also have "\<dots> \<le> \<bar>x\<bar>" using assms(3) by (simp add: divide_le_eq mult_le_cancel_left1)
    finally show ?thesis using that by simp
  qed
  have "- ?n \<le> ?p" unfolding rnd64_uminus [symmetric] using assms by (intro rnd64_mono) simp
  then have "- (?n / D) \<le> ?p / D" using divide_right_mono [of "- ?n" ?p D] assms(3) by simp
  then have "- rnd64 (?n / D) \<le> rnd64 (?p / D)" unfolding rnd64_uminus [symmetric] by (rule rnd64_mono)
  moreover have "\<bar>rnd64 (?n / D)\<bar> \<le> 2 ^ 65" "\<bar>rnd64 (?p / D)\<bar> \<le> 2 ^ 65"
    by (rule rnd64_le_power, rule div, rule n)+
  moreover have "?n \<le> ?p" using assms by (intro rnd64_mono) simp
  then have "rnd64 (?n / D) \<le> rnd64 (?p / D)"
    using divide_right_mono [of ?n ?p D] assms(3) by (intro rnd64_mono) simp
  ultimately have "cone (Fin (rnd64 (?n / D))) (Fin (rnd64 (?p / D)))"
    by (simp add: cone_def r64.closed)
  moreover have "ddiv (dsub (Fin DY) (Fin e)) (Fin D) = Fin (rnd64 (?n / D))"
    "ddiv (dadd (Fin DY) (Fin e)) (Fin D) = Fin (rnd64 (?p / D))"
    using r n div [OF n(1)] div [OF n(2)] big assms(3) by (simp_all add: dsub_Fin dadd_Fin ddiv_Fin)
  ultimately show thesis using that by blast
qed

text \<open>A key that the loop does not skip is at a distance of at least one from the first key.\<close>

lemma key_distance:
  assumes "\<not> fp_le (dsub (du64 k) (du64 k0)) (Fin 0)"
  obtains D where "dsub (du64 k) (du64 k0) = Fin D" "1 \<le> D"
proof -
  obtain x x0 where x: "rnd64 (of_int (uint k)) = of_int x" "rnd64 (of_int (uint k0)) = of_int x0"
    using rnd64_int by metis
  have b: "0 \<le> (of_int x :: rat)" "(of_int x :: rat) \<le> 2 ^ 64"
    "0 \<le> (of_int x0 :: rat)" "(of_int x0 :: rat) \<le> 2 ^ 64"
    using rnd_u64_bounds [of k] rnd_u64_bounds [of k0] x by auto
  have "dsub (du64 k) (du64 k0) = Fin (rnd64 (of_int x - of_int x0))"
    using b x by (simp add: fp_u64_64 dsub_Fin)
  moreover from this have "0 < rnd64 (of_int x - of_int x0)" using assms by simp
  then have "\<not> of_int x - of_int x0 \<le> (0 :: rat)"
    using rnd64_mono [of "of_int x - of_int x0" 0] by (auto simp: rnd_def)
  then have "(1 :: rat) \<le> of_int x - of_int x0" by (simp flip: of_int_diff)
  then have "1 \<le> rnd64 (of_int x - of_int x0)"
    using repr64_power [of 0] by (intro r64.ge_rep) auto
  ultimately show thesis using that by blast
qed

lemma rank_distance:
  assumes "s \<le> i" "int i \<le> 2 ^ 64"
  obtains DY where "dsub (didx i) (didx s) = Fin DY" "0 \<le> DY" "DY \<le> 2 ^ 64"
proof -
  have si: "int s \<le> 2 ^ 64" using assms by simp
  let ?y = "rnd64 (of_int (int i))" and ?z = "rnd64 (of_int (int s))"
  have "?z \<le> ?y" using assms(1) by (intro rnd64_mono) simp
  then have d: "0 \<le> ?y - ?z" "\<bar>?y - ?z\<bar> \<le> 2 ^ 64"
    using didx_bounds [OF assms(2)] didx_bounds [OF si] by auto
  have "\<bar>?y - ?z\<bar> \<le> 2 ^ 200" using d(2) by simp
  then have "dsub (didx i) (didx s) = Fin (rnd64 (?y - ?z))"
    unfolding didx_Fin [OF assms(2)] didx_Fin [OF si] by (rule dsub_Fin)
  moreover have "0 \<le> rnd64 (?y - ?z)" using d(1) by (rule rnd_nonneg)
  moreover have "\<bar>rnd64 (?y - ?z)\<bar> \<le> 2 ^ 64" using d(2) by (rule rnd64_le_power)
  ultimately show thesis using that by simp
qed

text \<open>The slope interval that key \<open>j\<close> allows on a segment that starts at \<open>s\<close>.\<close>

definition rank_lo :: "fp \<Rightarrow> u64 \<Rightarrow> nat \<Rightarrow> u64 \<Rightarrow> nat \<Rightarrow> fp" where
  "rank_lo eb k0 s k j = ddiv (dsub (dsub (didx j) (didx s)) eb) (dsub (du64 k) (du64 k0))"

definition rank_hi :: "fp \<Rightarrow> u64 \<Rightarrow> nat \<Rightarrow> u64 \<Rightarrow> nat \<Rightarrow> fp" where
  "rank_hi eb k0 s k j = ddiv (dadd (dsub (didx j) (didx s)) eb) (dsub (du64 k) (du64 k0))"

abbreviation skipped :: "u64 \<Rightarrow> u64 \<Rightarrow> bool" where
  "skipped k0 k \<equiv> fp_le (dsub (du64 k) (du64 k0)) (Fin 0)"

lemma rank_bounds_cone:
  assumes "0 \<le> e" "e \<le> 2 ^ 53" "s \<le> i" "int i \<le> 2 ^ 64" "\<not> skipped k0 k"
  obtains a b where "rank_lo (Fin e) k0 s k i = Fin a" "rank_hi (Fin e) k0 s k i = Fin b" "cone (Fin a) (Fin b)"
proof -
  obtain D where D: "dsub (du64 k) (du64 k0) = Fin D" "1 \<le> D" by (rule key_distance [OF assms(5)])
  obtain DY where DY: "dsub (didx i) (didx s) = Fin DY" "0 \<le> DY" "DY \<le> 2 ^ 64"
    by (rule rank_distance [OF assms(3,4)])
  show thesis
    by (rule new_bounds_cone [OF DY(2,3) D(2) assms(1,2)])
      (auto intro: that simp: rank_lo_def rank_hi_def D DY)
qed

lemma fit_extend_step:
  "fit_extend eb (du64 k0) (didx s) (k # ks) i l h m =
     (if skipped k0 k then fit_extend eb (du64 k0) (didx s) ks (Suc i) l h i
      else if fp_lt h (rank_lo eb k0 s k i) \<or> fp_lt (rank_hi eb k0 s k i) l then (l, h, m)
      else fit_extend eb (du64 k0) (didx s) ks (Suc i)
             (fp_max l (rank_lo eb k0 s k i)) (fp_min h (rank_hi eb k0 s k i)) i)"
  by (simp add: Let_def rank_lo_def rank_hi_def)

lemma fp_le_trans: "fp_le a b \<Longrightarrow> fp_le b c \<Longrightarrow> fp_le a c"
  by (cases a; cases b; cases c) auto

lemma cone_refl: "cone l h \<Longrightarrow> fp_le l l \<and> fp_le h h"
  by (auto simp: cone_def)

text \<open>
  The loop narrows the cone, keeps it sound, and its result lies in the interval of
  every key it took in.
\<close>

lemma fit_extend_cone:
  assumes "0 \<le> e" "e \<le> 2 ^ 53" "s \<le> i" "int (i + length ks) \<le> 2 ^ 64" "cone l h" "m < i"
    and "fit_extend (Fin e) (du64 k0) (didx s) ks i l h m = (l', h', m')"
  shows "cone l' h' \<and> fp_le l l' \<and> fp_le h' h \<and>
    (\<forall>j. i \<le> j \<and> j \<le> m' \<and> \<not> skipped k0 (ks ! (j - i)) \<longrightarrow>
       fp_le (rank_lo (Fin e) k0 s (ks ! (j - i)) j) l' \<and> fp_le h' (rank_hi (Fin e) k0 s (ks ! (j - i)) j))"
  using assms
proof (induction ks arbitrary: i l h m)
  case Nil
  then show ?case using cone_refl by auto
next
  case (Cons k ks)
  have i: "int i \<le> 2 ^ 64" and i': "s \<le> Suc i" "int (Suc i + length ks) \<le> 2 ^ 64"
    using Cons.prems by auto
  have shift: "(k # ks) ! (j - i) = ks ! (j - Suc i)" if "Suc i \<le> j" for j
  proof -
    have "j - i = Suc (j - Suc i)" using that by simp
    then show ?thesis by (simp only: nth_Cons_Suc)
  qed
  note IH = Cons.IH [OF Cons.prems(1,2) i']
  show ?case
  proof (cases "skipped k0 k")
    case True
    then have "fit_extend (Fin e) (du64 k0) (didx s) ks (Suc i) l h i = (l', h', m')"
      using Cons.prems(7) by (simp only: fit_extend_step if_True)
    from IH [OF Cons.prems(5) _ this] have IH': "cone l' h'" "fp_le l l'" "fp_le h' h"
      "\<And>j. Suc i \<le> j \<Longrightarrow> j \<le> m' \<Longrightarrow> \<not> skipped k0 (ks ! (j - Suc i)) \<Longrightarrow>
         fp_le (rank_lo (Fin e) k0 s (ks ! (j - Suc i)) j) l' \<and>
         fp_le h' (rank_hi (Fin e) k0 s (ks ! (j - Suc i)) j)"
      by auto
    have "fp_le (rank_lo (Fin e) k0 s ((k # ks) ! (j - i)) j) l' \<and>
          fp_le h' (rank_hi (Fin e) k0 s ((k # ks) ! (j - i)) j)"
      if "i \<le> j" "j \<le> m'" "\<not> skipped k0 ((k # ks) ! (j - i))" for j
    proof (cases "j = i")
      case False
      then show ?thesis using that IH'(4) [of j] shift [of j] by simp
    qed (use that True in simp)
    then show ?thesis using IH'(1-3) by blast
  next
    case False
    let ?a = "rank_lo (Fin e) k0 s k i" and ?b = "rank_hi (Fin e) k0 s k i"
    obtain a b where ab: "?a = Fin a" "?b = Fin b" "cone (Fin a) (Fin b)"
      by (rule rank_bounds_cone [OF Cons.prems(1,2,3) i False])
    show ?thesis
    proof (cases "fp_lt h ?a \<or> fp_lt ?b l")
      case True
      then have "l' = l" "h' = h" "m' = m"
        using Cons.prems(7) False unfolding fit_extend_step by simp_all
      then show ?thesis using Cons.prems(5,6) cone_refl by auto
    next
      case ok: False
      then have c: "cone (fp_max l ?a) (fp_min h ?b)" using Cons.prems(5) ab by (simp add: cone_meet)
      have "fit_extend (Fin e) (du64 k0) (didx s) ks (Suc i) (fp_max l ?a) (fp_min h ?b) i = (l', h', m')"
        using Cons.prems(7) ok False unfolding fit_extend_step by simp
      from IH [OF c _ this] have IH': "cone l' h'" "fp_le (fp_max l ?a) l'" "fp_le h' (fp_min h ?b)"
        "\<And>j. Suc i \<le> j \<Longrightarrow> j \<le> m' \<Longrightarrow> \<not> skipped k0 (ks ! (j - Suc i)) \<Longrightarrow>
           fp_le (rank_lo (Fin e) k0 s (ks ! (j - Suc i)) j) l' \<and>
           fp_le h' (rank_hi (Fin e) k0 s (ks ! (j - Suc i)) j)"
        by auto
      have le: "fp_le l l'" "fp_le ?a l'" "fp_le h' h" "fp_le h' ?b"
        using cone_meet_le [OF Cons.prems(5) ab(3)] IH'(2,3) unfolding ab by (blast intro: fp_le_trans)+
      have "fp_le (rank_lo (Fin e) k0 s ((k # ks) ! (j - i)) j) l' \<and>
            fp_le h' (rank_hi (Fin e) k0 s ((k # ks) ! (j - i)) j)"
        if "i \<le> j" "j \<le> m'" "\<not> skipped k0 ((k # ks) ! (j - i))" for j
      proof (cases "j = i")
        case False
        then show ?thesis using that IH'(4) [of j] shift [of j] by simp
      qed (use le in simp)
      then show ?thesis using IH'(1) le by blast
    qed
  qed
qed

text \<open>A segment with a finite non-negative slope and a finite intercept.\<close>

definition seg_finite :: "PLRSegment \<Rightarrow> bool" where
  "seg_finite g \<longleftrightarrow> (\<exists>s b. slope g = Fin s \<and> intercept g = Fin b \<and> 0 \<le> s)"

text \<open>The midpoint of a cone is in the cone, rounding included.\<close>

lemma rnd64_half_between:
  assumes "a \<le> b" "repr binary64 a" "repr binary64 b" "\<bar>a\<bar> \<le> 2 ^ 65" "\<bar>b\<bar> \<le> 2 ^ 65"
  shows "a \<le> rnd64 (rnd64 (a + b) / 2) \<and> rnd64 (rnd64 (a + b) / 2) \<le> b"
proof -
  have r: "rnd64 (2 * x) = 2 * x" if "repr binary64 x" for x
    using that by (intro r64.exact) (rule repr_double)
  have "2 * a \<le> rnd64 (a + b)" using rnd64_mono [of "2 * a" "a + b"] r [OF assms(2)] assms(1) by simp
  moreover have "rnd64 (a + b) \<le> 2 * b" using rnd64_mono [of "a + b" "2 * b"] r [OF assms(3)] assms(1) by simp
  ultimately show ?thesis
    by (auto intro!: r64.le_rep r64.ge_rep assms)
qed

lemma fit_slope_cone:
  assumes "cone l h"
  obtains s where "fit_slope l h = Fin s" "0 \<le> s" "s \<le> 2 ^ 66" "fp_le l (Fin s)" "fp_le (Fin s) h"
proof (cases "l = NInf")
  case True
  then show thesis using assms that [of 0] by (auto simp: cone_def fit_slope_def fp_isinf_def)
next
  case False
  then obtain a b where ab: "l = Fin a" "h = Fin b" "0 \<le> a + b" "\<bar>a\<bar> \<le> 2 ^ 65" "\<bar>b\<bar> \<le> 2 ^ 65"
      "a \<le> b" "repr binary64 a" "repr binary64 b"
    using assms by (auto simp: cone_def)
  then have "\<bar>a + b\<bar> \<le> 2 ^ 66" by auto
  then have r: "\<bar>rnd64 (a + b)\<bar> \<le> 2 ^ 66" by (rule rnd64_le_power)
  have nn: "0 \<le> rnd64 (a + b)" using ab(3) by (rule rnd_nonneg)
  have h: "\<bar>rnd64 (a + b) / 2\<bar> \<le> 2 ^ 66" using r by simp
  have "fit_slope l h = Fin (rnd64 (rnd64 (a + b) / 2))"
    using ab(1,2) \<open>\<bar>a + b\<bar> \<le> 2 ^ 66\<close> h
    by (simp add: fit_slope_def fp_isinf_def dadd_Fin ddiv_Fin)
  moreover have "0 \<le> rnd64 (rnd64 (a + b) / 2)" using nn by (intro rnd_nonneg) simp
  moreover have "\<bar>rnd64 (rnd64 (a + b) / 2)\<bar> \<le> 2 ^ 66" using h by (rule rnd64_le_power)
  moreover have "a \<le> rnd64 (rnd64 (a + b) / 2)" "rnd64 (rnd64 (a + b) / 2) \<le> b"
    using rnd64_half_between ab by simp_all
  ultimately show thesis using that ab(1,2) by simp
qed

lemma intercept_finite:
  assumes "0 \<le> s" "s \<le> 2 ^ 66" "int i \<le> 2 ^ 64"
  shows "\<exists>b. dsub (didx i) (dmul (Fin s) (du64 k)) = Fin b"
proof -
  let ?x = "rnd64 (of_int (uint k))"
  have "s * ?x \<le> 2 ^ 66 * 2 ^ 64"
    using assms(1,2) rnd_u64_bounds [of k] by (intro mult_mono) auto
  then have m: "\<bar>s * ?x\<bar> \<le> 2 ^ 130" using assms(1) rnd_u64_bounds [of k] by simp
  then have "\<bar>rnd64 (s * ?x)\<bar> \<le> 2 ^ 130" by (rule rnd64_le_power)
  then have "\<bar>rnd64 (of_int (int i)) - rnd64 (s * ?x)\<bar> \<le> 2 ^ 200"
    using didx_bounds [OF assms(3)] by (auto simp: abs_le_iff)
  then have "dsub (didx i) (Fin (rnd64 (s * ?x))) = Fin (rnd64 (rnd64 (of_int (int i)) - rnd64 (s * ?x)))"
    unfolding didx_Fin [OF assms(3)] by (rule dsub_Fin)
  then show ?thesis using m by (simp add: fp_u64_64 dmul_Fin)
qed

section \<open>Blocks of a fit\<close>

text \<open>
  The slope of a block lies, for every key of the block at a positive distance from
  the first, in the interval of slopes that predict the rank of the key within the bound.
\<close>

definition slope_fits :: "fp \<Rightarrow> u64 list \<Rightarrow> nat \<Rightarrow> nat \<Rightarrow> fp \<Rightarrow> bool" where
  "slope_fits eb keys s e sl \<longleftrightarrow>
     (\<forall>j \<in> {s <.. e}. skipped (keys ! s) (keys ! j) \<or>
        fp_le (rank_lo eb (keys ! s) s (keys ! j) j) sl \<and> fp_le sl (rank_hi eb (keys ! s) s (keys ! j) j))"

fun fit_blocks :: "fp \<Rightarrow> u64 list \<Rightarrow> nat \<Rightarrow> PLRSegment list \<Rightarrow> bool" where
  "fit_blocks eb keys s [] \<longleftrightarrow> length keys \<le> s"
| "fit_blocks eb keys s (g # gs) \<longleftrightarrow>
     (\<exists>e. s \<le> e \<and> e < length keys \<and> key_start g = keys ! s \<and> key_end g = keys ! e \<and>
        seg_finite g \<and> slope_fits eb keys s e (slope g) \<and> fit_blocks eb keys (Suc e) gs)"

lemma fit_segment_block:
  assumes "0 \<le> e" "e \<le> 2 ^ 53" "int (length keys) \<le> 2 ^ 64" "s < length keys"
    and "fit_extend (Fin e) (du64 (keys ! s)) (didx s) (drop (s + 1) keys) (s + 1) NInf PInf s = (l, h, m)"
  shows "(\<exists>sl b. fit_slope l h = Fin sl \<and> 0 \<le> sl \<and>
            dsub (didx s) (dmul (Fin sl) (du64 (keys ! s))) = Fin b) \<and>
         slope_fits (Fin e) keys s m (fit_slope l h)"
proof -
  have "m < s + 1 + length (drop (s + 1) keys)"
    using fit_extend_less [of s "s + 1" "Fin e" "du64 (keys ! s)" "didx s" "drop (s + 1) keys" NInf PInf]
    unfolding assms(5) by simp
  then have m: "m < length keys" using assms(4) by simp
  have "cone l h \<and> fp_le NInf l \<and> fp_le h PInf \<and>
    (\<forall>j. s + 1 \<le> j \<and> j \<le> m \<and> \<not> skipped (keys ! s) (drop (s + 1) keys ! (j - (s + 1))) \<longrightarrow>
       fp_le (rank_lo (Fin e) (keys ! s) s (drop (s + 1) keys ! (j - (s + 1))) j) l \<and>
       fp_le h (rank_hi (Fin e) (keys ! s) s (drop (s + 1) keys ! (j - (s + 1))) j))"
    by (rule fit_extend_cone [OF assms(1,2) _ _ _ _ assms(5)]) (use assms(3,4) in \<open>auto simp: cone_def\<close>)
  then have c: "cone l h" and j: "\<And>j. s < j \<Longrightarrow> j \<le> m \<Longrightarrow> \<not> skipped (keys ! s) (keys ! j) \<Longrightarrow>
      fp_le (rank_lo (Fin e) (keys ! s) s (keys ! j) j) l \<and> fp_le h (rank_hi (Fin e) (keys ! s) s (keys ! j) j)"
    using m by auto
  obtain sl where sl: "fit_slope l h = Fin sl" "0 \<le> sl" "sl \<le> 2 ^ 66" "fp_le l (Fin sl)" "fp_le (Fin sl) h"
    by (rule fit_slope_cone [OF c])
  have "slope_fits (Fin e) keys s m (Fin sl)"
    unfolding slope_fits_def
  proof
    fix i assume "i \<in> {s <.. m}"
    then show "skipped (keys ! s) (keys ! i) \<or> fp_le (rank_lo (Fin e) (keys ! s) s (keys ! i) i) (Fin sl) \<and>
        fp_le (Fin sl) (rank_hi (Fin e) (keys ! s) s (keys ! i) i)"
      using j [of i] fp_le_trans [OF _ sl(4)] fp_le_trans [OF sl(5)] by auto
  qed
  moreover have "\<exists>b. dsub (didx s) (dmul (Fin sl) (du64 (keys ! s))) = Fin b"
    using sl assms(3,4) by (intro intercept_finite) auto
  ultimately show ?thesis using sl by auto
qed

lemma fit_segments_blocks:
  assumes "0 \<le> e" "e \<le> 2 ^ 53" "int (length keys) \<le> 2 ^ 64"
  shows "fit_blocks (Fin e) keys s (fit_segments (Fin e) keys s)"
  using assms
proof (induction "Fin e" keys s rule: fit_segments.induct)
  case (1 keys s)
  consider "length keys \<le> s" | "s < length keys" "s = length keys - 1"
    | "s < length keys" "s \<noteq> length keys - 1" by linarith
  then show ?case
  proof cases
    case 1
    then show ?thesis by (subst fit_segments.simps) simp
  next
    case 2
    have "fit_segments (Fin e) keys s =
        [\<lparr>key_start = keys ! s, key_end = keys ! s, slope = Fin 0, intercept = didx s\<rparr>]"
      using 2 by (subst fit_segments.simps) simp
    moreover have "length keys \<le> Suc s" "int s \<le> 2 ^ 64" using 2 "1.prems"(3) by linarith+
    moreover have "slope_fits (Fin e) keys s s (Fin 0)" by (simp add: slope_fits_def)
    ultimately show ?thesis using 2(1) by (simp add: seg_finite_def didx_Fin del: One_nat_def) blast
  next
    case 3
    obtain l h m where r: "fit_extend (Fin e) (du64 (keys ! s)) (didx s) (drop (s + 1) keys) (s + 1)
        NInf PInf s = (l, h, m)" by (metis prod_cases3)
    note ge = fit_extend_ge [of s "s + 1" "Fin e" "du64 (keys ! s)" "didx s" "drop (s + 1) keys" NInf PInf]
    note less = fit_extend_less [of s "s + 1" "Fin e" "du64 (keys ! s)" "didx s" "drop (s + 1) keys" NInf PInf]
    have "s \<le> m" using ge unfolding r by simp
    moreover have "m < s + 1 + length (drop (s + 1) keys)" using less unfolding r by simp
    ultimately have m: "s \<le> m" "m < length keys" using 3 by simp_all
    have "fit_blocks (Fin e) keys (m + 1) (fit_segments (Fin e) keys (m + 1))"
      using "1.hyps" [OF 3 refl refl refl refl refl, unfolded r snd_conv, OF "1.prems"] .
    moreover have "fit_segments (Fin e) keys s =
        \<lparr>key_start = keys ! s, key_end = keys ! m, slope = fit_slope l h,
         intercept = dsub (didx s) (dmul (fit_slope l h) (du64 (keys ! s)))\<rparr>
        # fit_segments (Fin e) keys (m + 1)"
      using 3 by (subst fit_segments.simps) (simp add: Let_def r [simplified])
    ultimately show ?thesis
      using fit_segment_block [OF "1.prems" 3(1) r] m by (auto simp: seg_finite_def)
  qed
qed

lemma fit_blocks_finite: "fit_blocks eb keys s gs \<Longrightarrow> g \<in> set gs \<Longrightarrow> seg_finite g"
  by (induction gs arbitrary: s) auto

section \<open>The inverse stays inside the model\<close>

lemma fp_of_not_NaN: "fp_of F x \<noteq> NaN"
  by (simp add: fp_of_def Let_def)

lemma dsub_ddiv_not_NaN: "s \<noteq> 0 \<Longrightarrow> ddiv (dsub (Fin p) (Fin b)) (Fin s) \<noteq> NaN"
  using fp_of_not_NaN [of binary64]
  by (cases "dsub (Fin p) (Fin b)") (auto simp: fp_sub_def fp_add.simps fp_div.simps fp_inf_def)

text \<open>The clamp of the code, on a value that is a number: between the bounds.\<close>

lemma fp_clamp:
  assumes "x \<noteq> NaN" "a \<le> b"
  obtains v where "fp_min (fp_max x (Fin a)) (Fin b) = Fin v" "a \<le> v" "v \<le> b"
proof (cases x)
  case (Fin y)
  have "fp_min (fp_max x (Fin a)) (Fin b) = Fin (min (max y a) b)"
    using Fin by (auto simp: fp_min_def fp_max_def min_def max_def)
  then show thesis using that [of "min (max y a) b"] assms(2) by simp
qed (use assms that [of a] that [of b] in \<open>auto simp: fp_min_def fp_max_def\<close>)

lemma round_away_between:
  assumes "of_int a \<le> v" "v \<le> of_int b" "0 \<le> a"
  shows "a \<le> round_away v \<and> round_away v \<le> b"
proof -
  have "0 \<le> v" using assms by (metis of_int_0_le_iff order.trans)
  then show ?thesis using assms by (auto simp: round_away_def floor_le_iff le_floor_iff)
qed

lemma u64_of_int_between:
  assumes "uint (a :: u64) \<le> k" "k \<le> uint (b :: u64)"
  shows "a \<le> of_int k \<and> of_int k \<le> b"
proof -
  have "0 \<le> k" "k < 18446744073709551616" using assms uint_ge_0 [of a] uint_u64_less [of b] by linarith+
  then have "uint (of_int k :: u64) = k" by (simp add: uint_word_of_int)
  then show ?thesis using assms by (simp add: word_le_def)
qed

lemma u64_midpoint:
  assumes "(a :: u64) \<le> b" "uint b \<le> 2 ^ 53"
  shows "a \<le> (a + b) div 2 \<and> (a + b) div 2 \<le> b"
proof -
  have u: "uint a \<le> uint b" using assms(1) by (simp add: word_le_def)
  have "uint (a + b) = uint a + uint b"
    using assms(2) u uint_ge_0 [of a] by (subst uint_plus_simple_iff [symmetric]) (simp add: no_olen_add)
  then have "uint ((a + b) div 2) = (uint a + uint b) div 2" by (simp add: uint_div)
  then show ?thesis using u unfolding word_le_def by linarith
qed

lemma seg_inverse_within:
  assumes "seg_finite g" "key_start g \<le> key_end g" "uint (key_end g) \<le> 2 ^ 53"
  obtains k where "seg_inverse g (Fin p) = Some k" "key_start g \<le> k" "k \<le> key_end g"
proof (cases "fp_lt (fp_abs (slope g)) (fp_of binary64 (1 / 10 ^ 15))")
  case True
  then show thesis using that u64_midpoint [OF assms(2,3)] by (simp add: seg_inverse_def)
next
  case False
  obtain s b where sb: "slope g = Fin s" "intercept g = Fin b" using assms(1) by (auto simp: seg_finite_def)
  have "fp_lt (Fin 0) (fp_of binary64 (1 / 10 ^ 15))" by code_simp
  then have s0: "s \<noteq> 0" using False sb(1) by auto
  have u: "0 \<le> uint (key_start g)" "uint (key_start g) \<le> uint (key_end g)"
    using assms(2) uint_ge_0 by (auto simp: word_le_def)
  have K: "du64 (key_start g) = Fin (of_int (uint (key_start g)))" "du64 (key_end g) = Fin (of_int (uint (key_end g)))"
    using u assms(3) by (auto simp: fp_u64_64 intro!: r64.exact repr64_int)
  let ?x = "ddiv (dsub (Fin p) (Fin b)) (Fin s)"
  obtain v where v: "fp_min (fp_max ?x (du64 (key_start g))) (du64 (key_end g)) = Fin v"
      "of_int (uint (key_start g)) \<le> v" "v \<le> of_int (uint (key_end g))"
    unfolding K using fp_clamp [OF dsub_ddiv_not_NaN [OF s0, of p b]] u(2) of_int_le_iff by blast
  have r: "uint (key_start g) \<le> round_away v" "round_away v \<le> uint (key_end g)"
    using round_away_between [OF v(2,3) u(1)] by auto
  have "round_away v < 2 ^ 64" using r(2) assms(3) by simp
  then have "of_int (round_away v) < (of_int (2 ^ 64) :: rat)" by (simp only: of_int_less_iff)
  then have lt: "(of_int (round_away v) :: rat) < 2 ^ 64" by simp
  have ge: "(0 :: rat) \<le> of_int (round_away v)" using r(1) u(1) by (simp only: of_int_0_le_iff)
  have "seg_inverse g (Fin p) = fp_to_u64 (fp_round (Fin v))"
    using False by (simp only: seg_inverse_def Let_def sb v(1) if_False)
  also have "\<dots> = Some (of_int (round_away v))" using lt ge by simp
  finally show thesis using that u64_of_int_between [OF r] by blast
qed

lemma Inverse_best_less: "b < n \<Longrightarrow> i + length gs \<le> n \<Longrightarrow> Inverse_best p gs i b d < n"
  by (induction gs arbitrary: i b d) (auto simp: Let_def)

lemma segs_ok_hull:
  assumes "segs_ok gs" "g \<in> set gs"
  shows "key_start (hd gs) \<le> key_start g \<and> key_end g \<le> key_end (last gs)"
proof -
  obtain i where i: "i < length gs" "g = gs ! i" using assms(2) by (auto simp: in_set_conv_nth)
  let ?n = "length gs - 1"
  have "key_start (gs ! 0) \<le> key_start (gs ! i)"
    using segs_ok_less [OF assms(1), of 0 i] segs_ok_range [OF assms(1), of 0] i
    by (cases "i = 0"; cases "gs = []") (auto intro: less_imp_le le_less_trans)
  moreover have "key_end (gs ! i) \<le> key_end (gs ! ?n)"
  proof (cases "i = ?n")
    case False
    then have "i < ?n" "?n < length gs" using i(1) by linarith+
    then show ?thesis using segs_ok_end_less [OF assms(1), of i ?n] by simp
  qed simp
  ultimately show ?thesis using i by (auto simp: hd_conv_nth last_conv_nth simp flip: length_greater_0_conv)
qed

lemma Inverse_within_model:
  assumes "segs_ok (segments m)" "segments m \<noteq> []" "\<forall>g \<in> set (segments m). seg_finite g"
    and "uint (KeyMax m) \<le> 2 ^ 53"
  obtains k where "Inverse m (Fin p) = Some k" "KeyMin m \<le> k" "k \<le> KeyMax m"
proof -
  let ?g = "segments m ! Inverse_best (Fin p) (segments m) 0 0 PInf"
  have g: "?g \<in> set (segments m)" using assms(2) by (intro nth_mem Inverse_best_less) auto
  then have "key_start ?g \<le> key_end ?g" using assms(1) by (auto simp: segs_ok_def)
  moreover have hull: "KeyMin m \<le> key_start ?g" "key_end ?g \<le> KeyMax m"
    using segs_ok_hull [OF assms(1) g] assms(2) by (auto simp: KeyMin_def KeyMax_def)
  moreover have "uint (key_end ?g) \<le> 2 ^ 53" using hull(2) assms(4) by (auto simp: word_le_def)
  ultimately obtain k where "seg_inverse ?g (Fin p) = Some k" "key_start ?g \<le> k" "k \<le> key_end ?g"
    using seg_inverse_within assms(3) g by blast
  then show thesis using hull assms(2) that [of k] by (auto simp: Inverse_def)
qed

section \<open>Properties\<close>

text \<open>C27: On a model whose segments are disjoint key intervals in increasing order,
  \<open>Predict\<close> evaluates the segment that holds the key, stays flat at the last rank of the
  previous segment in a gap, is 0 below the model, and is the rank of the last key above it
  (the comment in \<open>plr_model.h\<close> says the number of entries there, which is one more on an
  exact fit, see \<open>Predict_above_is_last_rank\<close>).\<close>

theorem Predict_cdf:
  assumes "segs_ok (segments m)" "segments m \<noteq> []"
  shows "(\<forall>i key. i < length (segments m) \<and> key_start (segments m ! i) \<le> key \<and> key \<le> key_end (segments m ! i)
            \<longrightarrow> Predict m key = seg_eval (segments m ! i) key) \<and>
         (\<forall>i key. Suc i < length (segments m) \<and> key_end (segments m ! i) < key \<and> key < key_start (segments m ! Suc i)
            \<longrightarrow> Predict m key = seg_eval (segments m ! i) (key_end (segments m ! i))) \<and>
         (\<forall>key < KeyMin m. Predict m key = Fin 0) \<and>
         (\<forall>key > KeyMax m. Predict m key = seg_eval (last (segments m)) (key_end (last (segments m))))"
  using Predict_inside [OF assms(1)] Predict_gap [OF assms(1)] Predict_below [OF assms(1)]
    Predict_above [OF assms] by blast

theorem Predict_cdf_witness:
  "Predict \<lparr>segments = [\<lparr>key_start = 2, key_end = 4, slope = Fin 1, intercept = Fin (- 2)\<rparr>,
      \<lparr>key_start = 10, key_end = 10, slope = Fin 0, intercept = Fin 3\<rparr>]\<rparr> 7 = Fin 2"
proof -
  let ?m = "\<lparr>segments = [\<lparr>key_start = 2, key_end = 4, slope = Fin 1, intercept = Fin (- 2)\<rparr>,
      \<lparr>key_start = 10, key_end = 10, slope = Fin 0, intercept = Fin 3\<rparr>]\<rparr> :: PLRModel"
  have "segs_ok (segments ?m)" by (simp add: segs_ok_def)
  then have "Predict ?m 7 = seg_eval (segments ?m ! 0) (key_end (segments ?m ! 0))"
    using Predict_cdf [of ?m] by simp
  moreover have "seg_eval (segments ?m ! 0) (key_end (segments ?m ! 0)) = Fin 2" by code_simp
  ultimately show ?thesis by simp
qed

text \<open>C21: The greedy fit cuts the keys into consecutive blocks, one segment per block from the
  block's first key to its last. Every segment has a finite intercept and a finite slope that is
  not negative, and for each key of its block the slope lies between the two slopes that put the
  predicted rank at the lower and at the upper end of the error bound.\<close>

theorem GreedyPLRFit_blocks:
  assumes "0 \<le> e" "e \<le> 2 ^ 53" "int (length keys) \<le> 2 ^ 64"
  shows "fit_blocks (Fin e) keys 0 (segments (GreedyPLRFit keys (Fin e)))"
  using fit_segments_blocks [OF assms] by (simp add: GreedyPLRFit_def)

theorem GreedyPLRFit_blocks_witness:
  "fit_blocks (Fin 8) [1, 5, 9, 100] 0 (segments (GreedyPLRFit [1, 5, 9, 100] (Fin 8)))"
  by (rule GreedyPLRFit_blocks) simp_all

text \<open>C25: On strictly increasing keys the fit is a well-formed model with at most one segment per
  key: the segments are disjoint intervals in order, every key lies in one of them, and the model
  reaches from the first key to the last.\<close>

theorem GreedyPLRFit_covers:
  assumes "sorted_wrt (<) keys" "keys \<noteq> []"
  shows "segs_ok (segments (GreedyPLRFit keys eb)) \<and>
    NumSegments (GreedyPLRFit keys eb) \<le> length keys \<and>
    (\<forall>k \<in> set keys. \<exists>g \<in> set (segments (GreedyPLRFit keys eb)). key_start g \<le> k \<and> k \<le> key_end g) \<and>
    KeyMin (GreedyPLRFit keys eb) = hd keys \<and> KeyMax (GreedyPLRFit keys eb) = last keys"
proof -
  have c: "covers keys 0 (segments (GreedyPLRFit keys eb))"
    by (simp add: GreedyPLRFit_def fit_segments_covers)
  have srt: "sorted keys" using assms(1) by (rule strict_sorted_imp_sorted)
  show ?thesis
    using covers_segs_ok [OF c assms(1)] covers_length [OF c] covers_mem [OF c srt] covers_ends [OF c] assms(2)
    by (auto simp: NumSegments_def KeyMin_def KeyMax_def hd_conv_nth in_set_conv_nth)
qed

theorem GreedyPLRFit_covers_witness:
  "NumSegments (GreedyPLRFit [3, 8, 20] (Fin 8)) \<le> 3 \<and> KeyMax (GreedyPLRFit [3, 8, 20] (Fin 8)) = 20"
  using GreedyPLRFit_covers [of "[3, 8, 20]" "Fin 8"] by simp

text \<open>C28: On a model fitted to strictly increasing keys of at most \<open>2 ^ 53\<close> (the integers a double
  holds exactly), \<open>Inverse\<close> of any finite position is defined and lies between the smallest and
  the largest key.\<close>

theorem Inverse_in_key_range:
  assumes "sorted_wrt (<) keys" "keys \<noteq> []" "uint (last keys) \<le> 2 ^ 53"
    and "0 \<le> e" "e \<le> 2 ^ 53" "int (length keys) \<le> 2 ^ 64"
  shows "\<exists>k. Inverse (GreedyPLRFit keys (Fin e)) (Fin p) = Some k \<and> hd keys \<le> k \<and> k \<le> last keys"
proof -
  let ?m = "GreedyPLRFit keys (Fin e)"
  have c: "covers keys 0 (segments ?m)" by (simp add: GreedyPLRFit_def fit_segments_covers)
  have fin: "\<forall>g \<in> set (segments ?m). seg_finite g"
    using fit_blocks_finite [OF fit_segments_blocks [OF assms(4-6)]] by (simp add: GreedyPLRFit_def)
  have ends: "segments ?m \<noteq> []" "KeyMin ?m = hd keys" "KeyMax ?m = last keys"
    using covers_ends [OF c] assms(2) by (auto simp: KeyMin_def KeyMax_def hd_conv_nth)
  show ?thesis
    by (rule Inverse_within_model [OF covers_segs_ok [OF c assms(1)] ends(1) fin, of p]) (use ends assms(3) in auto)
qed

theorem Inverse_in_key_range_witness:
  "\<exists>k. Inverse (GreedyPLRFit [3, 8, 20] (Fin 8)) (Fin (7 / 2)) = Some k \<and> 3 \<le> k \<and> k \<le> 20"
  using Inverse_in_key_range [of "[3, 8, 20]" 8 "7 / 2"] by simp

text \<open>The cast of \<open>Inverse\<close> is outside the range of \<open>uint64_t\<close> on a model of two keys at the top
  of the key space, since the largest key converts to \<open>2 ^ 64\<close>.\<close>

lemma Inverse_cast_undefined:
  "Inverse (GreedyPLRFit [18446744073708503040, 18446744073709551615] (Fin 0)) (Fin 1) = None"
  by code_simp

text \<open>Above the model the prediction is the rank of the last key, not the number of entries.\<close>

lemma Predict_above_is_last_rank:
  "Predict (GreedyPLRFit [1, 2, 3] (Fin 0)) 100 = Fin 2"
  by code_simp

text \<open>Ten keys that convert to one double: the rank error of the last is 9 with a bound of 8.\<close>

lemma fit_error_exceeds_bound:
  "Predict (GreedyPLRFit (map (\<lambda>i. 9223372036854775808 + i) [0, 1, 2, 3, 4, 5, 6, 7, 8, 9]) (Fin 8))
     9223372036854775817 = Fin 0"
  by code_simp

end
