(* ===== verification/KMV_Sketch.thy ===== *)
theory KMV_Sketch
  imports KMV_Hash PLR_Model
begin

text \<open>
  The descriptors and sketches of \<open>db/virtual_compaction/virtual_sst.h\<close> and the code of
  \<open>virtual_sst.cc\<close> that builds them: a bottom-k (KMV) sample of the hashed keys per range
  bucket, and the whole-file sketch assembled from the buckets. The contract of a sketch
  is \<open>represents\<close>: its samples are exactly the hashes of the represented keys up to theta.
\<close>

section \<open>Data\<close>

record KMVSample =
  hash :: u64

text \<open>\<open>KMVUnhash\<close> returns on every hash, so the second branch is never taken.\<close>

definition sample_key :: "KMVSample \<Rightarrow> u64" where
  "sample_key s = (case KMVUnhash (hash s) of Some k \<Rightarrow> k | None \<Rightarrow> 0)"

record KMVSketch =
  samples :: "KMVSample list"
  theta_hash :: u64
  complete :: bool

record KMVRangeSketch =
  r_key_min :: u64
  r_key_max :: u64
  r_num_entries :: u64
  sketch :: KMVSketch

record VirtualSST =
  plr_model :: PLRModel
  kmv_ranges :: "KMVRangeSketch list"
  key_min :: u64
  key_max :: u64
  num_entries :: u64
  size_bytes :: u64

definition MaxHash :: u64 where
  "MaxHash = u64_max"

definition empty_sketch :: KMVSketch where
  "empty_sketch = \<lparr>samples = [], theta_hash = MaxHash, complete = False\<rparr>"

section \<open>Sorting samples\<close>

definition SortUniqueByHash :: "KMVSample list \<Rightarrow> KMVSample list" where
  "SortUniqueByHash xs = remdups_adj (sort_key hash xs)"

definition SortByHashAndTrim :: "KMVSample list \<Rightarrow> nat \<Rightarrow> KMVSample list" where
  "SortByHashAndTrim xs max_samples =
     (let ys = sort_key hash xs
      in if 0 < max_samples \<and> max_samples < length ys then take max_samples ys else ys)"

section \<open>The bottom-k sample\<close>

text \<open>
  \<open>std::push_heap\<close> and \<open>std::pop_heap\<close> on a vector ordered by hash. The model keeps the
  heap in descending order, one of the layouts the standard allows; the result of the
  loop is proved from the laws of the operations alone.
\<close>

fun insert_desc :: "KMVSample \<Rightarrow> KMVSample list \<Rightarrow> KMVSample list" where
  "insert_desc x [] = [x]"
| "insert_desc x (y # ys) = (if hash y < hash x then x # y # ys else y # insert_desc x ys)"

definition push_heap :: "KMVSample list \<Rightarrow> KMVSample list" where
  "push_heap xs = (if xs = [] then [] else insert_desc (last xs) (butlast xs))"

definition pop_heap :: "KMVSample list \<Rightarrow> KMVSample list" where
  "pop_heap xs = (if xs = [] then [] else tl xs @ [hd xs])"

definition offer ::
    "(KMVSample list \<Rightarrow> KMVSample list) \<Rightarrow> (KMVSample list \<Rightarrow> KMVSample list) \<Rightarrow>
     nat \<Rightarrow> KMVSample \<Rightarrow> KMVSample list \<Rightarrow> KMVSample list" where
  "offer push pop max_samples sample xs =
     (if length xs < max_samples then push (xs @ [sample])
      else if hash sample < hash (hd xs) then push (butlast (pop xs) @ [sample])
      else xs)"

text \<open>The loop over the keys; the state is the heap, the number of distinct keys and the last key.\<close>

fun build_loop ::
    "(KMVSample list \<Rightarrow> KMVSample list) \<Rightarrow> (KMVSample list \<Rightarrow> KMVSample list) \<Rightarrow>
     nat \<Rightarrow> u64 list \<Rightarrow> KMVSample list \<Rightarrow> u64 \<Rightarrow> u64 option \<Rightarrow> KMVSample list \<times> u64" where
  "build_loop push pop max_samples [] xs unique_count last_key = (xs, unique_count)"
| "build_loop push pop max_samples (key # keys) xs unique_count last_key =
     (if last_key = Some key then build_loop push pop max_samples keys xs unique_count last_key
      else build_loop push pop max_samples keys
             (offer push pop max_samples \<lparr>hash = KMVHash key\<rparr> xs) (unique_count + 1) (Some key))"

definition BuildKMVSketchFromSortedKeyRange :: "u64 list \<Rightarrow> nat \<Rightarrow> KMVSketch" where
  "BuildKMVSketchFromSortedKeyRange keys max_samples =
     (if keys = [] then empty_sketch
      else let (heap, unique_count) = build_loop push_heap pop_heap max_samples keys [] 0 None;
               compl = (uint unique_count \<le> int max_samples);
               xs = SortByHashAndTrim heap max_samples
           in \<lparr>samples = xs,
               theta_hash = (if compl \<or> xs = [] then MaxHash else hash (last xs)),
               complete = compl\<rparr>)"

section \<open>Range buckets\<close>

text \<open>
  One bucket, for the half-open index interval of the keys. Sizes of vectors are natural
  numbers; the product of the size and a bucket index is a \<open>size_t\<close> and wraps.
\<close>

definition range_sketch :: "u64 list \<Rightarrow> nat \<Rightarrow> nat \<Rightarrow> nat \<Rightarrow> KMVRangeSketch" where
  "range_sketch sorted_keys begin_idx end_idx samples_per_range =
     \<lparr>r_key_min = sorted_keys ! begin_idx,
      r_key_max = sorted_keys ! (end_idx - 1),
      r_num_entries = of_nat (end_idx - begin_idx),
      sketch = BuildKMVSketchFromSortedKeyRange
                 (take (end_idx - begin_idx) (drop begin_idx sorted_keys)) samples_per_range\<rparr>"

definition bucket_index :: "nat \<Rightarrow> nat \<Rightarrow> nat \<Rightarrow> nat" where
  "bucket_index n range_count i = unat ((of_nat n * of_nat i) div of_nat range_count :: u64)"

definition BuildKMVRangeSketchesFromSortedKeys ::
    "string option \<Rightarrow> string option \<Rightarrow> u64 list \<Rightarrow> nat \<Rightarrow> nat \<Rightarrow> KMVRangeSketch list" where
  "BuildKMVRangeSketchesFromSortedKeys env_samples env_buckets sorted_keys max_samples0 max_ranges0 =
     (if sorted_keys = [] then []
      else let max_samples = (if max_samples0 = 0 then unat (VirtualSSTKMVSamples env_samples) else max_samples0);
               max_ranges = (if max_ranges0 = 0 then unat (VirtualSSTKMVRangeBuckets env_buckets) else max_ranges0);
               n = length sorted_keys;
               range_count = min max_ranges n;
               samples_per_range = max 1 (max_samples div range_count)
           in concat (map (\<lambda>i. let begin_idx = bucket_index n range_count i;
                                   end_idx = bucket_index n range_count (i + 1)
                               in if end_idx \<le> begin_idx then []
                                  else [range_sketch sorted_keys begin_idx end_idx samples_per_range])
                      [0 ..< range_count]))"

section \<open>The whole-file sketch\<close>

definition ranges_complete :: "KMVRangeSketch list \<Rightarrow> bool" where
  "ranges_complete rs = fold (\<lambda>r c. c \<and> complete (sketch r)) rs True"

definition ranges_theta :: "KMVRangeSketch list \<Rightarrow> u64" where
  "ranges_theta rs = fold (\<lambda>r t. min t (theta_hash (sketch r))) rs MaxHash"

definition samples_below :: "u64 \<Rightarrow> KMVRangeSketch list \<Rightarrow> KMVSample list" where
  "samples_below theta rs = concat (map (\<lambda>r. filter (\<lambda>s. hash s \<le> theta) (samples (sketch r))) rs)"

definition DescriptorSketch :: "string option \<Rightarrow> VirtualSST \<Rightarrow> nat \<Rightarrow> KMVSketch" where
  "DescriptorSketch env_samples vsst max_samples0 =
     (if kmv_ranges vsst = [] then empty_sketch
      else let max_samples = (if max_samples0 = 0 then unat (VirtualSSTKMVSamples env_samples) else max_samples0);
               theta = ranges_theta (kmv_ranges vsst);
               xs = SortUniqueByHash (samples_below theta (kmv_ranges vsst));
               trimmed = (max_samples < length xs);
               ys = SortByHashAndTrim xs max_samples;
               compl = (ranges_complete (kmv_ranges vsst) \<and> \<not> trimmed)
           in \<lparr>samples = ys,
               theta_hash = (if compl \<or> ys = [] then MaxHash else min theta (hash (last ys))),
               complete = compl\<rparr>)"

section \<open>The contract of a sketch\<close>

definition represents :: "KMVSketch \<Rightarrow> u64 set \<Rightarrow> bool" where
  "represents S K \<longleftrightarrow>
     sorted_wrt (<) (map hash (samples S)) \<and>
     hash ` set (samples S) = {h \<in> KMVHash ` K. h \<le> theta_hash S} \<and>
     (complete S \<longrightarrow> theta_hash S = MaxHash)"

text \<open>The least \<open>k\<close> elements of a set.\<close>

definition bottom :: "nat \<Rightarrow> u64 set \<Rightarrow> u64 set \<Rightarrow> bool" where
  "bottom k H B \<longleftrightarrow> B \<subseteq> H \<and> card B = min k (card H) \<and> (\<forall>b \<in> B. \<forall>h \<in> H - B. b < h)"

lemma bottom_grow:
  assumes "bottom k H B" "card B < k" "finite H" "h \<notin> H"
  shows "bottom k (insert h H) (insert h B)"
proof -
  have c: "card B = card H" "B \<subseteq> H" using assms(1,2) by (auto simp: bottom_def)
  then have "B = H" using assms(3) by (simp add: card_subset_eq)
  then show ?thesis using assms by (auto simp: bottom_def)
qed

lemma bottom_replace:
  assumes "bottom k H B" "card B = k" "finite H" "h \<notin> H" "m \<in> B" "\<forall>b \<in> B. b \<le> m" "h < m"
  shows "bottom k (insert h H) (insert h (B - {m}))"
proof -
  have B: "B \<subseteq> H" "\<forall>b \<in> B. \<forall>x \<in> H - B. b < x" "finite B" "k \<le> card H"
    using assms(1-3) finite_subset by (auto simp: bottom_def)
  have h: "h \<notin> B" using assms(4) B(1) by blast
  then have "card (insert h (B - {m})) = k"
    using assms(2) card_Suc_Diff1 [OF B(3) assms(5)] B(3) by simp
  moreover have "min k (card (insert h H)) = k" using B(4) assms(3) by (simp add: card_insert_if)
  moreover have "b < x" if "b \<in> insert h (B - {m})" "x \<in> insert h H - insert h (B - {m})" for b x
  proof -
    have bm: "b < m" using that(1) assms(6,7) by (auto simp: order_le_less)
    have "x = m \<or> x \<in> H - B" using that(2) by blast
    then show ?thesis using bm B(2) assms(5) by (auto intro: less_trans)
  qed
  ultimately show ?thesis using B(1) by (auto simp: bottom_def)
qed

lemma bottom_keep:
  assumes "bottom k H B" "card B = k" "finite H" "m \<in> B" "\<forall>b \<in> B. b \<le> m" "m < h"
  shows "bottom k (insert h H) B"
proof -
  have "k \<le> card H" using assms(1,2) by (auto simp: bottom_def min_def split: if_splits)
  then have "card B = min k (card (insert h H))" using assms(2,3) by (simp add: card_insert_if)
  then show ?thesis using assms by (auto simp: bottom_def intro: le_less_trans)
qed

text \<open>What the loop needs of the two heap operations.\<close>

locale max_heap =
  fixes is_heap :: "KMVSample list \<Rightarrow> bool"
    and push :: "KMVSample list \<Rightarrow> KMVSample list"
    and pop :: "KMVSample list \<Rightarrow> KMVSample list"
  assumes empty_heap: "is_heap []"
    and push_keeps: "is_heap xs \<Longrightarrow> is_heap (push (xs @ [x]))"
    and push_mset: "is_heap xs \<Longrightarrow> mset (push (xs @ [x])) = add_mset x (mset xs)"
    and front_max: "is_heap xs \<Longrightarrow> y \<in> set xs \<Longrightarrow> hash y \<le> hash (hd xs)"
    and pop_keeps: "is_heap xs \<Longrightarrow> xs \<noteq> [] \<Longrightarrow> is_heap (butlast (pop xs))"
    and pop_mset: "is_heap xs \<Longrightarrow> xs \<noteq> [] \<Longrightarrow> mset (butlast (pop xs)) = mset xs - {#hd xs#}"
begin

definition holds :: "nat \<Rightarrow> u64 set \<Rightarrow> KMVSample list \<Rightarrow> bool" where
  "holds k H xs \<longleftrightarrow> is_heap xs \<and> (\<exists>B. bottom k H B \<and> image_mset hash (mset xs) = mset_set B)"

lemma holds_empty: "holds k {} []"
  by (auto simp: holds_def bottom_def empty_heap)

lemma offer_holds:
  assumes "holds k H xs" "finite H" "hash s \<notin> H" "0 < k"
  shows "holds k (insert (hash s) H) (offer push pop k s xs)"
proof -
  obtain B where hp: "is_heap xs" and B: "bottom k H B" "image_mset hash (mset xs) = mset_set B"
    using assms(1) by (auto simp: holds_def)
  have fB: "finite B" and BH: "B \<subseteq> H" using B(1) assms(2) finite_subset by (auto simp: bottom_def)
  have len: "length xs = card B"
    using arg_cong [OF B(2), of size] by simp
  have sB: "hash ` set xs = B"
    using arg_cong [OF B(2), of set_mset] fB by simp
  have sn: "hash s \<notin> B" using assms(3) BH by blast
  consider "length xs < k" | "length xs = k" "hash s < hash (hd xs)" | "length xs = k" "\<not> hash s < hash (hd xs)"
    using B(1) len by (fastforce simp: bottom_def)
  then show ?thesis
  proof cases
    case 1
    have "image_mset hash (mset (push (xs @ [s]))) = mset_set (insert (hash s) B)"
      using push_mset [OF hp] B(2) sn fB by simp
    then show ?thesis
      using 1 bottom_grow [OF B(1) _ assms(2,3)] len push_keeps [OF hp]
      by (auto simp: holds_def offer_def)
  next
    case 2
    have ne: "xs \<noteq> []" using 2 assms(4) by auto
    let ?m = "hash (hd xs)"
    have m: "?m \<in> B" "\<forall>b \<in> B. b \<le> ?m" using sB ne front_max [OF hp] by auto
    have "image_mset hash (mset (butlast (pop xs))) = mset_set (B - {?m})"
      using pop_mset [OF hp ne] B(2) ne fB m(1)
      by (simp add: image_mset_Diff mset_set_Diff)
    then have "image_mset hash (mset (push (butlast (pop xs) @ [s]))) = mset_set (insert (hash s) (B - {?m}))"
      using push_mset [OF pop_keeps [OF hp ne]] sn fB by simp
    then show ?thesis
      using 2 bottom_replace [OF B(1) _ assms(2,3) m] len push_keeps [OF pop_keeps [OF hp ne]]
      by (auto simp: holds_def offer_def)
  next
    case 3
    have ne: "xs \<noteq> []" using 3 assms(4) by auto
    have m: "hash (hd xs) \<in> B" "\<forall>b \<in> B. b \<le> hash (hd xs)" using sB ne front_max [OF hp] by auto
    then have "hash (hd xs) < hash s" using 3 sn by (metis linorder_neqE)
    then show ?thesis
      using 3 bottom_keep [OF B(1) _ assms(2) m] len hp B(2) by (auto simp: holds_def offer_def)
  qed
qed

lemma build_loop_holds:
  assumes "holds k (KMVHash ` K) xs" "finite K" "0 < k" "sorted keys"
    and "\<forall>x \<in> K. \<forall>y \<in> set keys. x \<le> y" "K = {} \<longleftrightarrow> lk = None" "\<forall>l. lk = Some l \<longrightarrow> l \<in> K \<and> (\<forall>x \<in> K. x \<le> l)"
    and "c = of_nat (card K)" "build_loop push pop k keys xs c lk = (xs', c')"
  shows "holds k (KMVHash ` (K \<union> set keys)) xs' \<and> c' = of_nat (card (K \<union> set keys))"
  using assms
proof (induction keys arbitrary: K xs c lk)
  case (Cons key keys)
  show ?case
  proof (cases "lk = Some key")
    case True
    then have "key \<in> K" using Cons.prems by auto
    then have "K \<union> set (key # keys) = K \<union> set keys" by auto
    then show ?thesis
      using Cons.IH [of K xs lk c] Cons.prems True by simp
  next
    case False
    have nK: "key \<notin> K"
    proof
      assume k: "key \<in> K"
      then obtain l where l: "lk = Some l" using Cons.prems(6) by (cases lk) auto
      then have "l \<in> K" "key \<le> l" using Cons.prems(7) k by auto
      then have "l = key" using Cons.prems(5) by (auto intro: antisym)
      then show False using False l by simp
    qed
    let ?K = "insert key K"
    have "holds k (insert (hash \<lparr>hash = KMVHash key\<rparr>) (KMVHash ` K)) (offer push pop k \<lparr>hash = KMVHash key\<rparr> xs)"
      using nK Cons.prems(2,3) by (intro offer_holds Cons.prems(1)) (auto simp: KMVHash_eq_iff)
    then have 1: "holds k (KMVHash ` ?K) (offer push pop k \<lparr>hash = KMVHash key\<rparr> xs)" by simp
    have 2: "c + 1 = of_nat (card ?K)" using Cons.prems(2,8) nK by simp
    have 3: "build_loop push pop k keys (offer push pop k \<lparr>hash = KMVHash key\<rparr> xs) (c + 1) (Some key) = (xs', c')"
      using Cons.prems(9) False by simp
    have "holds k (KMVHash ` (?K \<union> set keys)) xs' \<and> c' = of_nat (card (?K \<union> set keys))"
      by (rule Cons.IH [OF 1 _ Cons.prems(3) _ _ _ _ 2 3]) (use Cons.prems in auto)
    then show ?thesis by simp
  qed
qed simp

end

section \<open>The heap of the model\<close>

definition desc :: "KMVSample list \<Rightarrow> bool" where
  "desc xs \<longleftrightarrow> sorted_wrt (\<lambda>a b. hash b \<le> hash a) xs"

lemma insert_desc_mset [simp]: "mset (insert_desc x xs) = add_mset x (mset xs)"
  by (induction xs) auto

lemma insert_desc_set [simp]: "set (insert_desc x xs) = insert x (set xs)"
  by (induction xs) auto

lemma insert_desc_desc: "desc xs \<Longrightarrow> desc (insert_desc x xs)"
  by (induction xs) (auto simp: desc_def intro: order.trans)

interpretation kh: max_heap desc push_heap pop_heap
proof
  fix xs :: "KMVSample list" and x y
  show "desc []" by (simp add: desc_def)
  assume h: "desc xs"
  show "desc (push_heap (xs @ [x]))" using h by (simp add: push_heap_def insert_desc_desc)
  show "mset (push_heap (xs @ [x])) = add_mset x (mset xs)" by (simp add: push_heap_def)
  show "hash y \<le> hash (hd xs)" if "y \<in> set xs" using h that by (cases xs) (auto simp: desc_def)
  assume "xs \<noteq> []"
  then show "desc (butlast (pop_heap xs))" "mset (butlast (pop_heap xs)) = mset xs - {#hd xs#}"
    using h by (cases xs; simp add: desc_def pop_heap_def)+
qed

section \<open>Building establishes the contract\<close>

lemma sorted_hash_unique:
  assumes "distinct (map hash xs)"
  shows "sorted_wrt (<) (map hash (sort_key hash xs))"
proof -
  have "distinct (map hash (sort_key hash xs))"
    using assms by (simp add: distinct_map)
  then show ?thesis by (simp add: strict_sorted_iff)
qed

lemma mset_set_distinct:
  assumes "finite B" "mset xs = mset_set B"
  shows "distinct xs \<and> set xs = B"
proof -
  have "set xs = B" using arg_cong [OF assms(2), of set_mset] assms(1) by simp
  then show ?thesis using assms by (simp add: distinct_count_atmost_1)
qed

lemma sorted_le_last: "sorted xs \<Longrightarrow> x \<in> set xs \<Longrightarrow> x \<le> last xs"
  by (induction xs) auto

lemma build_loop_bottom:
  assumes "sorted keys" "0 < k"
  obtains xs B where
    "build_loop push_heap pop_heap k keys [] 0 None = (xs, of_nat (card (set keys)))"
    "bottom k (KMVHash ` set keys) B" "distinct (map hash xs)" "hash ` set xs = B"
proof -
  obtain xs c where r: "build_loop push_heap pop_heap k keys [] 0 None = (xs, c)" by fastforce
  have "kh.holds k (KMVHash ` ({} \<union> set keys)) xs \<and> c = of_nat (card ({} \<union> set keys))"
    by (rule kh.build_loop_holds [where K = "{}", OF _ _ assms(2,1) _ _ _ _ r])
      (auto simp: kh.holds_empty)
  then obtain B where B: "bottom k (KMVHash ` set keys) B" "image_mset hash (mset xs) = mset_set B"
    and c: "c = of_nat (card (set keys))"
    by (auto simp: kh.holds_def)
  have "finite B" using B(1) finite_subset by (auto simp: bottom_def)
  then have "distinct (map hash xs)" "set (map hash xs) = B"
    using mset_set_distinct [of B "map hash xs"] B(2) by auto
  then show thesis using that [of xs B] r c B(1) by simp
qed

lemma card_u64_less: "int (length keys) < 2 ^ 64 \<Longrightarrow> uint (of_nat (card (set keys)) :: u64) = int (card (set keys))"
  using card_length [of keys] by (simp add: uint_nat unsigned_of_nat take_bit_nat_eq_self)

lemma bottom_below_max:
  assumes "bottom k H B" "m \<in> B" "\<forall>b \<in> B. b \<le> m"
  shows "B = {h \<in> H. h \<le> m}"
proof -
  have "h \<in> B" if "h \<in> H" "h \<le> m" for h
    using assms(1,2) that by (auto simp: bottom_def not_less [symmetric])
  then show ?thesis using assms by (auto simp: bottom_def)
qed

lemma BuildKMVSketch_represents:
  assumes "sorted keys" "0 < k" "int (length keys) < 2 ^ 64" "keys \<noteq> []"
  shows "represents (BuildKMVSketchFromSortedKeyRange keys k) (set keys) \<and>
    length (samples (BuildKMVSketchFromSortedKeyRange keys k)) = min k (card (set keys)) \<and>
    (complete (BuildKMVSketchFromSortedKeyRange keys k) \<longleftrightarrow> card (set keys) \<le> k)"
proof -
  let ?H = "KMVHash ` set keys"
  obtain xs B where r: "build_loop push_heap pop_heap k keys [] 0 None = (xs, of_nat (card (set keys)))"
    and B: "bottom k ?H B" and d: "distinct (map hash xs)" and hB: "hash ` set xs = B"
    by (rule build_loop_bottom [OF assms(1,2)])
  have cH: "card ?H = card (set keys)" by (simp add: card_image inj_on_subset [OF inj_KMVHash])
  have len: "length xs = min k (card (set keys))"
    using d hB B cH distinct_card [OF d] by (simp add: bottom_def)
  define ys where "ys = sort_key hash xs"
  have trim: "SortByHashAndTrim xs k = ys" using len by (simp add: SortByHashAndTrim_def Let_def ys_def)
  have srt: "sorted_wrt (<) (map hash ys)" unfolding ys_def by (rule sorted_hash_unique [OF d])
  have yB: "hash ` set ys = B" by (simp add: ys_def hB)
  have "0 < card (set keys)" using assms(4) by (simp add: card_gt_0_iff)
  then have "0 < length ys" using len assms(2) by (simp add: ys_def)
  then have ne: "ys \<noteq> []" by simp
  let ?c = "card (set keys) \<le> k"
  have S: "BuildKMVSketchFromSortedKeyRange keys k =
      \<lparr>samples = ys, theta_hash = (if ?c then MaxHash else hash (last ys)), complete = ?c\<rparr>"
    using assms(4) ne
    by (simp add: BuildKMVSketchFromSortedKeyRange_def r trim card_u64_less [OF assms(3)])
  have "B = {h \<in> ?H. h \<le> (if ?c then MaxHash else hash (last ys))}"
  proof (cases ?c)
    case True
    then have "B \<subseteq> ?H" "card B = card ?H" using B cH by (simp_all add: bottom_def)
    then have "B = ?H" by (simp add: card_subset_eq)
    then show ?thesis using True by (simp add: MaxHash_def)
  next
    case False
    have "\<forall>b \<in> B. b \<le> hash (last ys)"
      using sorted_le_last [of "map hash ys"] ne yB by (auto simp: last_map ys_def)
    moreover have "hash (last ys) \<in> B" using ne yB by auto
    ultimately have "B = {h \<in> ?H. h \<le> hash (last ys)}" using bottom_below_max [OF B] by blast
    then show ?thesis using False by simp
  qed
  then show ?thesis using srt yB len by (simp add: represents_def S ys_def)
qed

section \<open>Range buckets partition the keys\<close>

lemma bucket_index_mono: "i \<le> j \<Longrightarrow> (n * i) div r \<le> (n * j) div (r :: nat)"
  by (simp add: div_le_mono)

text \<open>The slices of a list at the bucket indices, concatenated, are a prefix of it.\<close>

lemma concat_slices:
  fixes f :: "nat \<Rightarrow> nat"
  assumes "f 0 = 0" "\<And>i. f i \<le> f (Suc i)"
  shows "concat (map (\<lambda>i. take (f (Suc i) - f i) (drop (f i) xs)) [0 ..< r]) = take (f r) xs"
proof (induction r)
  case (Suc r)
  have "take (f (Suc r)) xs = take (f r) xs @ take (f (Suc r) - f r) (drop (f r) xs)"
    using assms(2) [of r] take_add [of "f r" "f (Suc r) - f r" xs] by simp
  then show ?case using Suc by simp
qed (simp add: assms)

text \<open>What one bucket holds for its slice of the keys.\<close>

definition bucket_ok :: "nat \<Rightarrow> KMVRangeSketch \<Rightarrow> u64 list \<Rightarrow> bool" where
  "bucket_ok k r ks \<longleftrightarrow> ks \<noteq> [] \<and> r_key_min r = hd ks \<and> r_key_max r = last ks \<and>
     r_num_entries r = of_nat (length ks) \<and> represents (sketch r) (set ks) \<and>
     length (samples (sketch r)) = min k (card (set ks)) \<and>
     (complete (sketch r) \<longleftrightarrow> card (set ks) \<le> k)"

lemma slice_ends:
  assumes "b < e" "e \<le> length xs"
  shows "take (e - b) (drop b xs) \<noteq> []" "hd (take (e - b) (drop b xs)) = xs ! b"
    "last (take (e - b) (drop b xs)) = xs ! (e - 1)" "length (take (e - b) (drop b xs)) = e - b"
  using assms by (auto simp: hd_conv_nth last_conv_nth)

lemma range_sketch_ok:
  assumes "sorted keys" "0 < k" "int (length keys) < 2 ^ 64" "b < e" "e \<le> length keys"
  shows "bucket_ok k (range_sketch keys b e k) (take (e - b) (drop b keys))"
proof -
  let ?s = "take (e - b) (drop b keys)"
  note sl = slice_ends [OF assms(4,5)]
  have "sorted ?s" using assms(1) by (simp add: sorted_wrt_take sorted_wrt_drop)
  moreover have "int (length ?s) < 2 ^ 64" using assms(3,5) sl(4) by linarith
  ultimately show ?thesis
    using BuildKMVSketch_represents [OF _ assms(2) _ sl(1)] sl
    by (simp add: bucket_ok_def range_sketch_def)
qed

text \<open>The effective parameters of the construction.\<close>

definition eff_ranges :: "string option \<Rightarrow> nat \<Rightarrow> nat \<Rightarrow> nat" where
  "eff_ranges env_buckets n max_ranges =
     min (if max_ranges = 0 then unat (VirtualSSTKMVRangeBuckets env_buckets) else max_ranges) n"

definition eff_samples :: "string option \<Rightarrow> nat \<Rightarrow> nat" where
  "eff_samples env_samples max_samples =
     (if max_samples = 0 then unat (VirtualSSTKMVSamples env_samples) else max_samples)"

definition bucket_begin :: "nat \<Rightarrow> nat \<Rightarrow> nat \<Rightarrow> nat" where
  "bucket_begin n r i = (n * i) div r"

lemma bucket_begin_step: "0 < r \<Longrightarrow> r \<le> n \<Longrightarrow> bucket_begin n r i < bucket_begin n r (Suc i)"
proof -
  assume r: "0 < r" "r \<le> n"
  have "bucket_begin n r i + 1 = (n * i + r) div r" using r by (simp add: bucket_begin_def)
  also have "\<dots> \<le> (n * i + n) div r" using r by (intro div_le_mono) simp
  finally show ?thesis by (simp add: bucket_begin_def add.commute)
qed

lemma bucket_begin_ends [simp]: "bucket_begin n r 0 = 0" "0 < r \<Longrightarrow> bucket_begin n r r = n"
  by (simp_all add: bucket_begin_def)

text \<open>The wrapping product of the code, where it fits and where it does not.\<close>

lemma bucket_index_eq:
  assumes "0 < r" "r \<le> n" "n * r < 2 ^ 64" "i \<le> r"
  shows "bucket_index n r i = bucket_begin n r i"
proof -
  have "n * i \<le> n * r" using assms(4) by simp
  then have p: "n * i < 2 ^ 64" using assms(3) by (rule le_less_trans)
  have "n * 1 \<le> n * r" using assms(1) by (intro mult_left_mono) simp_all
  then have "r < 2 ^ 64" using assms(2,3) by linarith
  moreover have "unat (of_nat n * of_nat i :: u64) = n * i"
    using p by (simp add: unat_of_nat flip: of_nat_mult)
  ultimately show ?thesis by (simp add: bucket_index_def bucket_begin_def unat_div_distrib unat_of_nat)
qed

lemma bucket_index_wraps: "bucket_index (2 ^ 33) (2 ^ 33) (2 ^ 31) = 0"
  by (simp add: bucket_index_def)

lemma VirtualSSTKMVRangeBuckets_pos: "0 < unat (VirtualSSTKMVRangeBuckets v)"
  by (auto simp: VirtualSSTKMVRangeBuckets_def read_size_env_def kDefaultKMVRangeBuckets_def unat_gt_0
      split: option.splits list.splits)

lemma VirtualSSTKMVSamples_pos: "0 < unat (VirtualSSTKMVSamples v)"
  by (auto simp: VirtualSSTKMVSamples_def read_size_env_def kDefaultKMVSamples_def unat_gt_0
      split: option.splits list.splits)

lemma BuildKMVRangeSketches_buckets:
  fixes ms mr keys eb es
  defines "n \<equiv> length keys" and "r \<equiv> eff_ranges eb (length keys) mr"
  defines "k \<equiv> max 1 (eff_samples es ms div r)"
  assumes "keys \<noteq> []" and fits: "n * r < 2 ^ 64"
  shows "BuildKMVRangeSketchesFromSortedKeys es eb keys ms mr =
    map (\<lambda>i. range_sketch keys (bucket_begin n r i) (bucket_begin n r (Suc i)) k) [0 ..< r]" and "0 < r" and "r \<le> n"
proof -
  show r: "0 < r" "r \<le> n"
    using assms(4) VirtualSSTKMVRangeBuckets_pos [of eb] by (auto simp: r_def n_def eff_ranges_def)
  have "BuildKMVRangeSketchesFromSortedKeys es eb keys ms mr =
    concat (map (\<lambda>i. if bucket_begin n r (Suc i) \<le> bucket_begin n r i then []
        else [range_sketch keys (bucket_begin n r i) (bucket_begin n r (Suc i)) k]) [0 ..< r])"
  proof -
    have "BuildKMVRangeSketchesFromSortedKeys es eb keys ms mr =
      concat (map (\<lambda>i. if bucket_index n r (Suc i) \<le> bucket_index n r i then []
          else [range_sketch keys (bucket_index n r i) (bucket_index n r (Suc i)) k]) [0 ..< r])"
      using assms(4)
      unfolding BuildKMVRangeSketchesFromSortedKeys_def Let_def n_def r_def k_def
        eff_ranges_def eff_samples_def Suc_eq_plus1
      by (simp only: if_False)
    also have "\<dots> = concat (map (\<lambda>i. if bucket_begin n r (Suc i) \<le> bucket_begin n r i then []
          else [range_sketch keys (bucket_begin n r i) (bucket_begin n r (Suc i)) k]) [0 ..< r])"
      by (intro arg_cong [where f = concat] map_cong) (simp_all add: bucket_index_eq [OF r fits])
    finally show ?thesis .
  qed
  also have "\<dots> = concat (map (\<lambda>i. [range_sketch keys (bucket_begin n r i) (bucket_begin n r (Suc i)) k]) [0 ..< r])"
    using bucket_begin_step [OF r] by (intro arg_cong [where f = concat] map_cong) (auto simp: not_le)
  also have "\<dots> = map (\<lambda>i. range_sketch keys (bucket_begin n r i) (bucket_begin n r (Suc i)) k) [0 ..< r]"
    by (induction r) auto
  finally show "BuildKMVRangeSketchesFromSortedKeys es eb keys ms mr =
    map (\<lambda>i. range_sketch keys (bucket_begin n r i) (bucket_begin n r (Suc i)) k) [0 ..< r]" .
qed

lemma bucket_begin_le: "0 < r \<Longrightarrow> i \<le> r \<Longrightarrow> bucket_begin n r i \<le> n"
  using bucket_index_mono [of i r n r] by (simp add: bucket_begin_def)

lemma BuildKMVRangeSketches_partition:
  fixes ms mr keys eb es
  defines "r \<equiv> eff_ranges eb (length keys) mr"
  assumes "sorted keys" "length keys * eff_ranges eb (length keys) mr < 2 ^ 64" "keys \<noteq> []"
  shows "\<exists>kss. concat kss = keys \<and> length kss = r \<and>
    list_all2 (bucket_ok (max 1 (eff_samples es ms div r))) (BuildKMVRangeSketchesFromSortedKeys es eb keys ms mr) kss"
proof -
  let ?n = "length keys" and ?k = "max 1 (eff_samples es ms div r)"
  let ?f = "bucket_begin ?n r"
  let ?kss = "map (\<lambda>i. take (?f (Suc i) - ?f i) (drop (?f i) keys)) [0 ..< r]"
  note B = BuildKMVRangeSketches_buckets(1) [OF assms(4,3), where es = es and ms = ms, folded r_def]
    BuildKMVRangeSketches_buckets(2,3) [OF assms(4,3), folded r_def]
  have "?n \<le> ?n * r" using B(2) by (cases r) simp_all
  then have "?n < 2 ^ 64" using assms(3) [folded r_def] by (rule le_less_trans)
  then have len: "int ?n < 2 ^ 64" by simp
  have "concat ?kss = take (?f r) keys"
    using bucket_begin_step [OF B(2,3)] by (intro concat_slices) (auto intro: less_imp_le)
  then have "concat ?kss = keys" using B(2) by simp
  moreover have "bucket_ok ?k (range_sketch keys (?f i) (?f (Suc i)) ?k) (take (?f (Suc i) - ?f i) (drop (?f i) keys))"
    if "i < r" for i
    using that bucket_begin_step [OF B(2,3)] bucket_begin_le [OF B(2), of "Suc i"] assms(2) len
    by (intro range_sketch_ok) auto
  ultimately show ?thesis
    unfolding B(1) by (intro exI [of _ ?kss]) (auto simp: list_all2_conv_all_nth)
qed

section \<open>Assembling the whole-file sketch\<close>

lemma KMVSample_eq_iff: "a = b \<longleftrightarrow> hash a = hash (b :: KMVSample)"
  by (cases a; cases b) simp

lemma inj_hash: "inj (hash :: KMVSample \<Rightarrow> u64)"
  by (rule injI) (simp add: KMVSample_eq_iff)

lemma strict_remdups_adj: "sorted xs \<Longrightarrow> sorted_wrt (<) (remdups_adj (xs :: u64 list))"
  by (induction xs rule: remdups_adj.induct) (auto simp: order_le_less)

lemma SortUniqueByHash_strict: "sorted_wrt (<) (map hash (SortUniqueByHash xs))"
  using strict_remdups_adj [of "map hash (sort_key hash xs)"]
  by (simp add: SortUniqueByHash_def remdups_adj_map_injective [OF inj_hash, symmetric])

lemma SortUniqueByHash_set [simp]: "set (SortUniqueByHash xs) = set xs"
  by (simp add: SortUniqueByHash_def)

lemma SortUniqueByHash_length: "length (SortUniqueByHash xs) = card (set xs)"
proof -
  have "distinct (map hash (SortUniqueByHash xs))"
    using SortUniqueByHash_strict [of xs] by (simp add: strict_sorted_iff)
  then have "distinct (SortUniqueByHash xs)" by (simp add: distinct_map)
  then show ?thesis using distinct_card SortUniqueByHash_set by metis
qed

lemma SortByHashAndTrim_strict:
  "sorted_wrt (<) (map hash xs) \<Longrightarrow> 0 < k \<Longrightarrow> SortByHashAndTrim xs k = take k xs"
  by (simp add: SortByHashAndTrim_def Let_def strict_sorted_iff sorted_sort_id sort_key_id_if_sorted)

text \<open>A nonempty prefix of an increasing list holds exactly the elements up to its last.\<close>

lemma strict_take_below:
  fixes xs :: "u64 list"
  assumes "sorted_wrt (<) xs" "take k xs \<noteq> []"
  shows "{x \<in> set xs. x \<le> last (take k xs)} = set (take k xs)"
proof -
  have s: "sorted_wrt (<) (take k xs @ drop k xs)" using assms(1) by simp
  have "x \<le> last (take k xs)" if "x \<in> set (take k xs)" for x
    using that s by (intro sorted_le_last strict_sorted_imp_sorted) (simp_all add: sorted_wrt_append)
  moreover have "last (take k xs) < x" if "x \<in> set (drop k xs)" for x
    using that s assms(2) by (auto simp: sorted_wrt_append simp del: append_take_drop_id)
  moreover have "set xs = set (take k xs) \<union> set (drop k xs)"
    by (metis append_take_drop_id set_append)
  ultimately show ?thesis by (auto simp: not_le [symmetric])
qed

lemma ranges_theta_le_iff: "t \<le> fold (\<lambda>r t. min t (theta_hash (sketch r))) rs u \<longleftrightarrow>
    t \<le> u \<and> (\<forall>r \<in> set rs. t \<le> theta_hash (sketch r))"
  by (induction rs arbitrary: u) auto

lemma ranges_theta_le: "r \<in> set rs \<Longrightarrow> ranges_theta rs \<le> theta_hash (sketch r)"
  using ranges_theta_le_iff [of "ranges_theta rs" rs MaxHash] by (simp add: ranges_theta_def)

lemma ranges_complete_iff: "ranges_complete rs \<longleftrightarrow> (\<forall>r \<in> set rs. complete (sketch r))"
proof -
  have "fold (\<lambda>r c. c \<and> complete (sketch r)) rs c \<longleftrightarrow> c \<and> (\<forall>r \<in> set rs. complete (sketch r))" for c
    by (induction rs arbitrary: c) auto
  then show ?thesis by (simp add: ranges_complete_def)
qed

text \<open>Samples below a common theta are the hashes of the union below it.\<close>

lemma samples_below_hashes:
  assumes "list_all2 (\<lambda>r K. represents (sketch r) K) rs Ks" "\<forall>r \<in> set rs. t \<le> theta_hash (sketch r)"
  shows "hash ` set (samples_below t rs) = {h \<in> KMVHash ` \<Union> (set Ks). h \<le> t}"
  using assms
proof (induction rule: list_all2_induct)
  case (Cons r rs K Ks)
  have "hash ` {s \<in> set (samples (sketch r)). hash s \<le> t} = {h \<in> KMVHash ` K. h \<le> t}"
  proof -
    have "hash ` {s \<in> set (samples (sketch r)). hash s \<le> t} = {h \<in> hash ` set (samples (sketch r)). h \<le> t}"
      by auto
    also have "\<dots> = {h \<in> KMVHash ` K. h \<le> t}"
      using Cons.hyps(1) Cons.prems by (auto simp: represents_def)
    finally show ?thesis .
  qed
  then show ?case using Cons.IH Cons.prems by (auto simp: samples_below_def image_Un)
qed (simp add: samples_below_def)

lemma represents_ranges_theta_complete:
  assumes "list_all2 (\<lambda>r K. represents (sketch r) K) rs Ks" "ranges_complete rs"
  shows "ranges_theta rs = MaxHash"
proof -
  have "\<forall>r \<in> set rs. theta_hash (sketch r) = MaxHash"
    using assms by (induction rule: list_all2_induct) (auto simp: ranges_complete_iff represents_def)
  then have "MaxHash \<le> ranges_theta rs" unfolding ranges_theta_def by (simp add: ranges_theta_le_iff)
  then show ?thesis by (intro antisym) (simp_all add: MaxHash_def)
qed

lemma eff_samples_pos: "0 < eff_samples es ms"
  using VirtualSSTKMVSamples_pos [of es] by (simp add: eff_samples_def)

text \<open>
  The whole-file sketch in terms of the hashes of the union up to the least theta of
  the buckets.
\<close>

lemma DescriptorSketch_parts:
  assumes "list_all2 (\<lambda>r K. represents (sketch r) K) (kmv_ranges v) Ks" "kmv_ranges v \<noteq> []"
  defines "t \<equiv> ranges_theta (kmv_ranges v)"
  obtains xs where "sorted_wrt (<) (map hash xs)" "hash ` set xs = {h \<in> KMVHash ` \<Union> (set Ks). h \<le> t}"
    "samples (DescriptorSketch es v ms) = take (eff_samples es ms) xs"
    "complete (DescriptorSketch es v ms) \<longleftrightarrow> ranges_complete (kmv_ranges v) \<and> length xs \<le> eff_samples es ms"
    "theta_hash (DescriptorSketch es v ms) =
       (if complete (DescriptorSketch es v ms) \<or> take (eff_samples es ms) xs = [] then MaxHash
        else min t (hash (last (take (eff_samples es ms) xs))))"
proof -
  define xs where "xs = SortUniqueByHash (samples_below t (kmv_ranges v))"
  have srt: "sorted_wrt (<) (map hash xs)" by (simp add: xs_def SortUniqueByHash_strict)
  have hx: "hash ` set xs = {h \<in> KMVHash ` \<Union> (set Ks). h \<le> t}"
    using samples_below_hashes [OF assms(1), of t] ranges_theta_le by (simp add: xs_def t_def)
  show thesis
    by (rule that [OF srt hx]) (use assms(2) SortByHashAndTrim_strict [OF srt eff_samples_pos] in
      \<open>simp_all add: DescriptorSketch_def Let_def t_def [symmetric] xs_def [symmetric]
        eff_samples_def [of es ms, symmetric] not_less\<close>)
qed

text \<open>With a hash up to the least theta the samples are a bottom-k sample of the union.\<close>

lemma trimmed_represents:
  assumes "sorted_wrt (<) (map hash xs)" "hash ` set xs = {h \<in> KMVHash ` U. h \<le> t}" "take k xs \<noteq> []"
    and "samples S = take k xs" "\<not> complete S" "theta_hash S = min t (hash (last (take k xs)))"
  shows "represents S U"
proof -
  let ?l = "hash (last (take k xs))"
  have st: "sorted_wrt (<) (map hash (take k xs))" using assms(1) by (simp add: sorted_wrt_take flip: take_map)
  have l: "?l = last (take k (map hash xs))" unfolding take_map using last_map [OF assms(3), of hash] by simp
  have "?l \<in> hash ` set xs" using in_set_takeD [OF last_in_set [OF assms(3)]] by (rule imageI)
  then have t: "?l \<le> t" using assms(2) by auto
  have "hash ` set (take k xs) = {h \<in> hash ` set xs. h \<le> ?l}"
    using strict_take_below [OF assms(1), of k] assms(3) by (simp add: l take_map)
  also have "\<dots> = {h \<in> KMVHash ` U. h \<le> ?l}" using assms(2) t by auto
  finally show ?thesis using st t assms(4-6) by (simp add: represents_def min_def)
qed

lemma DescriptorSketch_contract:
  fixes es ms v Ks
  assumes "list_all2 (\<lambda>r K. represents (sketch r) K) (kmv_ranges v) Ks" "kmv_ranges v \<noteq> []"
  defines "S \<equiv> DescriptorSketch es v ms" and "U \<equiv> \<Union> (set Ks)" and "t \<equiv> ranges_theta (kmv_ranges v)"
  shows "represents S U \<longleftrightarrow> U = {} \<or> (\<exists>k \<in> U. KMVHash k \<le> t)"
    and "length (samples S) = min (eff_samples es ms) (card {h \<in> KMVHash ` U. h \<le> t})"
    and "complete S \<longleftrightarrow> ranges_complete (kmv_ranges v) \<and> card (KMVHash ` U) \<le> eff_samples es ms"
proof -
  let ?k = "eff_samples es ms"
  obtain xs where xs: "sorted_wrt (<) (map hash xs)" "hash ` set xs = {h \<in> KMVHash ` U. h \<le> t}"
    "samples S = take ?k xs" "complete S \<longleftrightarrow> ranges_complete (kmv_ranges v) \<and> length xs \<le> ?k"
    "theta_hash S = (if complete S \<or> take ?k xs = [] then MaxHash else min t (hash (last (take ?k xs))))"
    using DescriptorSketch_parts [OF assms(1,2), of es ms] unfolding S_def U_def t_def by blast
  have all: "h \<le> MaxHash" for h by (simp add: MaxHash_def)
  have len: "card {h \<in> KMVHash ` U. h \<le> t} = length xs"
    using distinct_card [of "map hash xs"] xs(1,2) by (simp add: strict_sorted_iff)
  have full: "{h \<in> KMVHash ` U. h \<le> t} = KMVHash ` U" if "ranges_complete (kmv_ranges v)"
    using represents_ranges_theta_complete [OF assms(1) that] all by (auto simp: t_def)
  have k: "0 < ?k" by (rule eff_samples_pos)
  show "length (samples S) = min ?k (card {h \<in> KMVHash ` U. h \<le> t})" using len xs(3) by simp
  show "complete S \<longleftrightarrow> ranges_complete (kmv_ranges v) \<and> card (KMVHash ` U) \<le> ?k"
    using xs(4) len full by auto
  show "represents S U \<longleftrightarrow> U = {} \<or> (\<exists>k \<in> U. KMVHash k \<le> t)"
  proof (cases "complete S")
    case True
    then have "ranges_complete (kmv_ranges v)" "take ?k xs = xs" using xs(4) by simp_all
    moreover have "t = MaxHash" using represents_ranges_theta_complete [OF assms(1) calculation(1)] by (simp add: t_def)
    ultimately show ?thesis using True xs all by (auto simp: represents_def)
  next
    case False
    show ?thesis
    proof (cases "xs = []")
      case True
      then have n: "{h \<in> KMVHash ` U. h \<le> t} = {}" using xs(2) by simp
      have "represents S U \<longleftrightarrow> U = {}" using False True xs(3,5) all by (auto simp: represents_def)
      with n show ?thesis by auto
    next
      case ne: False
      then have "take ?k xs \<noteq> []" using k by simp
      then have "represents S U" using trimmed_represents [OF xs(1,2) _ xs(3) False] xs(5) False by simp
      moreover have "hash (hd xs) \<in> {h \<in> KMVHash ` U. h \<le> t}"
        using ne unfolding xs(2) [symmetric] by (intro imageI) simp
      ultimately show ?thesis by auto
    qed
  qed
qed

section \<open>Properties\<close>

text \<open>C20: on sorted keys the range buckets cut the key sequence into consecutive slices, one bucket
  per slice, as long as the number of keys times the number of buckets stays below \<open>2 ^ 64\<close>: the
  bucket borders are computed from that product, which wraps (\<open>bucket_index_wraps\<close>). Each bucket carries the first and last key and the length of its slice, and its sketch
  is the bottom-k sample of the slice: the samples are exactly the hashes up to theta, as many as
  the per-range budget allows, and the sketch is complete exactly when the slice fits the budget.\<close>

theorem BuildKMVRangeSketches_sound:
  assumes "sorted keys" "length keys * eff_ranges eb (length keys) mr < 2 ^ 64" "keys \<noteq> []"
  shows "\<exists>kss. concat kss = keys \<and> length kss = eff_ranges eb (length keys) mr \<and>
    list_all2 (bucket_ok (max 1 (eff_samples es ms div eff_ranges eb (length keys) mr)))
      (BuildKMVRangeSketchesFromSortedKeys es eb keys ms mr) kss"
  by (rule BuildKMVRangeSketches_partition [OF assms])

theorem BuildKMVRangeSketches_sound_witness:
  "\<exists>kss. concat kss = [2, 5, 5, 9, 11] \<and> length kss = 2 \<and>
    list_all2 (bucket_ok 2) (BuildKMVRangeSketchesFromSortedKeys None None [2, 5, 5, 9, 11] 4 2) kss"
proof -
  have "eff_ranges None (length [2, 5, 5, 9, 11 :: u64]) 2 = 2" "max 1 (eff_samples None 4 div 2) = 2"
    by (simp_all add: eff_ranges_def eff_samples_def)
  then show ?thesis
    using BuildKMVRangeSketches_sound [of "[2, 5, 5, 9, 11]" None 2 None 4] by simp
qed


text \<open>A bucket with a single key, and a descriptor made of one bucket.\<close>

definition single_bucket :: "u64 \<Rightarrow> KMVRangeSketch" where
  "single_bucket k = \<lparr>r_key_min = k, r_key_max = k, r_num_entries = 1,
     sketch = \<lparr>samples = [\<lparr>hash = KMVHash k\<rparr>], theta_hash = MaxHash, complete = True\<rparr>\<rparr>"

definition single_vsst :: "u64 \<Rightarrow> VirtualSST" where
  "single_vsst k = \<lparr>plr_model = \<lparr>segments = []\<rparr>, kmv_ranges = [single_bucket k],
     key_min = k, key_max = k, num_entries = 1, size_bytes = 0\<rparr>"

text \<open>The second descriptor's only bucket is incomplete and has no sample, so that its sketch says too much.\<close>

definition unsampled_vsst :: "u64 \<Rightarrow> VirtualSST" where
  "unsampled_vsst k = (single_vsst k)
     \<lparr>kmv_ranges := [(single_bucket k)\<lparr>sketch := \<lparr>samples = [], theta_hash = 0, complete = False\<rparr>\<rparr>]\<rparr>"


end
