(* ===== verification/KMV_Union.thy ===== *)
theory KMV_Union
  imports KMV_Sketch
begin

text \<open>
  The union estimates of \<open>db/virtual_compaction/virtual_sst.cc\<close>: the number of distinct
  keys of several descriptors, for the whole key space and for a key range, from the
  ratio of distinct samples to samples. The arithmetic is \<open>long double\<close> (64-bit
  significand), each operation rounded on its own.
\<close>

section \<open>Definitions\<close>

abbreviation ldmul :: "fp \<Rightarrow> fp \<Rightarrow> fp" where "ldmul \<equiv> fp_mul x87ext"
abbreviation lddiv :: "fp \<Rightarrow> fp \<Rightarrow> fp" where "lddiv \<equiv> fp_div x87ext"
abbreviation ldadd :: "fp \<Rightarrow> fp \<Rightarrow> fp" where "ldadd \<equiv> fp_add x87ext"
abbreviation ldu64 :: "u64 \<Rightarrow> fp" where "ldu64 \<equiv> fp_u64 x87ext"

definition ldwide :: "wide \<Rightarrow> fp" where
  "ldwide w = fp_of x87ext (of_int (uint w))"

text \<open>The inputs are pointers, possibly null.\<close>

definition all_ranges :: "VirtualSST option list \<Rightarrow> KMVRangeSketch list" where
  "all_ranges inputs = concat (map (\<lambda>i. case i of None \<Rightarrow> [] | Some v \<Rightarrow> kmv_ranges v) inputs)"

definition sketch_missing :: "VirtualSST option \<Rightarrow> bool" where
  "sketch_missing i =
     (case i of None \<Rightarrow> True
      | Some v \<Rightarrow> kmv_ranges v = [] \<or>
          list_ex (\<lambda>r. samples (sketch r) = [] \<and> \<not> complete (sketch r)) (kmv_ranges v))"

text \<open>\<open>max_samples\<close> has no effect on the result of the code and is left out.\<close>

definition EstimateKMVUnionEntries :: "VirtualSST option list \<Rightarrow> u64 \<Rightarrow> u64 option" where
  "EstimateKMVUnionEntries inputs naive_entries =
     (if inputs = [] \<or> naive_entries = 0 then Some naive_entries
      else if list_ex sketch_missing inputs then Some naive_entries
      else let rs = all_ranges inputs;
               merged_samples = samples_below (ranges_theta rs) rs;
               sampled_entries = (of_nat (length merged_samples) :: u64);
               sampled_unique = of_nat (length (SortUniqueByHash merged_samples))
           in if sampled_entries = 0 then Some naive_entries
              else if sampled_entries \<le> sampled_unique then Some naive_entries
              else let estimate = lddiv (ldmul (ldu64 naive_entries) (ldu64 sampled_unique)) (ldu64 sampled_entries)
                   in map_option (max 1)
                        (if ranges_complete rs then fp_llround_u64 estimate
                         else fp_to_u64 (fp_ceil estimate)))"

definition overlap_pieces :: "VirtualSST option list \<Rightarrow> u64 \<Rightarrow> u64 \<Rightarrow> KMVRangeSketch list" where
  "overlap_pieces inputs kmin kmax =
     concat (map (\<lambda>i. case i of None \<Rightarrow> []
                    | Some v \<Rightarrow> if key_max v < kmin \<or> kmax < key_min v then []
                        else filter (\<lambda>r. \<not> (r_key_max r < kmin \<or> kmax < r_key_min r)) (kmv_ranges v))
                  inputs)"

definition key_span :: "u64 \<Rightarrow> u64 \<Rightarrow> wide" where
  "key_span lo hi = ucast hi - ucast lo + 1"

definition piece_density :: "u64 \<Rightarrow> u64 \<Rightarrow> KMVRangeSketch \<Rightarrow> fp \<Rightarrow> fp" where
  "piece_density kmin kmax r density =
     (let overlap_min = max (r_key_min r) kmin;
          overlap_max = min (r_key_max r) kmax
      in if overlap_min \<le> overlap_max \<and> 0 < r_num_entries r \<and> 0 < key_span (r_key_min r) (r_key_max r)
         then ldadd density
                (lddiv (ldmul (ldu64 (r_num_entries r)) (ldwide (key_span overlap_min overlap_max)))
                   (ldwide (key_span (r_key_min r) (r_key_max r))))
         else density)"

definition samples_in_range :: "u64 \<Rightarrow> u64 \<Rightarrow> KMVSample list \<Rightarrow> KMVSample list" where
  "samples_in_range kmin kmax xs = filter (\<lambda>s. kmin \<le> sample_key s \<and> sample_key s \<le> kmax) xs"

definition EstimateKMVUnionEntriesForRange :: "VirtualSST option list \<Rightarrow> u64 \<Rightarrow> u64 \<Rightarrow> u64 option" where
  "EstimateKMVUnionEntriesForRange inputs kmin kmax =
     (if inputs = [] \<or> kmax < kmin then Some 0
      else let pieces = overlap_pieces inputs kmin kmax in
      if pieces = [] then Some 0
      else let input_entries_cap = fold (\<lambda>r c. c + r_num_entries r) pieces 0;
               density_estimate = fold (piece_density kmin kmax) pieces (Fin 0) in
      if input_entries_cap = 0 then Some 0
      else let merged_samples = samples_in_range kmin kmax (samples_below (ranges_theta pieces) pieces);
               sampled_entries = (of_nat (length merged_samples) :: u64);
               sampled_unique = of_nat (length (SortUniqueByHash merged_samples));
               in_range = fp_min density_estimate (ldu64 input_entries_cap)
           in if sampled_entries = 0 \<or> sampled_entries \<le> sampled_unique
              then map_option (min input_entries_cap) (fp_to_u64 (fp_ceil in_range))
              else let estimate = lddiv (ldmul in_range (ldu64 sampled_unique)) (ldu64 sampled_entries)
                   in map_option (\<lambda>e. min input_entries_cap (max 1 e)) (fp_to_u64 (fp_ceil estimate)))"

section \<open>Extended-precision ratios\<close>

abbreviation rnd80 :: "rat \<Rightarrow> rat" where "rnd80 \<equiv> rnd x87ext"

lemma ldmul_Fin: "\<bar>x * y\<bar> \<le> 2 ^ 200 \<Longrightarrow> ldmul (Fin x) (Fin y) = Fin (rnd80 (x * y))"
  using fp80_Fin [of "x * y"] by (simp add: fp_mul.simps)

lemma lddiv_Fin: "y \<noteq> 0 \<Longrightarrow> \<bar>x / y\<bar> \<le> 2 ^ 200 \<Longrightarrow> lddiv (Fin x) (Fin y) = Fin (rnd80 (x / y))"
  using fp80_Fin [of "x / y"] by (simp add: fp_div.simps)

lemma fp_u64_80: "ldu64 n = Fin (of_int (uint n))"
proof -
  have "\<bar>of_int (uint n) :: rat\<bar> \<le> 2 ^ 200" using u64_rat_bounds [of n] by simp
  then show ?thesis using r80.exact [OF repr80_u64, of n] by (simp add: fp_u64_def fp80_Fin)
qed

lemma repr80_power: "repr x87ext (2 ^ n)"
  using repr_pow2 [of x87ext "int n"] by simp

lemma rnd80_le_power: "\<bar>x\<bar> \<le> 2 ^ n \<Longrightarrow> \<bar>rnd80 x\<bar> \<le> 2 ^ n"
  using rnd_abs_le [OF _ repr80_power] by simp

text \<open>The rounded product with a numerator below the denominator stays below the exact bound.\<close>

lemma rnd80_product_le:
  assumes "0 \<le> q" "q \<le> of_int c" "1 \<le> c" "0 \<le> u" "u < s" "s < 2 ^ 64"
  shows "rnd80 (q * of_int u) \<le> of_int c * of_int s"
proof (cases "u = 0")
  case True
  then show ?thesis using assms by simp
next
  case False
  then have u: "1 \<le> u" using assms by simp
  let ?x = "of_int c * of_int u :: rat"
  have "1 \<le> c * u" using u assms(3) by (metis mult_le_mono2 less_imp_le mult.right_neutral mult_mono' zero_le_one mult_1)
  then have x: "1 \<le> ?x" by (metis of_int_1_le_iff of_int_mult)
  have "\<bar>rnd80 ?x - ?x\<bar> \<le> ?x / 2 ^ 64" using rnd_error [OF x, of x87ext] by simp
  then have "rnd80 ?x - ?x \<le> ?x / 2 ^ 64" by (rule abs_le_D1)
  then have "rnd80 ?x \<le> ?x + ?x / 2 ^ 64" by (simp only: diff_le_eq add.commute)
  also have "?x / 2 ^ 64 \<le> of_int c"
  proof -
    have "(of_int u :: rat) \<le> of_int (2 ^ 64)" using assms by (simp only: of_int_le_iff)
    then have "?x \<le> of_int c * 2 ^ 64" using assms(3) by (intro mult_left_mono) auto
    then show ?thesis by (simp add: divide_le_eq)
  qed
  also have "?x + of_int c = of_int c * of_int (u + 1)" by (simp add: algebra_simps)
  also have "\<dots> \<le> of_int c * of_int s" using assms by (intro mult_left_mono) simp_all
  finally have "rnd80 ?x \<le> of_int c * of_int s" by simp
  moreover have "rnd80 (q * of_int u) \<le> rnd80 ?x"
    using assms by (intro r80.mono mult_right_mono) simp_all
  ultimately show ?thesis by simp
qed

text \<open>The scaled estimate of both functions: finite, and between zero and the bound.\<close>

lemma ratio_estimate:
  fixes n u s :: u64
  assumes "0 \<le> q" "q \<le> of_int (uint n)" "n \<noteq> 0" "u < s"
  obtains v where "lddiv (ldmul (Fin q) (ldu64 u)) (ldu64 s) = Fin v" "0 \<le> v" "v \<le> of_int (uint n)"
    "v = rnd80 (rnd80 (q * of_int (uint u)) / of_int (uint s))"
proof -
  let ?n = "of_int (uint n) :: rat" and ?u = "of_int (uint u) :: rat" and ?s = "of_int (uint s) :: rat"
  have "uint n \<noteq> 0" using assms(3) by (simp add: uint_0_iff)
  then have "1 \<le> uint n" using uint_ge_0 [of n] by linarith
  then have us: "uint u < uint s" "0 \<le> uint u" "uint s < 2 ^ 64" "1 \<le> uint n"
    using assms(4) uint_u64_less [of s] by (auto simp: word_less_def)
  have "1 \<le> uint s" using us by linarith
  then have s: "1 \<le> ?s" by (simp only: of_int_1_le_iff)
  have nn: "0 \<le> ?u" "?u \<le> 2 ^ 64" "?n \<le> 2 ^ 64" using u64_rat_bounds [of u] u64_rat_bounds [of n] by auto
  have "q * ?u \<le> 2 ^ 64 * 2 ^ 64" using assms(1,2) nn by (intro mult_mono) auto
  then have p: "0 \<le> q * ?u" "\<bar>q * ?u\<bar> \<le> 2 ^ 128" using assms(1) nn by auto
  let ?p = "rnd80 (q * ?u)"
  have pp: "0 \<le> ?p" "?p \<le> ?n * ?s"
    using rnd_nonneg [OF p(1)] rnd80_product_le [OF assms(1,2) us(4,2,1,3)] by auto
  then have d: "0 \<le> ?p / ?s" "?p / ?s \<le> ?n" using s by (auto simp: divide_le_eq)
  have f: "ldmul (Fin q) (ldu64 u) = Fin ?p" using p(2) by (simp add: fp_u64_80 ldmul_Fin)
  have "lddiv (ldmul (Fin q) (ldu64 u)) (ldu64 s) = Fin (rnd80 (?p / ?s))"
    unfolding f unfolding fp_u64_80 using d s nn(3) by (intro lddiv_Fin) auto
  moreover have "0 \<le> rnd80 (?p / ?s)" using d(1) by (rule rnd_nonneg)
  moreover have "rnd80 (?p / ?s) \<le> ?n" using d(2) by (rule r80.le_rep) (rule repr80_u64)
  ultimately show thesis using that by blast
qed

section \<open>Casts of the estimates\<close>

lemma uint_u64_of_int: "0 \<le> k \<Longrightarrow> k < 18446744073709551616 \<Longrightarrow> uint (of_int k :: u64) = k"
  by (simp add: uint_word_of_int)

lemma uint_of_nat_u64: "int n < 18446744073709551616 \<Longrightarrow> uint (of_nat n :: u64) = int n"
  using uint_u64_of_int [of "int n"] by simp

lemma fp_to_u64_int: "0 \<le> k \<Longrightarrow> k < 18446744073709551616 \<Longrightarrow> fp_to_u64 (Fin (of_int k)) = Some (of_int k)"
  by (simp add: order.strict_trans2 [of "- 1" 0])

lemma cast_ceil:
  fixes n :: u64
  assumes "0 \<le> v" "v \<le> of_int (uint n)"
  obtains k where "fp_to_u64 (fp_ceil (Fin v)) = Some k" "uint k = \<lceil>v\<rceil>" "k \<le> n"
proof -
  have c: "0 \<le> \<lceil>v\<rceil>" "\<lceil>v\<rceil> \<le> uint n" using assms by (auto simp: ceiling_le_iff)
  then have lt: "\<lceil>v\<rceil> < 18446744073709551616" using uint_u64_less [of n] by linarith
  then have "fp_to_u64 (fp_ceil (Fin v)) = Some (of_int \<lceil>v\<rceil>)"
    using c(1) by (simp only: fp_ceil.simps fp_to_u64_int)
  moreover have "uint (of_int \<lceil>v\<rceil> :: u64) = \<lceil>v\<rceil>" using c(1) lt by (rule uint_u64_of_int)
  ultimately show thesis using that c(2) by (simp add: word_le_def)
qed

lemma cast_llround:
  fixes n :: u64
  assumes "0 \<le> v" "v \<le> of_int (uint n)" "uint n < 2 ^ 63"
  obtains k where "fp_llround_u64 (Fin v) = Some k" "uint k = round_away v" "k \<le> n"
proof -
  have r: "0 \<le> round_away v" "round_away v \<le> uint n" using round_away_between [of 0 v "uint n"] assms by auto
  then have "fp_llround_u64 (Fin v) = Some (of_int (round_away v))" using assms(3) by (simp add: Let_def)
  moreover have "uint (of_int (round_away v) :: u64) = round_away v"
    using r assms(3) by (intro uint_u64_of_int) auto
  ultimately show thesis using that r(2) by (simp add: word_le_def)
qed

lemma EstimateKMVUnion_bounded:
  assumes "naive \<noteq> 0" "uint naive < 2 ^ 63"
  shows "\<exists>r. EstimateKMVUnionEntries inputs naive = Some r \<and> 1 \<le> r \<and> r \<le> naive"
proof -
  define rs where "rs = all_ranges inputs"
  define ms where "ms = samples_below (ranges_theta rs) rs"
  define s u :: u64 where "s = of_nat (length ms)" and "u = of_nat (length (SortUniqueByHash ms))"
  have n1: "1 \<le> naive" using assms(1) by (simp add: u64_le_iff unat_u64_pos_iff Suc_le_eq)
  have keep: "\<exists>r. Some naive = Some r \<and> 1 \<le> r \<and> r \<le> naive" using n1 by simp
  let ?e = "lddiv (ldmul (ldu64 naive) (ldu64 u)) (ldu64 s)"
  have E: "EstimateKMVUnionEntries inputs naive =
      (if inputs = [] \<or> list_ex sketch_missing inputs \<or> s = 0 \<or> s \<le> u then Some naive
       else map_option (max 1) (if ranges_complete rs then fp_llround_u64 ?e else fp_to_u64 (fp_ceil ?e)))"
    using assms(1) by (simp add: EstimateKMVUnionEntries_def Let_def rs_def ms_def s_def u_def)
  show ?thesis
  proof (cases "inputs = [] \<or> list_ex sketch_missing inputs \<or> s = 0 \<or> s \<le> u")
    case False
    then have "\<not> s \<le> u" by blast
    then have us: "u < s" by (simp only: not_le)
    obtain v where v: "?e = Fin v" "0 \<le> v" "v \<le> of_int (uint naive)"
      unfolding fp_u64_80 [of naive]
      by (rule ratio_estimate [OF _ order_refl assms(1) us]) (auto simp: u64_rat_bounds)
    obtain k1 where k1: "fp_llround_u64 (Fin v) = Some k1" "k1 \<le> naive"
      by (rule cast_llround [OF v(2,3) assms(2)])
    obtain k2 where k2: "fp_to_u64 (fp_ceil (Fin v)) = Some k2" "k2 \<le> naive"
      by (rule cast_ceil [OF v(2,3)])
    let ?k = "if ranges_complete rs then k1 else k2"
    have "EstimateKMVUnionEntries inputs naive = Some (max 1 ?k)"
      using E False unfolding v(1) k1(1) k2(1) by simp
    moreover have "max 1 ?k \<le> naive" using k1(2) k2(2) n1 by simp
    ultimately show ?thesis by (intro exI [of _ "max 1 ?k"]) (simp only: max.cobounded1 simp_thms)
  qed (use E keep in simp)
qed

section \<open>Exactness\<close>

lemma represents_distinct: "represents S K \<Longrightarrow> distinct (samples S)"
  by (auto simp: represents_def strict_sorted_iff distinct_map)

text \<open>Samples of disjoint key sets are distinct.\<close>

lemma samples_below_distinct:
  assumes "list_all2 (\<lambda>r K. represents (sketch r) K) rs Ks" "sorted_wrt disjnt Ks"
    and "\<forall>r \<in> set rs. t \<le> theta_hash (sketch r)"
  shows "distinct (samples_below t rs)"
  using assms
proof (induction rule: list_all2_induct)
  case (Cons r rs K Ks)
  let ?a = "filter (\<lambda>s. hash s \<le> t) (samples (sketch r))"
  have "hash ` set ?a \<subseteq> KMVHash ` K" using Cons.hyps(1) by (auto simp: represents_def)
  moreover have "hash ` set (samples_below t rs) \<subseteq> KMVHash ` \<Union> (set Ks)"
    using samples_below_hashes [OF Cons.hyps(2)] Cons.prems(2) by auto
  moreover have "K \<inter> \<Union> (set Ks) = {}" using Cons.prems(1) by (simp add: disjnt_def Int_Union)
  then have "KMVHash ` K \<inter> KMVHash ` \<Union> (set Ks) = {}"
    unfolding image_Int [OF inj_KMVHash, symmetric] by simp
  ultimately have "set ?a \<inter> set (samples_below t rs) = {}" by blast
  moreover have "distinct (samples_below t rs)" using Cons.IH Cons.prems by simp
  ultimately show ?case
    using represents_distinct [OF Cons.hyps(1)] by (auto simp: samples_below_def)
qed (simp add: samples_below_def)

lemma SortUnique_length_distinct: "distinct xs \<Longrightarrow> length (SortUniqueByHash xs) = length xs"
  by (simp add: SortUniqueByHash_length distinct_card)

lemma EstimateKMVUnion_disjoint:
  assumes "list_all2 (\<lambda>r K. represents (sketch r) K) (all_ranges inputs) Ks" "sorted_wrt disjnt Ks"
  shows "EstimateKMVUnionEntries inputs naive = Some naive"
  using samples_below_distinct [OF assms, of "ranges_theta (all_ranges inputs)"] ranges_theta_le
  by (auto simp: EstimateKMVUnionEntries_def Let_def SortUnique_length_distinct)

text \<open>A complete sketch samples every key once.\<close>

lemma complete_samples:
  assumes "represents S K" "complete S"
  shows "hash ` set (samples S) = KMVHash ` K" "length (samples S) = card K"
proof -
  show h: "hash ` set (samples S) = KMVHash ` K" using assms by (auto simp: represents_def MaxHash_def)
  have "length (samples S) = card (set (samples S))" using represents_distinct [OF assms(1)] by (simp add: distinct_card)
  also have "\<dots> = card (hash ` set (samples S))" by (simp add: card_image inj_on_subset [OF inj_hash])
  finally show "length (samples S) = card K" by (simp add: h card_image inj_on_subset [OF inj_KMVHash])
qed

lemma complete_samples_below:
  assumes "list_all2 (\<lambda>r K. represents (sketch r) K) rs Ks" "ranges_complete rs"
  shows "length (samples_below MaxHash rs) = sum_list (map card Ks) \<and>
    hash ` set (samples_below MaxHash rs) = KMVHash ` \<Union> (set Ks)"
  using assms
proof (induction rule: list_all2_induct)
  case (Cons r rs K Ks)
  have c: "complete (sketch r)" "ranges_complete rs" using Cons.prems by (auto simp: ranges_complete_iff)
  have f: "filter (\<lambda>s. hash s \<le> MaxHash) (samples (sketch r)) = samples (sketch r)" by (simp add: MaxHash_def)
  then have "samples_below MaxHash (r # rs) = samples (sketch r) @ samples_below MaxHash rs"
    by (simp add: samples_below_def)
  then show ?case using Cons.IH [OF c(2)] complete_samples [OF Cons.hyps(1) c(1)] by (simp add: image_Un)
qed (auto simp: samples_below_def)

text \<open>The ratio of exact counts rounds back to the distinct count.\<close>

lemma abs_bounds: "\<bar>a - b\<bar> \<le> (c :: rat) \<Longrightarrow> b - c \<le> a \<and> a \<le> b + c"
  by linarith

lemma exact_ratio_rounds:
  assumes "1 \<le> u" "u < n" "n < 2 ^ 61"
  shows "round_away (rnd80 (rnd80 (of_int n * of_int u) / of_int n)) = u"
proof -
  define N U e :: rat where "N = of_int n" and "U = of_int u" and "e = 1 / 2 ^ 64"
  define x where "x = rnd80 (N * U) / N"
  define y where "y = rnd80 x"
  have "u \<le> 2 ^ 61" using assms by linarith
  then have "U \<le> of_int (2 ^ 61)" unfolding U_def by (simp only: of_int_le_iff)
  then have u61: "U \<le> 2 ^ 61" by simp
  have nu: "1 \<le> N" "1 \<le> U" using assms by (simp_all add: N_def U_def)
  have ue: "U * e \<le> 1 / 8" "(U + 1) * e \<le> 1 / 8 + e" "0 < e" "e < 1 / 8"
    using u61 by (simp_all add: e_def algebra_simps)
  have p: "1 \<le> N * U" using nu mult_mono [of 1 N 1 U] by simp
  have "\<bar>rnd80 (N * U) - N * U\<bar> \<le> (N * U) * e" using rnd_error [OF p, of x87ext] by (simp add: e_def)
  then have "\<bar>rnd80 (N * U) - N * U\<bar> / N \<le> U * e"
    using nu(1) by (simp add: divide_le_eq mult.commute mult.left_commute)
  moreover have "x - U = (rnd80 (N * U) - N * U) / N" using nu(1) by (simp add: x_def diff_divide_distrib)
  ultimately have "\<bar>x - U\<bar> \<le> U * e" using nu(1) by simp
  then have x: "U - U * e \<le> x" "x \<le> U + U * e" using abs_bounds by blast+
  have "repr x87ext N" unfolding N_def using assms by (intro repr_int) auto
  then have "N \<le> rnd80 (N * U)" using nu mult_left_mono [of 1 U N] by (intro r80.ge_rep) auto
  then have q: "1 \<le> x" using nu(1) by (simp add: x_def le_divide_eq)
  have "\<bar>y - x\<bar> \<le> x * e" using rnd_error [OF q, of x87ext] by (simp add: e_def y_def)
  moreover have "x * e \<le> (U + 1) * e" using x(2) ue by (intro mult_right_mono) auto
  ultimately have "\<bar>y - x\<bar> \<le> 1 / 8 + e" using ue by linarith
  then have y: "U - 1 / 2 < y" "y < U + 1 / 2" using abs_bounds [of y x "1 / 8 + e"] x ue by linarith+
  then have "0 \<le> y" using nu(2) by linarith
  then have "round_away y = u"
    using y unfolding round_away_def U_def by (simp add: floor_eq_iff)
  then show ?thesis by (simp add: y_def x_def N_def U_def)
qed

lemma EstimateKMVUnion_complete:
  assumes "list_all2 (\<lambda>r K. represents (sketch r) K) (all_ranges inputs) Ks"
    and "ranges_complete (all_ranges inputs)" "\<forall>i \<in> set inputs. \<exists>v. i = Some v \<and> kmv_ranges v \<noteq> []"
    and "uint naive = int (sum_list (map card Ks))" "uint naive < 2 ^ 61"
  shows "map_option uint (EstimateKMVUnionEntries inputs naive) = Some (int (card (\<Union> (set Ks))))"
proof -
  define rs where "rs = all_ranges inputs"
  define ms where "ms = samples_below (ranges_theta rs) rs"
  define S U where "S = sum_list (map card Ks)" and "U = card (\<Union> (set Ks))"
  have theta: "ranges_theta rs = MaxHash"
    using represents_ranges_theta_complete assms(1,2) by (simp add: rs_def)
  have len: "length ms = S" and h: "hash ` set ms = KMVHash ` \<Union> (set Ks)"
    using complete_samples_below [OF assms(1,2)] by (simp_all add: ms_def theta S_def flip: rs_def)
  have "length (SortUniqueByHash ms) = card (hash ` set ms)"
    by (simp add: SortUniqueByHash_length card_image inj_on_subset [OF inj_hash])
  then have uniq: "length (SortUniqueByHash ms) = U" by (simp add: h U_def card_image inj_on_subset [OF inj_KMVHash])
  have "U \<le> S" using card_length [of ms] by (simp add: SortUniqueByHash_length flip: uniq len)
  have S: "int S < 2 ^ 61" "uint naive = int S" using assms(4,5) by (simp_all add: S_def)
  have "int S < 18446744073709551616" "int U < 18446744073709551616" using S(1) \<open>U \<le> S\<close> by simp_all
  note w = this [THEN uint_of_nat_u64]
  have nv: "naive = of_nat S" using S(2) w(1) by (simp add: word_uint_eq_iff)
  have nm: "\<not> list_ex sketch_missing inputs"
    using assms(2,3) by (fastforce simp: list_ex_iff sketch_missing_def ranges_complete_iff all_ranges_def
        split: option.splits)
  let ?e = "lddiv (ldmul (ldu64 naive) (ldu64 (of_nat U))) (ldu64 (of_nat S))"
  have E: "EstimateKMVUnionEntries inputs naive =
      (if inputs = [] \<or> S = 0 \<or> S \<le> U then Some naive else map_option (max 1) (fp_llround_u64 ?e))"
  proof -
    have "(of_nat S :: u64) = 0 \<longleftrightarrow> S = 0" "(of_nat S :: u64) \<le> of_nat U \<longleftrightarrow> S \<le> U"
      using w by (simp_all add: word_uint_eq_iff word_le_def)
    then show ?thesis
      using nm assms(2) nv
      by (simp add: EstimateKMVUnionEntries_def Let_def rs_def [symmetric] ms_def [symmetric] len uniq)
  qed
  show ?thesis
  proof (cases "inputs = [] \<or> S = 0 \<or> S \<le> U")
    case True
    then have "S = U"
    proof (elim disjE)
      assume "inputs = []"
      then show "S = U" using assms(1) by (simp add: all_ranges_def S_def U_def)
    qed (use \<open>U \<le> S\<close> in auto)
    then show ?thesis using True E S(2) by (simp add: U_def)
  next
    case False
    then have lt: "0 < S" "U < S" by auto
    have "(of_nat U :: u64) < of_nat S" using lt w by (simp add: word_less_def)
    moreover have "naive \<noteq> 0" using lt S(2) by auto
    ultimately obtain v where v: "?e = Fin v" "0 \<le> v" "v \<le> of_int (uint naive)"
        "v = rnd80 (rnd80 (of_int (uint naive) * of_int (uint (of_nat U :: u64))) / of_int (uint (of_nat S :: u64)))"
      unfolding fp_u64_80 [of naive]
      by (elim ratio_estimate [OF u64_rat_bounds(1) order_refl, rotated])
    have "0 < U"
    proof -
      have "ms \<noteq> []" using lt len by auto
      then show ?thesis using uniq by (metis SortUniqueByHash_set length_greater_0_conv set_empty)
    qed
    then have r: "round_away v = int U" unfolding v(4) w S(2) using lt S(1) by (intro exact_ratio_rounds) auto
    have n63: "uint naive < 2 ^ 63" using assms(5) by simp
    obtain k where k: "fp_llround_u64 (Fin v) = Some k" "uint k = int U"
      using cast_llround [OF v(2,3)] r n63 by metis
    have "max 1 k = k" using \<open>0 < U\<close> k(2) by (simp add: max_def word_le_def)
    then have "EstimateKMVUnionEntries inputs naive = Some k" using False E unfolding v(1) k(1) by simp
    then show ?thesis using k(2) by (simp add: U_def)
  qed
qed

section \<open>The range estimate\<close>

text \<open>Values a sum of densities can take.\<close>

definition nonneg_fp :: "fp \<Rightarrow> bool" where
  "nonneg_fp x \<longleftrightarrow> x = PInf \<or> (\<exists>q \<ge> 0. x = Fin q)"

lemma fp_of_nonneg: "0 \<le> x \<Longrightarrow> nonneg_fp (fp_of x87ext x)"
  using rnd_nonneg [of x x87ext] by (auto simp: fp_of_def Let_def nonneg_fp_def)

lemma ldadd_nonneg:
  assumes "nonneg_fp a" "nonneg_fp b"
  shows "nonneg_fp (ldadd a b)"
proof -
  have "nonneg_fp (fp_of x87ext (p + q))" if "0 \<le> p" "0 \<le> q" for p q
    using that by (intro fp_of_nonneg) simp
  then show ?thesis
    using assms unfolding nonneg_fp_def [of a] nonneg_fp_def [of b]
    by (auto simp: fp_add.simps) (simp_all add: nonneg_fp_def)
qed

lemma ldwide_Fin:
  obtains x where "ldwide w = Fin x" "0 \<le> x" "x \<le> 2 ^ 128" "w \<noteq> 0 \<longrightarrow> 1 \<le> x"
proof -
  have "(of_int (uint w) :: rat) < of_int (2 ^ 128)" using uint_lt2p [of w] by (simp only: of_int_less_iff) simp
  then have b: "0 \<le> (of_int (uint w) :: rat)" "\<bar>of_int (uint w) :: rat\<bar> \<le> 2 ^ 128" by auto
  have "ldwide w = Fin (rnd80 (of_int (uint w)))" using b(2) by (simp add: ldwide_def fp80_Fin)
  moreover have "0 \<le> rnd80 (of_int (uint w))" using b(1) by (rule rnd_nonneg)
  moreover have "\<bar>rnd80 (of_int (uint w))\<bar> \<le> 2 ^ 128" using b(2) by (rule rnd80_le_power)
  moreover have "1 \<le> rnd80 (of_int (uint w))" if "w \<noteq> 0"
  proof -
    have "uint w \<noteq> 0" using that by (simp add: uint_0_iff)
    then have "1 \<le> uint w" using uint_ge_0 [of w] by linarith
    then have "1 \<le> (of_int (uint w) :: rat)" by (simp only: of_int_1_le_iff)
    then show ?thesis using repr80_power [of 0] by (intro r80.ge_rep) auto
  qed
  ultimately show thesis using that by auto
qed

lemma piece_density_nonneg: "nonneg_fp d \<Longrightarrow> nonneg_fp (piece_density kmin kmax r d)"
proof -
  assume d: "nonneg_fp d"
  let ?o = "key_span (max (r_key_min r) kmin) (min (r_key_max r) kmax)" and ?p = "key_span (r_key_min r) (r_key_max r)"
  have "nonneg_fp (lddiv (ldmul (ldu64 (r_num_entries r)) (ldwide ?o)) (ldwide ?p))" if "0 < ?p"
  proof -
    let ?e = "of_int (uint (r_num_entries r)) :: rat"
    obtain x where x: "ldwide ?o = Fin x" "0 \<le> x" "x \<le> 2 ^ 128" by (rule ldwide_Fin [of ?o])
    obtain y where y: "ldwide ?p = Fin y" "?p \<noteq> 0 \<longrightarrow> 1 \<le> y" by (rule ldwide_Fin [of ?p])
    have y1: "1 \<le> y" using y(2) that by auto
    have "?e * x \<le> 2 ^ 64 * 2 ^ 128"
      using x u64_rat_bounds [of "r_num_entries r"] by (intro mult_mono) auto
    then have ex: "0 \<le> ?e * x" "\<bar>?e * x\<bar> \<le> 2 ^ 192" using x(2) u64_rat_bounds(1) [of "r_num_entries r"] by auto
    then have "ldmul (ldu64 (r_num_entries r)) (ldwide ?o) = Fin (rnd80 (?e * x))"
      unfolding x(1) fp_u64_80 by (intro ldmul_Fin) simp
    moreover have "0 \<le> rnd80 (?e * x) / y" using rnd_nonneg [OF ex(1)] y1 by simp
    ultimately show ?thesis using y1 fp_of_nonneg [of "rnd80 (?e * x) / y"] by (simp add: y(1) fp_div.simps)
  qed
  then show ?thesis using d by (auto simp: piece_density_def Let_def intro: ldadd_nonneg)
qed

lemma density_nonneg: "nonneg_fp d \<Longrightarrow> nonneg_fp (fold (piece_density kmin kmax) rs d)"
  by (induction rs arbitrary: d) (auto intro: piece_density_nonneg)

lemma in_range_Fin:
  assumes "nonneg_fp d"
  obtains q where "fp_min d (ldu64 c) = Fin q" "0 \<le> q" "q \<le> of_int (uint c)"
proof (cases d)
  case (Fin q)
  let ?m = "min q (of_int (uint c))"
  have "fp_min d (ldu64 c) = Fin ?m" by (simp add: Fin fp_min_def fp_u64_80 min_def)
  moreover have "0 \<le> ?m" using assms u64_rat_bounds(1) [of c] by (simp add: Fin nonneg_fp_def)
  ultimately show thesis using that [of ?m] by simp
qed (use assms that [of "of_int (uint c)"] u64_rat_bounds(1) [of c] in
    \<open>auto simp: nonneg_fp_def fp_min_def fp_u64_80\<close>)

definition entries_cap :: "VirtualSST option list \<Rightarrow> u64 \<Rightarrow> u64 \<Rightarrow> u64" where
  "entries_cap inputs kmin kmax = fold (\<lambda>r c. c + r_num_entries r) (overlap_pieces inputs kmin kmax) 0"

lemma EstimateKMVUnionForRange_bounded:
  "\<exists>r. EstimateKMVUnionEntriesForRange inputs kmin kmax = Some r \<and> r \<le> entries_cap inputs kmin kmax"
proof -
  define ps where "ps = overlap_pieces inputs kmin kmax"
  define c where "c = entries_cap inputs kmin kmax"
  define ms where "ms = samples_in_range kmin kmax (samples_below (ranges_theta ps) ps)"
  define s u :: u64 where "s = of_nat (length ms)" and "u = of_nat (length (SortUniqueByHash ms))"
  define d where "d = fold (piece_density kmin kmax) ps (Fin 0)"
  have "nonneg_fp d" unfolding d_def by (rule density_nonneg) (simp add: nonneg_fp_def)
  then obtain q where q: "fp_min d (ldu64 c) = Fin q" "0 \<le> q" "q \<le> of_int (uint c)" by (rule in_range_Fin)
  obtain k where k: "fp_to_u64 (fp_ceil (Fin q)) = Some k" by (rule cast_ceil [OF q(2,3)])
  have E: "EstimateKMVUnionEntriesForRange inputs kmin kmax =
      (if inputs = [] \<or> kmax < kmin \<or> ps = [] \<or> c = 0 then Some 0
       else if s = 0 \<or> s \<le> u then Some (min c k)
       else map_option (\<lambda>e. min c (max 1 e)) (fp_to_u64 (fp_ceil (lddiv (ldmul (Fin q) (ldu64 u)) (ldu64 s)))))"
    using k
    by (simp add: EstimateKMVUnionEntriesForRange_def Let_def ps_def [symmetric] d_def [symmetric]
        ms_def [symmetric] c_def entries_cap_def s_def [symmetric] u_def [symmetric] q(1) [unfolded c_def entries_cap_def, folded ps_def]
        del: fp_ceil.simps fp_to_u64.simps)
  consider "inputs = [] \<or> kmax < kmin \<or> ps = [] \<or> c = 0"
    | "\<not> (inputs = [] \<or> kmax < kmin \<or> ps = [] \<or> c = 0)" "s = 0 \<or> s \<le> u"
    | "c \<noteq> 0" "u < s" "\<not> (inputs = [] \<or> kmax < kmin \<or> ps = [] \<or> c = 0)" "\<not> (s = 0 \<or> s \<le> u)"
    by (metis not_le)
  then have "\<exists>r. EstimateKMVUnionEntriesForRange inputs kmin kmax = Some r \<and> r \<le> c"
  proof cases
    case 3
    obtain v where v: "lddiv (ldmul (Fin q) (ldu64 u)) (ldu64 s) = Fin v" "0 \<le> v" "v \<le> of_int (uint c)"
      by (rule ratio_estimate [OF q(2,3) 3(1,2)])
    obtain j where "fp_to_u64 (fp_ceil (Fin v)) = Some j" by (rule cast_ceil [OF v(2,3)])
    then have "EstimateKMVUnionEntriesForRange inputs kmin kmax = Some (min c (max 1 j))"
      using 3(3,4) by (simp add: E v(1) del: fp_ceil.simps fp_to_u64.simps)
    then show ?thesis by (intro exI) (rule conjI, assumption, rule min.cobounded1)
  qed (simp_all add: E)
  then show ?thesis by (simp add: c_def)
qed

section \<open>Properties\<close>

text \<open>C18: when every range sketch is complete, the estimate is the exact number of distinct keys of
  the union, for any overlap of the inputs and up to \<open>2 ^ 61\<close> entries: the two rounded
  \<open>long double\<close> operations and \<open>llround\<close> lose nothing.\<close>

theorem EstimateKMVUnionEntries_exact:
  assumes "list_all2 (\<lambda>r K. represents (sketch r) K) (all_ranges inputs) Ks"
    and "ranges_complete (all_ranges inputs)" "\<forall>i \<in> set inputs. \<exists>v. i = Some v \<and> kmv_ranges v \<noteq> []"
    and "uint naive = int (sum_list (map card Ks))" "uint naive < 2 ^ 61"
  shows "map_option uint (EstimateKMVUnionEntries inputs naive) = Some (int (card (\<Union> (set Ks))))"
  by (rule EstimateKMVUnion_complete [OF assms])

lemma single_represents: "represents (sketch (single_bucket k)) {k}"
  by (auto simp: single_bucket_def represents_def MaxHash_def)

theorem EstimateKMVUnionEntries_exact_witness:
  "map_option uint (EstimateKMVUnionEntries [Some (single_vsst 7), Some (single_vsst 9), Some (single_vsst 7)] 3)
     = Some (int (card ({7, 9} :: u64 set)))"
proof -
  let ?i = "[Some (single_vsst 7), Some (single_vsst 9), Some (single_vsst 7)]"
  have r: "all_ranges ?i = [single_bucket 7, single_bucket 9, single_bucket 7]"
    by (simp add: all_ranges_def single_vsst_def)
  have c: "ranges_complete (all_ranges ?i)" by (simp add: r ranges_complete_def single_bucket_def)
  have "{7, 9, 7 :: u64} = {7, 9}" by auto
  then show ?thesis
    using EstimateKMVUnionEntries_exact [of ?i "[{7}, {9}, {7}]" 3, OF _ c]
    by (simp add: r single_represents) (simp add: single_vsst_def)
qed

text \<open>C33: inputs whose key sets are disjoint keep their whole entry count, whatever part of the keys
  the sketches sample: no sampling noise, as the comment in the code promises.\<close>

theorem EstimateKMVUnionEntries_disjoint:
  assumes "list_all2 (\<lambda>r K. represents (sketch r) K) (all_ranges inputs) Ks" "sorted_wrt disjnt Ks"
  shows "EstimateKMVUnionEntries inputs naive = Some naive"
  by (rule EstimateKMVUnion_disjoint [OF assms])

theorem EstimateKMVUnionEntries_disjoint_witness:
  "EstimateKMVUnionEntries [Some (single_vsst 7), Some (single_vsst 9)] 100 = Some 100"
proof -
  have "all_ranges [Some (single_vsst 7), Some (single_vsst 9)] = [single_bucket 7, single_bucket 9]"
    by (simp add: all_ranges_def single_vsst_def)
  then show ?thesis
    using EstimateKMVUnionEntries_disjoint [of "[Some (single_vsst 7), Some (single_vsst 9)]" "[{7}, {9}]"]
    by (simp add: single_represents)
qed

text \<open>for a positive entry count below \<open>2 ^ 63\<close> the estimate is defined, at least one and at most
  the entry count, for any inputs: the casts of the code never leave their range.\<close>

theorem EstimateKMVUnionEntries_range:
  assumes "naive \<noteq> 0" "uint naive < 2 ^ 63"
  shows "\<exists>r. EstimateKMVUnionEntries inputs naive = Some r \<and> 1 \<le> r \<and> r \<le> naive"
  by (rule EstimateKMVUnion_bounded [OF assms])

theorem EstimateKMVUnionEntries_range_witness:
  "\<exists>r. EstimateKMVUnionEntries [Some (single_vsst 7), Some (single_vsst 7)] 1000 = Some r \<and> 1 \<le> r \<and> r \<le> 1000"
  using EstimateKMVUnionEntries_range [of 1000 "[Some (single_vsst 7), Some (single_vsst 7)]"] by simp

text \<open>C35: the range estimate is defined for all inputs and all ranges and never exceeds the number of
  entries of the overlapping buckets.\<close>

theorem EstimateKMVUnionEntriesForRange_cap:
  "\<exists>r. EstimateKMVUnionEntriesForRange inputs kmin kmax = Some r \<and> r \<le> entries_cap inputs kmin kmax"
  by (rule EstimateKMVUnionForRange_bounded)

end
