(* ===== verification/PLR_Merge.thy ===== *)
theory PLR_Merge
  imports KMV_Union
begin

text \<open>
  The n-way merge of \<open>db/virtual_compaction/virtual_sst.cc\<close>
  (\<open>NWayMergeKMVRangeAware\<close>): the key axis is cut at all segment ends of the inputs, each
  interval gets the mass of the range estimate, the slopes are scaled to the union
  estimate and integrated, and equal neighbours are joined. The theorems show that the
  result tiles the key hull of the inputs and that the entry counts cannot overflow.
\<close>

section \<open>Input counts and breakpoints\<close>

text \<open>The checked sum of the input entry counts; None where the code reports an overflow.\<close>

fun naive_sum :: "VirtualSST option list \<Rightarrow> u64 \<Rightarrow> u64 option" where
  "naive_sum [] acc = Some acc"
| "naive_sum (None # inputs) acc = naive_sum inputs acc"
| "naive_sum (Some v # inputs) acc =
     (if u64_max - acc < num_entries v then None else naive_sum inputs (acc + num_entries v))"

definition input_breakpoints :: "VirtualSST option \<Rightarrow> u64 list" where
  "input_breakpoints i =
     (case i of None \<Rightarrow> []
      | Some v \<Rightarrow> key_min v # key_max v #
          concat (map (\<lambda>seg. [key_start seg, key_end seg]) (segments (plr_model v))))"

definition breakpoints :: "VirtualSST option list \<Rightarrow> u64 list" where
  "breakpoints inputs = remdups_adj (sort (concat (map input_breakpoints inputs)))"

text \<open>
  The order in which the inputs become active: by their first key, null inputs last.
  Ties are left to \<open>std::sort\<close>; the model keeps them in input order.
\<close>

definition input_key_min :: "VirtualSST option list \<Rightarrow> nat \<Rightarrow> u64" where
  "input_key_min inputs j = (case inputs ! j of Some v \<Rightarrow> key_min v | None \<Rightarrow> 0)"

definition model_order :: "VirtualSST option list \<Rightarrow> nat list" where
  "model_order inputs =
     sort_key (input_key_min inputs) (filter (\<lambda>j. inputs ! j \<noteq> None) [0 ..< length inputs])
     @ filter (\<lambda>j. inputs ! j = None) [0 ..< length inputs]"

section \<open>One interval\<close>

text \<open>The \<open>while (next_model < N)\<close> loop; the first result is the rest of the order.\<close>

fun admit :: "VirtualSST option list \<Rightarrow> u64 \<Rightarrow> nat list \<Rightarrow> nat list \<Rightarrow> nat list \<times> nat list" where
  "admit inputs k_mid [] active = ([], active)"
| "admit inputs k_mid (j # js) active =
     (case inputs ! j of
        None \<Rightarrow> admit inputs k_mid js active
      | Some v \<Rightarrow> if k_mid < key_min v then (j # js, active) else admit inputs k_mid js (active @ [j]))"

definition retire :: "VirtualSST option list \<Rightarrow> u64 \<Rightarrow> nat list \<Rightarrow> nat list" where
  "retire inputs k_mid active =
     filter (\<lambda>j. case inputs ! j of None \<Rightarrow> False | Some v \<Rightarrow> \<not> key_max v < k_mid) active"

function advance_seg :: "PLRSegment list \<Rightarrow> u64 \<Rightarrow> nat \<Rightarrow> nat" where
  "advance_seg segs k_mid i =
     (if i + 1 < length segs \<and> key_end (segs ! i) < k_mid then advance_seg segs k_mid (i + 1) else i)"
  by pat_completeness auto
termination
  by (relation "measure (\<lambda>(segs, k, i). length segs - i)") auto

declare advance_seg.simps [simp del]

fun interval_scan ::
    "VirtualSST option list \<Rightarrow> u64 \<Rightarrow> nat list \<Rightarrow> nat list \<Rightarrow> fp \<Rightarrow> VirtualSST option list \<Rightarrow>
     fp \<times> VirtualSST option list \<times> nat list" where
  "interval_scan inputs k_mid [] seg_idx slope_sum interval_inputs = (slope_sum, interval_inputs, seg_idx)"
| "interval_scan inputs k_mid (j # js) seg_idx slope_sum interval_inputs =
     (case inputs ! j of
        None \<Rightarrow> interval_scan inputs k_mid js seg_idx slope_sum interval_inputs
      | Some v \<Rightarrow>
          let segs = segments (plr_model v);
              idx = advance_seg segs k_mid (seg_idx ! j);
              seg_idx' = seg_idx[j := idx]
          in if segs = [] then interval_scan inputs k_mid js seg_idx' slope_sum interval_inputs
             else let seg = segs ! idx in
                  if k_mid < key_start seg \<or> key_end seg < k_mid
                  then interval_scan inputs k_mid js seg_idx' slope_sum interval_inputs
                  else interval_scan inputs k_mid js seg_idx'
                         (dadd slope_sum (fp_max (slope seg) (Fin 0))) (interval_inputs @ [Some v]))"

definition interval_slope :: "u64 \<Rightarrow> fp \<Rightarrow> u64 \<Rightarrow> u64 \<Rightarrow> fp" where
  "interval_slope interval_entries slope_sum k_start k_end =
     (let width = fp_max (Fin 1) (ldu64 (k_end - k_start));
          naive_mass = fp_max (Fin 0) (ldmul (fp_cvt x87ext slope_sum) width)
      in if 0 < interval_entries
         then if fp_lt (Fin 0) slope_sum \<and> fp_lt (Fin 0) naive_mass
              then dmul slope_sum (fp_cvt binary64 (lddiv (ldu64 interval_entries) naive_mass))
              else fp_cvt binary64 (lddiv (ldu64 interval_entries) width)
         else Fin 0)"

section \<open>The interval loop\<close>

text \<open>
  The loop over the intervals between neighbouring breakpoints. The state is the rest of
  the model order, the active inputs, the segment indices, the merged segments and the
  raw total; None where the cast in the range estimate would be undefined.
\<close>

fun merge_loop ::
    "VirtualSST option list \<Rightarrow> u64 list \<Rightarrow> nat list \<Rightarrow> nat list \<Rightarrow> nat list \<Rightarrow> PLRSegment list \<Rightarrow> fp \<Rightarrow>
     (PLRSegment list \<times> fp) option" where
  "merge_loop inputs (k_start # k_end # bps) order active seg_idx merged raw_total =
     (let k_mid = k_start + (k_end - k_start) div 2;
          (order', active1) = admit inputs k_mid order active;
          active' = retire inputs k_mid active1;
          (slope_sum, interval_inputs, seg_idx') = interval_scan inputs k_mid active' seg_idx (Fin 0) []
      in case EstimateKMVUnionEntriesForRange interval_inputs k_start k_end of
           None \<Rightarrow> None
         | Some interval_entries \<Rightarrow>
             merge_loop inputs (k_end # bps) order' active' seg_idx'
               (merged @ [\<lparr>key_start = k_start, key_end = k_end,
                           slope = interval_slope interval_entries slope_sum k_start k_end,
                           intercept = Fin 0\<rparr>])
               (ldadd raw_total (ldu64 interval_entries)))"
| "merge_loop inputs bps order active seg_idx merged raw_total = Some (merged, raw_total)"

section \<open>Scaling, integration and compaction\<close>

definition scale_slopes :: "u64 \<Rightarrow> fp \<Rightarrow> u64 list \<Rightarrow> PLRSegment list \<Rightarrow> PLRSegment list" where
  "scale_slopes kmv_total raw_total bps merged =
     (if 0 < kmv_total \<and> fp_lt (Fin 0) raw_total
      then let scale = fp_cvt binary64 (lddiv (ldu64 kmv_total) raw_total)
           in map (\<lambda>seg. seg\<lparr>slope := dmul (slope seg) scale\<rparr>) merged
      else if 0 < kmv_total \<and> merged \<noteq> []
      then let width = fp_max (Fin 1) (ldu64 (last bps - hd bps));
               sl = fp_cvt binary64 (lddiv (ldu64 kmv_total) width)
           in map (\<lambda>seg. seg\<lparr>slope := sl\<rparr>) merged
      else merged)"

fun set_intercepts :: "fp \<Rightarrow> PLRSegment list \<Rightarrow> PLRSegment list" where
  "set_intercepts cumulative_pos [] = []"
| "set_intercepts cumulative_pos (seg # segs) =
     seg\<lparr>intercept := dsub cumulative_pos (dmul (slope seg) (du64 (key_start seg)))\<rparr>
     # set_intercepts (dadd cumulative_pos (dmul (slope seg) (du64 (key_end seg - key_start seg)))) segs"

text \<open>Compaction of equal neighbours; the last element of the result so far is \<open>prev\<close>.\<close>

fun compact_segs :: "PLRSegment \<Rightarrow> PLRSegment list \<Rightarrow> PLRSegment list" where
  "compact_segs prev [] = [prev]"
| "compact_segs prev (cur # rest) =
     (if fp_lt (fp_abs (dsub (slope prev) (slope cur))) (fp_of binary64 (1 / 10 ^ 12))
         \<and> fp_lt (fp_abs (dsub (intercept prev) (intercept cur))) (fp_of binary64 (1 / 10 ^ 9))
      then compact_segs (prev\<lparr>key_end := key_end cur\<rparr>) rest
      else prev # compact_segs cur rest)"

definition compact_merged :: "PLRSegment list \<Rightarrow> PLRSegment list" where
  "compact_merged merged = (case merged of [] \<Rightarrow> [] | seg # segs \<Rightarrow> compact_segs seg segs)"

text \<open>The merge: its status, the model and \<open>*adjusted_total\<close>; None for undefined behaviour.\<close>

definition NWayMergeKMVRangeAware ::
    "VirtualSST option list \<Rightarrow> (status \<times> PLRModel \<times> u64) option" where
  "NWayMergeKMVRangeAware inputs =
     (if inputs = [] then Some (OK, \<lparr>segments = []\<rparr>, 0)
      else case naive_sum inputs 0 of
        None \<Rightarrow> Some (InvalidArgument ''virtual input count overflow'', \<lparr>segments = []\<rparr>, 0)
      | Some naive_entries \<Rightarrow>
      (case EstimateKMVUnionEntries inputs naive_entries of
         None \<Rightarrow> None
       | Some kmv_total \<Rightarrow>
      (let bps = breakpoints inputs in
       if bps = [] then Some (OK, \<lparr>segments = []\<rparr>, 0)
       else if length bps = 1
       then Some (OK, \<lparr>segments = [\<lparr>key_start = hd bps, key_end = hd bps, slope = Fin 0,
                                    intercept = ddiv (du64 kmv_total) (Fin 2)\<rparr>]\<rparr>, kmv_total)
       else case merge_loop inputs bps (model_order inputs) [] (replicate (length inputs) 0) [] (Fin 0) of
         None \<Rightarrow> None
       | Some (merged, raw_total) \<Rightarrow>
           Some (OK, \<lparr>segments = compact_merged (set_intercepts (Fin 0) (scale_slopes kmv_total raw_total bps merged))\<rparr>,
                 kmv_total))))"

definition ScalePLRPositions :: "PLRModel \<Rightarrow> fp \<Rightarrow> PLRModel" where
  "ScalePLRPositions plr scale =
     (if Empty plr \<or> fp_lt (fp_abs (dsub scale (Fin 1))) (fp_of binary64 (1 / 10 ^ 15)) then plr
      else \<lparr>segments = map (\<lambda>seg. seg\<lparr>slope := dmul (slope seg) scale, intercept := dmul (intercept seg) scale\<rparr>)
                         (segments plr)\<rparr>)"

section \<open>The entry counts\<close>

text \<open>The exact number of input entries.\<close>

definition total_entries :: "VirtualSST option list \<Rightarrow> int" where
  "total_entries inputs = sum_list (map (\<lambda>i. case i of None \<Rightarrow> 0 | Some v \<Rightarrow> uint (num_entries v)) inputs)"

lemma total_entries_nonneg: "0 \<le> total_entries inputs"
  unfolding total_entries_def by (intro sum_list_nonneg) (auto split: option.splits)

lemma uint_minus_max: "uint (u64_max - a) = 18446744073709551615 - uint a"
  using uint_sub_lem [of a u64_max] word_order.extremum [of a]
  by (simp add: word_le_def unsigned_minus_1_eq_mask mask_eq_exp_minus_1)

lemma naive_sum_spec:
  "naive_sum inputs acc =
     (if uint acc + total_entries inputs < 18446744073709551616
      then Some (of_int (uint acc + total_entries inputs)) else None)"
proof (induction inputs acc rule: naive_sum.induct)
  case (3 v inputs acc)
  let ?n = "uint (num_entries v)"
  have te: "total_entries (Some v # inputs) = ?n + total_entries inputs" by (simp add: total_entries_def)
  show ?case
  proof (cases "u64_max - acc < num_entries v")
    case True
    then have "18446744073709551615 < uint acc + ?n" by (simp add: word_less_def uint_minus_max)
    then show ?thesis using True te total_entries_nonneg [of inputs] by simp
  next
    case False
    then have "uint acc + ?n \<le> 18446744073709551615" by (simp add: word_less_def uint_minus_max)
    then have "uint (acc + num_entries v) = uint acc + ?n"
      using uint_add_lem [of acc "num_entries v"] by simp
    then show ?thesis using 3 False te by (simp add: add.assoc)
  qed
qed (simp_all add: total_entries_def uint_u64_less of_int_uint)

section \<open>The segments tile the key hull\<close>

text \<open>Consecutive nonempty segments from key \<open>a\<close> to key \<open>b\<close>.\<close>

fun tiled :: "u64 \<Rightarrow> u64 \<Rightarrow> PLRSegment list \<Rightarrow> bool" where
  "tiled a b [] \<longleftrightarrow> a = b"
| "tiled a b (g # gs) \<longleftrightarrow> key_start g = a \<and> a < key_end g \<and> tiled (key_end g) b gs"

lemma tiled_append: "tiled a b (gs @ hs) \<longleftrightarrow> (\<exists>c. tiled a c gs \<and> tiled c b hs)"
  by (induction gs arbitrary: a) auto

definition key_ends :: "PLRSegment \<Rightarrow> u64 \<times> u64" where
  "key_ends g = (key_start g, key_end g)"

lemma key_ends_iff: "key_ends g = key_ends h \<longleftrightarrow> key_start g = key_start h \<and> key_end g = key_end h"
  by (simp add: key_ends_def)

lemma tiled_cong: "map key_ends gs = map key_ends hs \<Longrightarrow> tiled a b gs = tiled a b hs"
proof (induction gs arbitrary: a hs)
  case (Cons g gs)
  from Cons.prems obtain h hs' where h: "hs = h # hs'" "map key_ends gs = map key_ends hs'"
    "key_start g = key_start h" "key_end g = key_end h"
    by (cases hs) (simp_all add: key_ends_iff)
  then show ?case using Cons.IH [OF h(2)] by simp
qed simp

lemma scale_slopes_ends: "map key_ends (scale_slopes t r bps gs) = map key_ends gs"
  by (simp add: scale_slopes_def Let_def key_ends_def)

lemma set_intercepts_ends: "map key_ends (set_intercepts c gs) = map key_ends gs"
  by (induction gs arbitrary: c) (auto simp: key_ends_def)

lemma compact_segs_tiled: "tiled a b (g # gs) \<Longrightarrow> tiled a b (compact_segs g gs)"
  by (induction g gs arbitrary: a rule: compact_segs.induct) (auto intro: less_trans)

lemma compact_merged_tiled: "tiled a b gs \<Longrightarrow> tiled a b (compact_merged gs)"
  by (cases gs) (auto simp: compact_merged_def intro: compact_segs_tiled [simplified])

lemma merge_loop_tiles:
  assumes "sorted_wrt (<) bps" "bps \<noteq> []"
  shows "\<exists>gs r. merge_loop inputs bps order active seg_idx merged raw = Some (merged @ gs, r) \<and>
    tiled (hd bps) (last bps) gs"
  using assms
proof (induction inputs bps order active seg_idx merged raw rule: merge_loop.induct)
  case (1 inputs k_start k_end bps order active seg_idx merged raw)
  define k_mid where "k_mid = k_start + (k_end - k_start) div 2"
  obtain order' active1 where ad: "admit inputs k_mid order active = (order', active1)" by fastforce
  define active' where "active' = retire inputs k_mid active1"
  obtain sl ins idx where sc: "interval_scan inputs k_mid active' seg_idx (Fin 0) [] = (sl, ins, idx)"
    by (metis prod_cases3)
  obtain n where n: "EstimateKMVUnionEntriesForRange ins k_start k_end = Some n"
    using EstimateKMVUnionForRange_bounded by blast
  let ?g = "\<lparr>key_start = k_start, key_end = k_end, slope = interval_slope n sl k_start k_end, intercept = Fin 0\<rparr>"
  have step: "merge_loop inputs (k_start # k_end # bps) order active seg_idx merged raw =
      merge_loop inputs (k_end # bps) order' active' idx (merged @ [?g]) (ldadd raw (ldu64 n))"
    using ad sc n by (simp add: Let_def k_mid_def [symmetric] active'_def [symmetric])
  have "\<exists>gs r. merge_loop inputs (k_end # bps) order' active' idx (merged @ [?g]) (ldadd raw (ldu64 n)) =
      Some ((merged @ [?g]) @ gs, r) \<and> tiled (hd (k_end # bps)) (last (k_end # bps)) gs"
    by (rule "1.IH" [OF k_mid_def ad [symmetric] refl active'_def sc [symmetric] refl refl n])
      (use "1.prems" in auto)
  then obtain gs r where gs: "merge_loop inputs (k_end # bps) order' active' idx (merged @ [?g]) (ldadd raw (ldu64 n)) =
      Some (merged @ ?g # gs, r)" "tiled k_end (last (k_end # bps)) gs"
    by auto
  have "tiled k_start (last (k_start # k_end # bps)) (?g # gs)" using gs(2) "1.prems"(1) by simp
  then show ?case using step gs(1) by (metis list.sel(1))
qed (auto intro!: exI [of _ "[]"])

lemma breakpoints_strict: "sorted_wrt (<) (breakpoints inputs)"
  unfolding breakpoints_def by (rule strict_remdups_adj) simp

lemma breakpoints_set: "set (breakpoints inputs) = \<Union> (set ` input_breakpoints ` set inputs)"
  by (auto simp: breakpoints_def)

lemma strict_hd_Min: "sorted_wrt (<) xs \<Longrightarrow> xs \<noteq> [] \<Longrightarrow> hd xs = Min (set (xs :: u64 list))"
  by (intro Min_eqI [symmetric]; cases xs) (auto intro: less_imp_le)

lemma strict_last_Max: "sorted_wrt (<) xs \<Longrightarrow> xs \<noteq> [] \<Longrightarrow> last xs = Max (set (xs :: u64 list))"
  by (intro Max_eqI [symmetric]) (auto intro: sorted_le_last strict_sorted_imp_sorted)

text \<open>The key ends of the inputs: of the files and of their segments.\<close>

definition key_points :: "VirtualSST option list \<Rightarrow> u64 set" where
  "key_points inputs = (\<Union>v \<in> {v. Some v \<in> set inputs}. {key_min v, key_max v} \<union>
     key_start ` set (segments (plr_model v)) \<union> key_end ` set (segments (plr_model v)))"

lemma key_points_eq: "key_points inputs = \<Union> (set ` input_breakpoints ` set inputs)"
proof -
  have "set (input_breakpoints (Some v)) = {key_min v, key_max v} \<union>
      key_start ` set (segments (plr_model v)) \<union> key_end ` set (segments (plr_model v))" for v
    by (auto simp: input_breakpoints_def)
  moreover have "input_breakpoints None = []" by (simp add: input_breakpoints_def)
  moreover have "\<Union> (set ` input_breakpoints ` set inputs) =
      (\<Union>v \<in> {v. Some v \<in> set inputs}. set (input_breakpoints (Some v))) \<union> (if None \<in> set inputs then set (input_breakpoints None) else {})"
    by (auto, (metis not_Some_eq)+)
  ultimately show ?thesis by (simp add: key_points_def)
qed

lemma NWayMerge_result:
  assumes "0 < total_entries inputs" "total_entries inputs < 2 ^ 63" "2 \<le> card (key_points inputs)"
  obtains m t where "NWayMergeKMVRangeAware inputs = Some (OK, m, t)"
    "tiled (Min (key_points inputs)) (Max (key_points inputs)) (segments m)"
    "1 \<le> uint t" "uint t \<le> total_entries inputs"
proof -
  let ?n = "of_int (total_entries inputs) :: u64"
  have n: "naive_sum inputs 0 = Some ?n" "uint ?n = total_entries inputs"
    using naive_sum_spec [of inputs 0] assms(1,2) uint_u64_of_int [of "total_entries inputs"] by simp_all
  have "?n \<noteq> 0" "uint ?n < 2 ^ 63" using n(2) assms(1,2) by auto
  from EstimateKMVUnion_bounded [OF this] obtain t
    where t: "EstimateKMVUnionEntries inputs ?n = Some t" "1 \<le> t" "t \<le> ?n" by blast
  let ?b = "breakpoints inputs"
  have kp: "key_points inputs = set ?b" by (simp add: key_points_eq breakpoints_set)
  have "card (set ?b) \<le> length ?b" by (rule card_length)
  then have ne: "?b \<noteq> []" "length ?b \<noteq> 1" "inputs \<noteq> []" using assms(3) kp by (auto simp: key_points_eq)
  obtain gs r where g: "merge_loop inputs ?b (model_order inputs) [] (replicate (length inputs) 0) [] (Fin 0) = Some ([] @ gs, r)"
    "tiled (hd ?b) (last ?b) gs"
    using merge_loop_tiles [OF breakpoints_strict ne(1), of inputs "model_order inputs"] by blast
  let ?m = "\<lparr>segments = compact_merged (set_intercepts (Fin 0) (scale_slopes t r ?b gs))\<rparr>"
  have "NWayMergeKMVRangeAware inputs = Some (OK, ?m, t)"
    using ne n(1) t(1) g(1) by (simp add: NWayMergeKMVRangeAware_def Let_def)
  moreover have "tiled (hd ?b) (last ?b) (segments ?m)"
    using g(2) compact_merged_tiled tiled_cong [OF set_intercepts_ends] tiled_cong [OF scale_slopes_ends] by simp
  ultimately show thesis
    using that t(2,3) n(2) strict_hd_Min [OF breakpoints_strict ne(1)] strict_last_Max [OF breakpoints_strict ne(1)]
    by (simp add: kp word_le_def)
qed

section \<open>Properties\<close>

text \<open>C6: the merge of inputs with at least two distinct key ends and fewer than \<open>2 ^ 63\<close> entries succeeds.
  Its segments tile the key axis from the smallest to the largest key end of the inputs without
  gap or overlap, and the reported total is between one and the exact number of input entries.\<close>

theorem NWayMerge_tiles_hull:
  assumes "0 < total_entries inputs" "total_entries inputs < 2 ^ 63" "2 \<le> card (key_points inputs)"
  shows "\<exists>m t. NWayMergeKMVRangeAware inputs = Some (OK, m, t) \<and>
    tiled (Min (key_points inputs)) (Max (key_points inputs)) (segments m) \<and>
    1 \<le> uint t \<and> uint t \<le> total_entries inputs"
  by (rule NWayMerge_result [OF assms]) blast

theorem NWayMerge_tiles_hull_witness:
  "\<exists>m t. NWayMergeKMVRangeAware [Some (single_vsst 7), None, Some (single_vsst 9)] = Some (OK, m, t) \<and>
    tiled 7 9 (segments m) \<and> 1 \<le> uint t \<and> uint t \<le> 2"
proof -
  let ?i = "[Some (single_vsst 7), None, Some (single_vsst 9)]"
  have "key_points ?i = {7, 9}" by (auto simp: key_points_eq input_breakpoints_def single_vsst_def)
  moreover have "total_entries ?i = 2" by (simp add: total_entries_def single_vsst_def)
  ultimately show ?thesis using NWayMerge_tiles_hull [of ?i] by simp
qed

text \<open>the merge reports the overflow of the input counts exactly when their sum does not fit 64 bits,
  and then returns the empty model and a total of zero.\<close>

theorem NWayMerge_overflow_status:
  assumes "inputs \<noteq> []"
  shows "total_entries inputs < 2 ^ 64 \<longleftrightarrow>
    NWayMergeKMVRangeAware inputs \<noteq>
      Some (InvalidArgument ''virtual input count overflow'', \<lparr>segments = []\<rparr>, 0)"
  using assms naive_sum_spec [of inputs 0]
  by (auto simp: NWayMergeKMVRangeAware_def Let_def split: option.splits prod.splits)

theorem NWayMerge_overflow_status_witness:
  "NWayMergeKMVRangeAware [Some (single_vsst 7)] \<noteq>
     Some (InvalidArgument ''virtual input count overflow'', \<lparr>segments = []\<rparr>, 0)"
  using NWayMerge_overflow_status [of "[Some (single_vsst 7)]"]
  by (simp add: total_entries_def single_vsst_def)

end
