(* ===== verification/KMV_Merge.thy ===== *)
theory KMV_Merge
  imports KMV_Union
begin

text \<open>
  The sketches of compaction outputs (\<open>MergeKMVSketchesForRange\<close> and
  \<open>MergeKMVRangeSketchesForOutput\<close> of \<open>db/virtual_compaction/virtual_sst.cc\<close>): the sketch of
  a key range is merged from all overlapping buckets of the inputs, and an output file
  gets one such sketch per equal slice of its key interval. A merged sketch keeps the
  contract \<open>represents\<close> for the union of the inputs cut to the range.
\<close>

section \<open>Definitions\<close>

definition MergeKMVSketchesForRange ::
    "string option \<Rightarrow> VirtualSST option list \<Rightarrow> u64 \<Rightarrow> u64 \<Rightarrow> nat \<Rightarrow> KMVSketch" where
  "MergeKMVSketchesForRange env_samples inputs kmin kmax max_samples0 =
     (if inputs = [] \<or> kmax < kmin then empty_sketch
      else let max_samples = (if max_samples0 = 0 then unat (VirtualSSTKMVSamples env_samples) else max_samples0);
               pieces = overlap_pieces inputs kmin kmax in
      if pieces = [] then empty_sketch
      else let compl = ranges_complete pieces;
               theta = ranges_theta pieces;
               xs = SortUniqueByHash (samples_in_range kmin kmax (samples_below theta pieces));
               trimmed = (0 < max_samples \<and> max_samples < length xs);
               compl' = (compl \<and> \<not> trimmed);
               ys = SortByHashAndTrim xs max_samples
           in \<lparr>samples = ys,
               theta_hash = (if compl' then MaxHash
                             else if trimmed \<and> ys \<noteq> [] then hash (last ys)
                             else if compl then MaxHash else theta),
               complete = compl'\<rparr>)"

text \<open>The slice \<open>i\<close> of an output's key interval, in 128-bit arithmetic.\<close>

definition slice_min :: "u64 \<Rightarrow> wide \<Rightarrow> wide \<Rightarrow> nat \<Rightarrow> u64" where
  "slice_min kmin sp range_count i = kmin + ucast ((sp * of_nat i) div range_count)"

definition slice_max :: "u64 \<Rightarrow> wide \<Rightarrow> wide \<Rightarrow> nat \<Rightarrow> u64" where
  "slice_max kmin sp range_count i =
     (let end_off = (sp * of_nat (i + 1)) div range_count;
          m = kmin + ucast (if end_off = 0 then 0 else end_off - 1)
      in if m < slice_min kmin sp range_count i then slice_min kmin sp range_count i else m)"

text \<open>None where the range estimate would be undefined, which never happens.\<close>

fun merge_slices ::
    "string option \<Rightarrow> VirtualSST option list \<Rightarrow> u64 \<Rightarrow> wide \<Rightarrow> wide \<Rightarrow> nat \<Rightarrow> nat list \<Rightarrow> KMVRangeSketch list option" where
  "merge_slices env_samples inputs kmin sp range_count per_range [] = Some []"
| "merge_slices env_samples inputs kmin sp range_count per_range (i # is) =
     (let range_min = slice_min kmin sp range_count i;
          range_max = slice_max kmin sp range_count i
      in case EstimateKMVUnionEntriesForRange inputs range_min range_max of
           None \<Rightarrow> None
         | Some n \<Rightarrow>
             let sk = MergeKMVSketchesForRange env_samples inputs range_min range_max per_range;
                 r = \<lparr>r_key_min = range_min, r_key_max = range_max, r_num_entries = n, sketch = sk\<rparr>
             in map_option (\<lambda>rs. if 0 < n \<or> samples sk \<noteq> [] then r # rs else rs)
                  (merge_slices env_samples inputs kmin sp range_count per_range is))"

definition MergeKMVRangeSketchesForOutput ::
    "string option \<Rightarrow> string option \<Rightarrow> VirtualSST option list \<Rightarrow> u64 \<Rightarrow> u64 \<Rightarrow> u64 \<Rightarrow> nat \<Rightarrow> u64 \<Rightarrow>
     KMVRangeSketch list option" where
  "MergeKMVRangeSketchesForOutput env_samples env_buckets inputs kmin kmax n_entries max_samples0 max_ranges0 =
     (if inputs = [] \<or> n_entries = 0 \<or> kmax < kmin then Some []
      else let max_samples = (if max_samples0 = 0 then unat (VirtualSSTKMVSamples env_samples) else max_samples0);
               max_ranges = (if max_ranges0 = 0 then VirtualSSTKMVRangeBuckets env_buckets else max_ranges0);
               sp = key_span kmin kmax;
               range_count = min (ucast (min max_ranges n_entries)) sp;
               per_range = max 1 (max_samples div unat range_count)
           in merge_slices env_samples inputs kmin sp range_count per_range [0 ..< unat range_count])"

section \<open>The merged sketch represents the cut union\<close>

text \<open>The keys the buckets of the inputs stand for, with every bucket inside its own bounds and its file's.\<close>

definition buckets_in_bounds :: "VirtualSST option list \<Rightarrow> (KMVRangeSketch \<Rightarrow> u64 set) \<Rightarrow> bool" where
  "buckets_in_bounds inputs keys_of \<longleftrightarrow>
     (\<forall>v. Some v \<in> set inputs \<longrightarrow> (\<forall>r \<in> set (kmv_ranges v).
        represents (sketch r) (keys_of r) \<and>
        (\<forall>k \<in> keys_of r. r_key_min r \<le> k \<and> k \<le> r_key_max r \<and> key_min v \<le> k \<and> k \<le> key_max v)))"

definition cut_union :: "VirtualSST option list \<Rightarrow> (KMVRangeSketch \<Rightarrow> u64 set) \<Rightarrow> u64 \<Rightarrow> u64 \<Rightarrow> u64 set" where
  "cut_union inputs keys_of kmin kmax =
     {k \<in> \<Union> (keys_of ` set (all_ranges inputs)). kmin \<le> k \<and> k \<le> kmax}"

lemma sample_key_KMVHash: "hash s = KMVHash k \<Longrightarrow> sample_key s = k"
  by (simp add: sample_key_def KMVUnhash_KMVHash)

lemma all_ranges_mem: "r \<in> set (all_ranges inputs) \<longleftrightarrow> (\<exists>v. Some v \<in> set inputs \<and> r \<in> set (kmv_ranges v))"
  by (auto simp: all_ranges_def split: option.splits)

lemma overlap_pieces_mem:
  "r \<in> set (overlap_pieces inputs kmin kmax) \<longleftrightarrow>
     (\<exists>v. Some v \<in> set inputs \<and> r \<in> set (kmv_ranges v) \<and> \<not> key_max v < kmin \<and> \<not> kmax < key_min v \<and>
        \<not> r_key_max r < kmin \<and> \<not> kmax < r_key_min r)"
  by (auto simp: overlap_pieces_def split: option.splits if_splits)

text \<open>The pieces the code keeps hold all keys of the range.\<close>

lemma cut_union_pieces:
  assumes "buckets_in_bounds inputs keys_of"
  shows "cut_union inputs keys_of kmin kmax =
    {k \<in> \<Union> (keys_of ` set (overlap_pieces inputs kmin kmax)). kmin \<le> k \<and> k \<le> kmax}"
proof -
  have "r \<in> set (overlap_pieces inputs kmin kmax)"
    if "r \<in> set (all_ranges inputs)" "k \<in> keys_of r" "kmin \<le> k" "k \<le> kmax" for r k
  proof -
    from that(1) obtain v where v: "Some v \<in> set inputs" "r \<in> set (kmv_ranges v)"
      unfolding all_ranges_mem by blast
    then have b: "r_key_min r \<le> k" "k \<le> r_key_max r" "key_min v \<le> k" "k \<le> key_max v"
      using assms that(2) by (auto simp: buckets_in_bounds_def)
    have "\<not> key_max v < kmin" "\<not> kmax < key_min v" "\<not> r_key_max r < kmin" "\<not> kmax < r_key_min r"
      using b that(3,4) by (auto simp: not_less intro: order.trans)
    then show ?thesis using v unfolding overlap_pieces_mem by blast
  qed
  moreover have "set (overlap_pieces inputs kmin kmax) \<subseteq> set (all_ranges inputs)"
    by (rule subsetI) (unfold overlap_pieces_mem all_ranges_mem, blast)
  ultimately show ?thesis unfolding cut_union_def by blast
qed

lemma pieces_represent:
  assumes "buckets_in_bounds inputs keys_of"
  shows "list_all2 (\<lambda>r K. represents (sketch r) K) (overlap_pieces inputs kmin kmax)
    (map keys_of (overlap_pieces inputs kmin kmax))"
proof -
  have "represents (sketch r) (keys_of r)" if "r \<in> set (overlap_pieces inputs kmin kmax)" for r
    using that assms unfolding overlap_pieces_mem buckets_in_bounds_def by blast
  then show ?thesis by (simp add: list_all2_map2 list_all2_same)
qed

lemma samples_in_range_hashes:
  assumes "hash ` set xs = {h \<in> KMVHash ` K. h \<le> t}"
  shows "hash ` set (samples_in_range a b xs) = {h \<in> KMVHash ` {k \<in> K. a \<le> k \<and> k \<le> b}. h \<le> t}"
proof (intro set_eqI iffI)
  fix h assume "h \<in> hash ` set (samples_in_range a b xs)"
  then obtain s where s: "s \<in> set xs" "hash s = h" "a \<le> sample_key s" "sample_key s \<le> b"
    by (auto simp: samples_in_range_def)
  then have "h \<in> {h \<in> KMVHash ` K. h \<le> t}" unfolding assms [symmetric] by blast
  then obtain k where k: "k \<in> K" "h = KMVHash k" "h \<le> t" by blast
  then have "sample_key s = k" using s(2) by (simp add: sample_key_KMVHash)
  then show "h \<in> {h \<in> KMVHash ` {k \<in> K. a \<le> k \<and> k \<le> b}. h \<le> t}" using s k by auto
next
  fix h assume "h \<in> {h \<in> KMVHash ` {k \<in> K. a \<le> k \<and> k \<le> b}. h \<le> t}"
  then obtain k where k: "k \<in> K" "a \<le> k" "k \<le> b" "h = KMVHash k" "h \<le> t" by blast
  then have "h \<in> hash ` set xs" unfolding assms by blast
  then obtain s where s: "s \<in> set xs" "hash s = h" by auto
  then have "sample_key s = k" using k(4) by (simp add: sample_key_KMVHash)
  then show "h \<in> hash ` set (samples_in_range a b xs)" using s k(2,3) by (auto simp: samples_in_range_def)
qed

text \<open>Cutting a sorted sample to its first \<open>k\<close> hashes and lowering theta keeps the contract.\<close>

lemma represents_take:
  assumes "sorted_wrt (<) (map hash xs)" "hash ` set xs = {h \<in> KMVHash ` K. h \<le> t}" "take k xs \<noteq> []"
  shows "represents \<lparr>samples = take k xs, theta_hash = hash (last (take k xs)), complete = False\<rparr> K"
proof -
  let ?l = "hash (last (take k xs))"
  have l: "?l = last (take k (map hash xs))" unfolding take_map using last_map [OF assms(3), of hash] by simp
  have "?l \<in> hash ` set xs" using in_set_takeD [OF last_in_set [OF assms(3)]] by (rule imageI)
  then have "?l \<le> t" using assms(2) by auto
  have "hash ` set (take k xs) = {h \<in> hash ` set xs. h \<le> ?l}"
    using strict_take_below [OF assms(1), of k] assms(3) by (simp add: l take_map)
  also have "\<dots> = {h \<in> KMVHash ` K. h \<le> ?l}" using assms(2) \<open>?l \<le> t\<close> by auto
  finally show ?thesis
    using assms(1) by (simp add: represents_def sorted_wrt_take flip: take_map)
qed

lemma MergeKMVSketches_represents:
  assumes "buckets_in_bounds inputs keys_of"
  shows "represents (MergeKMVSketchesForRange es inputs kmin kmax ms) (cut_union inputs keys_of kmin kmax)"
proof -
  let ?K = "cut_union inputs keys_of kmin kmax"
  define ps where "ps = overlap_pieces inputs kmin kmax"
  note cu = cut_union_pieces [OF assms, of kmin kmax, folded ps_def]
  have empty: "represents empty_sketch {}" by (simp add: represents_def empty_sketch_def)
  consider "inputs = [] \<or> kmax < kmin \<or> ps = []" | "inputs \<noteq> []" "\<not> kmax < kmin" "ps \<noteq> []" by blast
  then show ?thesis
  proof cases
    case 1
    have "?K = {}"
    proof (cases "kmax < kmin")
      case True
      then have "\<not> (kmin \<le> x \<and> x \<le> kmax)" for x by (meson leD order.trans)
      then show ?thesis unfolding cu by blast
    next
      case False
      then have "ps = []" using 1 by (auto simp: ps_def overlap_pieces_def)
      then show ?thesis unfolding cu by simp
    qed
    moreover have "MergeKMVSketchesForRange es inputs kmin kmax ms = empty_sketch"
      using 1 unfolding MergeKMVSketchesForRange_def Let_def ps_def by presburger
    ultimately show ?thesis using empty by simp
  next
    case 2
    define t where "t = ranges_theta ps"
    define k where "k = eff_samples es ms"
    define xs where "xs = SortUniqueByHash (samples_in_range kmin kmax (samples_below t ps))"
    have rep: "list_all2 (\<lambda>r K. represents (sketch r) K) ps (map keys_of ps)"
      unfolding ps_def by (rule pieces_represent [OF assms])
    have "hash ` set (samples_below t ps) = {h \<in> KMVHash ` \<Union> (set (map keys_of ps)). h \<le> t}"
      by (rule samples_below_hashes [OF rep]) (auto simp: t_def ranges_theta_le)
    then have hx: "hash ` set xs = {h \<in> KMVHash ` ?K. h \<le> t}"
      using samples_in_range_hashes [of "samples_below t ps" "\<Union> (set (map keys_of ps))" t kmin kmax]
      by (simp add: xs_def cu)
    have k: "0 < k" by (simp add: k_def eff_samples_pos)
    have srt: "sorted_wrt (<) (map hash xs)" by (simp add: xs_def SortUniqueByHash_strict)
    let ?tr = "k < length xs" and ?c = "ranges_complete ps"
    have S: "MergeKMVSketchesForRange es inputs kmin kmax ms =
        \<lparr>samples = take k xs,
         theta_hash = (if ?c \<and> \<not> ?tr then MaxHash else if ?tr \<and> take k xs \<noteq> [] then hash (last (take k xs))
                       else if ?c then MaxHash else t),
         complete = (?c \<and> \<not> ?tr)\<rparr>"
      using 2 k SortByHashAndTrim_strict [OF srt k]
      by (simp add: MergeKMVSketchesForRange_def Let_def ps_def [symmetric] t_def [symmetric] xs_def [symmetric]
          k_def [symmetric] eff_samples_def [of es ms, symmetric])
    show ?thesis
    proof (cases ?tr)
      case True
      then have ne: "take k xs \<noteq> []" using k by auto
      then show ?thesis using represents_take [OF srt hx ne] True by (simp add: S)
    next
      case False
      have "t = MaxHash" if ?c using represents_ranges_theta_complete [OF rep that] by (simp add: t_def)
      then show ?thesis using False hx srt by (auto simp: S represents_def)
    qed
  qed
qed

lemma MergeKMVSketches_length: "length (samples (MergeKMVSketchesForRange es inputs kmin kmax ms)) \<le> eff_samples es ms"
proof -
  have "length (SortByHashAndTrim (SortUniqueByHash xs) (eff_samples es ms)) \<le> eff_samples es ms" for xs
    using SortByHashAndTrim_strict [OF SortUniqueByHash_strict eff_samples_pos] by simp
  then show ?thesis
    by (simp add: MergeKMVSketchesForRange_def Let_def empty_sketch_def eff_samples_def [of es ms, symmetric])
qed

section \<open>Slices of the output interval\<close>

lemma uint_wide_of_int: "0 \<le> k \<Longrightarrow> k < 2 ^ 128 \<Longrightarrow> uint (of_int k :: wide) = k"
  by (simp add: uint_word_of_int)

lemma uint_wide_of_nat: "int n < 2 ^ 128 \<Longrightarrow> uint (of_nat n :: wide) = int n"
  using uint_wide_of_int [of "int n"] by simp

lemma uint_wide_mult_small: "uint a * uint b < 2 ^ 128 \<Longrightarrow> uint (a * b :: wide) = uint a * uint b"
  using uint_mult_lem [of a b] by simp

lemma uint_key_span: "a \<le> b \<Longrightarrow> uint (key_span a b) = uint b - uint a + 1"
proof -
  assume "a \<le> b"
  then have ab: "uint a \<le> uint b" by (simp add: word_le_def)
  have u: "uint (ucast a :: wide) = uint a" "uint (ucast b :: wide) = uint b"
    by (simp_all add: uint_up_ucast is_up_def source_size_def target_size_def word_size)
  have "uint (ucast b - ucast a :: wide) = uint b - uint a"
    using ab u uint_sub_lem [of "ucast a :: wide" "ucast b"] by simp
  moreover have "uint b - uint a + 1 < 340282366920938463463374607431768211456"
    using uint_u64_less [of b] uint_ge_0 [of a] by linarith
  ultimately show ?thesis unfolding key_span_def
    using uint_add_lem [of "ucast b - ucast a :: wide" 1] by simp
qed

lemma uint_ucast_small: "uint (w :: wide) < 18446744073709551616 \<Longrightarrow> uint (ucast w :: u64) = uint w"
  by (simp add: unsigned_ucast_eq take_bit_int_eq_self)

lemma uint_u64_add: "uint (a :: u64) + uint b < 18446744073709551616 \<Longrightarrow> uint (a + b) = uint a + uint b"
  using uint_add_lem [of a b] by simp

text \<open>The offset of a slice boundary, as an exact integer.\<close>

definition slice_off :: "int \<Rightarrow> int \<Rightarrow> nat \<Rightarrow> int" where
  "slice_off sp rc i = sp * int i div rc"

lemma slice_off_step:
  assumes "1 \<le> rc" "rc \<le> sp"
  shows "slice_off sp rc i + 1 \<le> slice_off sp rc (Suc i)"
proof -
  have "slice_off sp rc i + 1 = (sp * int i + rc) div rc" using assms by (simp add: slice_off_def)
  also have "\<dots> \<le> (sp * int i + sp) div rc" using assms by (intro zdiv_mono1) auto
  finally show ?thesis by (simp add: slice_off_def algebra_simps)
qed

lemma slice_off_bounds:
  assumes "1 \<le> rc" "rc \<le> sp" "int i \<le> rc"
  shows "0 \<le> slice_off sp rc i" "slice_off sp rc i \<le> sp"
proof -
  show "0 \<le> slice_off sp rc i" using assms by (simp add: slice_off_def pos_imp_zdiv_nonneg_iff)
  have "sp * int i \<le> sp * rc" using assms by (intro mult_left_mono) auto
  then have "sp * int i div rc \<le> sp * rc div rc" using assms by (intro zdiv_mono1) auto
  then show "slice_off sp rc i \<le> sp" using assms by (simp add: slice_off_def)
qed

lemma uint_wide_off:
  fixes sp rc :: wide
  assumes "1 \<le> uint rc" "uint rc \<le> uint sp" "uint sp \<le> 18446744073709551616"
    "uint rc < 18446744073709551616" "int i \<le> uint rc"
  shows "uint ((sp * of_nat i) div rc) = slice_off (uint sp) (uint rc) i"
proof -
  have n: "uint (of_nat i :: wide) = int i" using assms by (intro uint_wide_of_nat) simp
  have "uint sp * int i \<le> 18446744073709551616 * 18446744073709551615"
    using assms by (intro mult_mono) auto
  then have "uint (sp * of_nat i) = uint sp * int i"
    using uint_wide_mult_small [of sp "of_nat i"] by (simp add: n)
  then show ?thesis by (simp add: uint_div slice_off_def)
qed

lemma uint_slices:
  fixes kmin kmax :: u64 and rc :: wide
  defines "sp \<equiv> key_span kmin kmax"
  assumes "kmin \<le> kmax" "1 \<le> uint rc" "uint rc \<le> uint sp" "uint rc < 18446744073709551616" "int i < uint rc"
  shows "uint (slice_min kmin sp rc i) = uint kmin + slice_off (uint sp) (uint rc) i"
    and "uint (slice_max kmin sp rc i) = uint kmin + slice_off (uint sp) (uint rc) (Suc i) - 1"
proof -
  have sp: "uint sp = uint kmax - uint kmin + 1" unfolding sp_def by (rule uint_key_span [OF assms(2)])
  then have spb: "uint sp \<le> 18446744073709551616" using uint_u64_less [of kmax] uint_ge_0 [of kmin] by linarith
  let ?o = "slice_off (uint sp) (uint rc)"
  let ?s = "(sp * of_nat i) div rc" and ?e = "(sp * of_nat (i + 1)) div rc"
  have o: "uint ?s = ?o i" "uint ?e = ?o (Suc i)"
    using uint_wide_off [OF assms(3,4) spb assms(5), of i] uint_wide_off [OF assms(3,4) spb assms(5), of "i + 1"] assms(6)
    by simp_all
  have st: "?o i + 1 \<le> ?o (Suc i)" by (rule slice_off_step [OF assms(3,4)])
  have b: "0 \<le> ?o i" "?o (Suc i) \<le> uint sp"
    using slice_off_bounds(1) [OF assms(3,4), of i] slice_off_bounds(2) [OF assms(3,4), of "Suc i"] assms(6) by auto
  have km: "0 \<le> uint kmin" "uint kmax < 18446744073709551616" using uint_u64_less [of kmax] by simp_all
  have us: "uint (ucast ?s :: u64) = ?o i" using o(1) st b spb by (subst uint_ucast_small) auto
  show mn: "uint (slice_min kmin sp rc i) = uint kmin + ?o i"
    unfolding slice_min_def using us st b sp km by (subst uint_u64_add) auto
  have "uint (?e - 1) = ?o (Suc i) - 1" using o(2) st b(1) uint_sub_lem [of 1 ?e] by simp
  then have ue: "uint (ucast (?e - 1) :: u64) = ?o (Suc i) - 1"
    using b spb by (subst uint_ucast_small) auto
  have e0: "?e \<noteq> 0" using o(2) st b(1) by auto
  have mx: "uint (kmin + ucast (?e - 1)) = uint kmin + ?o (Suc i) - 1"
    using ue b sp km by (subst uint_u64_add) auto
  then have "\<not> kmin + ucast (?e - 1) < slice_min kmin sp rc i"
    using mn st by (simp add: word_less_def)
  then have "slice_max kmin sp rc i = kmin + ucast (?e - 1)"
    using e0 by (simp only: slice_max_def Let_def if_False)
  then show "uint (slice_max kmin sp rc i) = uint kmin + ?o (Suc i) - 1" using mx by simp
qed

section \<open>The sketches of an output\<close>

text \<open>
  A bucket list for the interval from \<open>kmin\<close> to \<open>kmax\<close>: disjoint intervals in order, each
  with a sketch of the inputs cut to it and at most \<open>k\<close> samples.
\<close>

definition output_buckets_ok ::
    "VirtualSST option list \<Rightarrow> (KMVRangeSketch \<Rightarrow> u64 set) \<Rightarrow> u64 \<Rightarrow> u64 \<Rightarrow> nat \<Rightarrow> KMVRangeSketch list \<Rightarrow> bool" where
  "output_buckets_ok inputs keys_of kmin kmax k rs \<longleftrightarrow>
     sorted_wrt (\<lambda>a b. r_key_max a < r_key_min b) rs \<and>
     (\<forall>r \<in> set rs. kmin \<le> r_key_min r \<and> r_key_min r \<le> r_key_max r \<and> r_key_max r \<le> kmax \<and>
        represents (sketch r) (cut_union inputs keys_of (r_key_min r) (r_key_max r)) \<and>
        length (samples (sketch r)) \<le> k \<and> (0 < r_num_entries r \<or> samples (sketch r) \<noteq> []))"

lemma slice_off_mono: "1 \<le> rc \<Longrightarrow> rc \<le> sp \<Longrightarrow> i \<le> j \<Longrightarrow> slice_off sp rc i \<le> slice_off sp rc j"
  unfolding slice_off_def by (intro zdiv_mono1 mult_left_mono) auto

lemma merge_slices_ok:
  fixes kmin kmax :: u64 and rc :: wide
  defines "sp \<equiv> key_span kmin kmax"
  assumes "buckets_in_bounds inputs keys_of" "0 < k"
    and "kmin \<le> kmax" "1 \<le> uint rc" "uint rc \<le> uint sp" "uint rc < 18446744073709551616" "int b \<le> uint rc" "a \<le> b"
  shows "\<exists>rs. merge_slices es inputs kmin sp rc k [a ..< b] = Some rs \<and>
    output_buckets_ok inputs keys_of kmin kmax k rs \<and> length rs \<le> b - a \<and>
    (\<forall>r \<in> set rs. uint kmin + slice_off (uint sp) (uint rc) a \<le> uint (r_key_min r))"
  using assms(9)
proof (induction "b - a" arbitrary: a)
  case 0
  then show ?case by (simp add: output_buckets_ok_def)
next
  case (Suc d)
  let ?o = "slice_off (uint sp) (uint rc)"
  let ?mn = "slice_min kmin sp rc a" and ?mx = "slice_max kmin sp rc a"
  have ab: "a < b" "[a ..< b] = a # [Suc a ..< b]" using Suc.hyps(2) by (auto simp: upt_conv_Cons)
  have ia: "int a < uint rc" using ab(1) assms(8) by linarith
  have m: "uint ?mn = uint kmin + ?o a" "uint ?mx = uint kmin + ?o (Suc a) - 1"
    using uint_slices [OF assms(4,5) _ assms(7) ia] assms(6) by (simp_all add: sp_def)
  have st: "?o a + 1 \<le> ?o (Suc a)" by (rule slice_off_step [OF assms(5,6)])
  have bd: "0 \<le> ?o a" "?o (Suc a) \<le> uint sp"
    using slice_off_bounds(1) [OF assms(5,6), of a] slice_off_bounds(2) [OF assms(5,6), of "Suc a"] ia by auto
  have "uint sp = uint kmax - uint kmin + 1" unfolding sp_def by (rule uint_key_span [OF assms(4)])
  then have in1: "kmin \<le> ?mn" "?mn \<le> ?mx" "?mx \<le> kmax" using m st bd by (auto simp: word_le_def)
  obtain n where n: "EstimateKMVUnionEntriesForRange inputs ?mn ?mx = Some n"
    using EstimateKMVUnionForRange_bounded by blast
  have d: "d = b - Suc a" using Suc.hyps(2) by linarith
  obtain rs where rs: "merge_slices es inputs kmin sp rc k [Suc a ..< b] = Some rs"
      "output_buckets_ok inputs keys_of kmin kmax k rs" "length rs \<le> b - Suc a"
      "\<forall>r \<in> set rs. uint kmin + ?o (Suc a) \<le> uint (r_key_min r)"
    using Suc.hyps(1) [OF d] ab(1) by auto
  let ?sk = "MergeKMVSketchesForRange es inputs ?mn ?mx k"
  let ?r = "\<lparr>r_key_min = ?mn, r_key_max = ?mx, r_num_entries = n, sketch = ?sk\<rparr>"
  have rep: "represents ?sk (cut_union inputs keys_of ?mn ?mx)" by (rule MergeKMVSketches_represents [OF assms(2)])
  have len: "length (samples ?sk) \<le> k" using MergeKMVSketches_length [of es inputs ?mn ?mx k] assms(3) by (simp add: eff_samples_def)
  have R: "merge_slices es inputs kmin sp rc k [a ..< b] =
      Some (if 0 < n \<or> samples ?sk \<noteq> [] then ?r # rs else rs)"
    using n rs(1) by (simp add: ab(2) Let_def)
  have lt: "\<forall>r \<in> set rs. ?mx < r_key_min r" using rs(4) m(2) by (auto simp: word_less_def)
  have "output_buckets_ok inputs keys_of kmin kmax k (if 0 < n \<or> samples ?sk \<noteq> [] then ?r # rs else rs)"
    using rs(2) in1 rep len lt by (auto simp: output_buckets_ok_def)
  moreover have "\<forall>r \<in> set (if 0 < n \<or> samples ?sk \<noteq> [] then ?r # rs else rs). uint kmin + ?o a \<le> uint (r_key_min r)"
    using rs(4) m(1) st by auto
  ultimately show ?case using R rs(3) ab(1) by auto
qed

lemma MergeKMVRangeSketchesForOutput_ok:
  assumes "buckets_in_bounds inputs keys_of" "inputs \<noteq> []" "n \<noteq> 0" "kmin \<le> kmax"
  obtains rs rc where "MergeKMVRangeSketchesForOutput es eb inputs kmin kmax n ms mr = Some rs"
    "1 \<le> uint rc" "rc \<le> ucast n" "length rs \<le> unat (rc :: wide)"
    "output_buckets_ok inputs keys_of kmin kmax (max 1 (eff_samples es ms div unat rc)) rs"
proof -
  define mrr where "mrr = (if mr = 0 then VirtualSSTKMVRangeBuckets eb else mr)"
  define rc where "rc = min (ucast (min mrr n)) (key_span kmin kmax)"
  define k where "k = max 1 (eff_samples es ms div unat rc)"
  have up: "uint (ucast x :: wide) = uint x" for x :: u64
    by (simp add: uint_up_ucast is_up_def source_size_def target_size_def word_size)
  have sp: "uint (key_span kmin kmax) = uint kmax - uint kmin + 1" by (rule uint_key_span [OF assms(4)])
  have kk: "uint kmin \<le> uint kmax" using assms(4) by (simp add: word_le_def)
  have "mrr \<noteq> 0" using VirtualSSTKMVRangeBuckets_pos [of eb] by (auto simp: mrr_def)
  then have "min mrr n \<noteq> 0" using assms(3) by (simp add: min_def)
  then have "uint (min mrr n) \<noteq> 0" by (simp add: uint_0_iff)
  then have mn: "1 \<le> uint (min mrr n)" using uint_ge_0 [of "min mrr n"] by linarith
  have u: "uint (min x y) = min (uint x) (uint y)" for x y :: wide by (simp add: min_def word_le_def)
  have rc: "uint rc = min (uint (min mrr n)) (uint (key_span kmin kmax))" by (simp add: rc_def u up)
  have rc1: "1 \<le> uint rc" "uint rc \<le> uint (key_span kmin kmax)" "uint rc < 18446744073709551616"
    using rc mn sp kk uint_u64_less [of "min mrr n"] by auto
  have "uint (min mrr n) \<le> uint n" using min.cobounded2 [of mrr n] by (simp add: word_le_def)
  then have rcn: "rc \<le> ucast n" using rc by (simp add: word_le_def up)
  have k0: "0 < k" by (simp add: k_def)
  have b: "int (unat rc) \<le> uint rc" by simp
  obtain rs where rs: "merge_slices es inputs kmin (key_span kmin kmax) rc k [0 ..< unat rc] = Some rs"
      "output_buckets_ok inputs keys_of kmin kmax k rs" "length rs \<le> unat rc"
    using merge_slices_ok [OF assms(1) k0 assms(4) rc1 b, of 0 es] by auto
  have "MergeKMVRangeSketchesForOutput es eb inputs kmin kmax n ms mr = Some rs"
    using assms(2,3) rs(1) leD [OF assms(4)]
    by (simp add: MergeKMVRangeSketchesForOutput_def Let_def mrr_def [symmetric] rc_def [symmetric]
        k_def eff_samples_def [of es ms, symmetric])
  then show thesis using that [of rs rc] rc1(1) rcn rs(2,3) by (simp add: k_def)
qed

section \<open>Properties\<close>

text \<open>C19: merging sketches over a key range keeps the sampling contract: the result holds exactly the
  hashes, up to its theta, of the union of the inputs cut to the range, whether or not a sketch
  is complete, is trimmed or overlaps nothing.\<close>

theorem MergeKMVSketchesForRange_represents:
  assumes "buckets_in_bounds inputs keys_of"
  shows "represents (MergeKMVSketchesForRange es inputs kmin kmax ms) (cut_union inputs keys_of kmin kmax) \<and>
    length (samples (MergeKMVSketchesForRange es inputs kmin kmax ms)) \<le> eff_samples es ms"
  using MergeKMVSketches_represents [OF assms] MergeKMVSketches_length by blast

lemma single_in_bounds:
  "buckets_in_bounds [Some (single_vsst 7), Some (single_vsst 9)] (\<lambda>r. {r_key_min r})"
  by (auto simp: buckets_in_bounds_def single_vsst_def single_bucket_def represents_def MaxHash_def)

theorem MergeKMVSketchesForRange_represents_witness:
  "length (samples (MergeKMVSketchesForRange None [Some (single_vsst 7), Some (single_vsst 9)] 5 8 4)) \<le> 4"
  using MergeKMVSketchesForRange_represents [OF single_in_bounds, of None 5 8 4] by (simp add: eff_samples_def)

text \<open>C34: the bucket list of an output file is defined for all inputs. Its buckets are disjoint key
  intervals in order inside the file's interval, at most one per entry, each with a sound sketch of
  the inputs cut to its interval and no more samples than its share of the budget.\<close>

theorem MergeKMVRangeSketchesForOutput_sound:
  assumes "buckets_in_bounds inputs keys_of" "inputs \<noteq> []" "n \<noteq> 0" "kmin \<le> kmax"
  shows "\<exists>rs rc. MergeKMVRangeSketchesForOutput es eb inputs kmin kmax n ms mr = Some rs \<and>
    1 \<le> uint (rc :: wide) \<and> rc \<le> ucast n \<and> length rs \<le> unat rc \<and>
    output_buckets_ok inputs keys_of kmin kmax (max 1 (eff_samples es ms div unat rc)) rs"
  by (rule MergeKMVRangeSketchesForOutput_ok [OF assms]) blast

theorem MergeKMVRangeSketchesForOutput_sound_witness:
  "\<exists>rs. MergeKMVRangeSketchesForOutput None None [Some (single_vsst 7), Some (single_vsst 9)] 7 9 2 4 2 = Some rs"
  using MergeKMVRangeSketchesForOutput_sound [OF single_in_bounds, of 2 7 9 None None 4 2] by auto

end
