(* ===== verification/Split_SSTs.thy ===== *)
theory Split_SSTs
  imports KMV_Merge Size_Model
begin

text \<open>
  The splitting of a merged model into output files (\<open>SplitIntoSSTs\<close> of
  \<open>db/virtual_compaction/virtual_sst.cc\<close>). Cuts come from the size limit and from the
  grandparent boundaries with their dynamic threshold. The cut loop is a partial function
  and is proved to return; its cuts are strictly increasing and no gap exceeds the entry
  limit, so that, with the estimator interface, no output exceeds the byte limit.
\<close>

section \<open>Grandparent positions\<close>

text \<open>Ranks of the boundary keys inside the output range; None where a cast is undefined.\<close>

fun gp_collect :: "PLRModel \<Rightarrow> u64 \<Rightarrow> u64 \<Rightarrow> u64 \<Rightarrow> u64 list \<Rightarrow> u64 list option" where
  "gp_collect plr ntotal global_min global_max [] = Some []"
| "gp_collect plr ntotal global_min global_max (bkey # bkeys) =
     (if bkey \<le> global_min \<or> global_max \<le> bkey then gp_collect plr ntotal global_min global_max bkeys
      else let pos_d = Predict plr bkey in
           if fp_lt (Fin 0) pos_d \<and> fp_lt pos_d (du64 ntotal)
           then (case fp_to_u64 (fp_round pos_d) of
                   None \<Rightarrow> None
                 | Some p \<Rightarrow> map_option (Cons p) (gp_collect plr ntotal global_min global_max bkeys))
           else gp_collect plr ntotal global_min global_max bkeys)"

definition gp_positions :: "PLRModel \<Rightarrow> u64 \<Rightarrow> u64 \<Rightarrow> u64 \<Rightarrow> int \<Rightarrow> u64 list \<Rightarrow> u64 list option" where
  "gp_positions plr ntotal global_min global_max target_level boundaries =
     (if boundaries \<noteq> [] \<and> 0 < target_level
      then map_option sort (gp_collect plr ntotal global_min global_max boundaries) else Some [])"

section \<open>The cut loop\<close>

definition next_cut :: "u64 \<Rightarrow> u64 \<Rightarrow> u64 \<Rightarrow> u64" where
  "next_cut keys_per_sst ntotal last_split =
     (if ntotal - last_split < keys_per_sst then ntotal else last_split + keys_per_sst)"

definition gp_threshold :: "u64 \<Rightarrow> u64 \<Rightarrow> wide" where
  "gp_threshold target_sst_size switched =
     ((ucast target_sst_size :: wide) * ucast (50 + min (switched * 5) 40)) div 100"

text \<open>
  The loop over size cuts and grandparent positions. The arguments after the limits are
  the remaining positions, \<open>last_split\<close>, \<open>next_size_split\<close>, \<open>switched\<close> and the cuts so far.
\<close>

partial_function (option) split_loop ::
    "(u64 \<Rightarrow> u64) \<Rightarrow> u64 \<Rightarrow> u64 \<Rightarrow> u64 \<Rightarrow> u64 list \<Rightarrow> u64 \<Rightarrow> u64 \<Rightarrow> u64 \<Rightarrow> u64 list \<Rightarrow> u64 list option" where
  "split_loop est target keys_per_sst ntotal gps last_split next_size_split switched cuts =
     (if next_size_split < ntotal \<or> gps \<noteq> []
      then let next_gp = (if gps \<noteq> [] then hd gps else ntotal) in
           if next_size_split \<le> next_gp \<and> next_size_split < ntotal
           then split_loop est target keys_per_sst ntotal
                  (dropWhile (\<lambda>g. g \<le> next_size_split) gps) next_size_split
                  (next_cut keys_per_sst ntotal next_size_split) 0 (cuts @ [next_size_split])
           else if next_gp < ntotal
           then if last_split < next_gp
                   \<and> gp_threshold target (switched + 1) \<le> ucast (est (next_gp - last_split))
                then split_loop est target keys_per_sst ntotal (tl gps) next_gp
                       (next_cut keys_per_sst ntotal next_gp) 0 (cuts @ [next_gp])
                else split_loop est target keys_per_sst ntotal (tl gps) last_split next_size_split
                       (switched + 1) cuts
           else Some cuts
      else Some cuts)"

section \<open>Building the outputs\<close>

text \<open>The part of the model inside the key interval, with local ranks.\<close>

fun sub_segments :: "u64 \<Rightarrow> u64 \<Rightarrow> u64 \<Rightarrow> PLRSegment list \<Rightarrow> PLRSegment list" where
  "sub_segments kstart kend pos_start [] = []"
| "sub_segments kstart kend pos_start (seg # segs) =
     (if key_end seg < kstart then sub_segments kstart kend pos_start segs
      else if kend < key_start seg then []
      else seg\<lparr>key_start := max (key_start seg) kstart, key_end := min (key_end seg) kend,
               intercept := dsub (intercept seg) (du64 pos_start)\<rparr>
           # sub_segments kstart kend pos_start segs)"

definition output_ranges ::
    "string option \<Rightarrow> string option \<Rightarrow> VirtualSST option list option \<Rightarrow> nat \<Rightarrow> u64 \<Rightarrow> u64 \<Rightarrow> u64 \<Rightarrow>
     KMVRangeSketch list option" where
  "output_ranges es eb kmv_inputs kmv_samples kmin kmax n =
     (case kmv_inputs of None \<Rightarrow> Some []
      | Some inputs \<Rightarrow> MergeKMVRangeSketchesForOutput es eb inputs kmin kmax n kmv_samples 0)"

definition build_output ::
    "string option \<Rightarrow> string option \<Rightarrow> PLRModel \<Rightarrow> SSTSizeModel \<Rightarrow> VirtualSST option list option \<Rightarrow> nat \<Rightarrow>
     u64 \<Rightarrow> u64 \<Rightarrow> u64 \<Rightarrow> u64 \<Rightarrow> VirtualSST option" where
  "build_output es eb plr bytes kmv_inputs kmv_samples pos_start pos_end kstart kend0 =
     (let kend = (if kend0 < kstart then kstart else kend0);
          n_entries = pos_end - pos_start
      in case output_ranges es eb kmv_inputs kmv_samples kstart kend n_entries of
           None \<Rightarrow> None
         | Some rs \<Rightarrow>
             Some \<lparr>plr_model = \<lparr>segments = sub_segments kstart kend pos_start (segments plr)\<rparr>,
                   kmv_ranges = rs, key_min = kstart, key_max = kend,
                   num_entries = n_entries, size_bytes = Estimate bytes n_entries\<rparr>)"

text \<open>
  One run between two cuts: the file it adds to the files of the later runs. \<open>first\<close> marks
  the run that starts at the smallest key, \<open>is_last\<close> the one that ends at the largest.
\<close>

definition add_run ::
    "string option \<Rightarrow> string option \<Rightarrow> PLRModel \<Rightarrow> SSTSizeModel \<Rightarrow> VirtualSST option list option \<Rightarrow> nat \<Rightarrow>
     u64 \<Rightarrow> u64 \<Rightarrow> u64 \<Rightarrow> bool \<Rightarrow> bool \<Rightarrow> u64 \<Rightarrow> u64 \<Rightarrow> VirtualSST list option \<Rightarrow> VirtualSST list option" where
  "add_run es eb plr bytes kmv_inputs kmv_samples ntotal global_min global_max first is_last pos_start pos_end later_files =
     (if ntotal \<le> pos_start \<or> pos_end \<le> pos_start then later_files
      else case (if first then Some global_min else Inverse plr (du64 pos_start)) of
        None \<Rightarrow> None
      | Some kstart \<Rightarrow>
     (case (if is_last then Some global_max else Inverse plr (du64 (pos_end - 1))) of
        None \<Rightarrow> None
      | Some kend \<Rightarrow>
     (case build_output es eb plr bytes kmv_inputs kmv_samples pos_start pos_end kstart kend of
        None \<Rightarrow> None
      | Some v \<Rightarrow> map_option (Cons v) later_files)))"

fun build_outputs ::
    "string option \<Rightarrow> string option \<Rightarrow> PLRModel \<Rightarrow> SSTSizeModel \<Rightarrow> VirtualSST option list option \<Rightarrow> nat \<Rightarrow>
     u64 \<Rightarrow> u64 \<Rightarrow> u64 \<Rightarrow> bool \<Rightarrow> u64 \<Rightarrow> u64 list \<Rightarrow> VirtualSST list option" where
  "build_outputs es eb plr bytes kmv_inputs kmv_samples ntotal global_min global_max first pos_start [] =
     add_run es eb plr bytes kmv_inputs kmv_samples ntotal global_min global_max first True pos_start ntotal (Some [])"
| "build_outputs es eb plr bytes kmv_inputs kmv_samples ntotal global_min global_max first pos_start (c # cs) =
     add_run es eb plr bytes kmv_inputs kmv_samples ntotal global_min global_max first False pos_start c
       (build_outputs es eb plr bytes kmv_inputs kmv_samples ntotal global_min global_max False c cs)"

section \<open>The whole split\<close>

definition max_output_size :: "u64 \<Rightarrow> int \<Rightarrow> u64 list \<Rightarrow> u64" where
  "max_output_size target_sst_size target_level boundaries =
     (if boundaries \<noteq> [] \<and> 0 < target_level
      then if u64_max div 2 < target_sst_size then u64_max else 2 * target_sst_size
      else target_sst_size)"

definition entry_limit :: "SSTSizeModel \<Rightarrow> u64 \<Rightarrow> u64" where
  "entry_limit bytes max_sst_size =
     (let keys_per_sst = MaxEntries bytes max_sst_size in if keys_per_sst = 0 then 1 else keys_per_sst)"

text \<open>\<open>kmv_inputs\<close> and \<open>size_model\<close> are nullable pointers.\<close>

definition SplitIntoSSTs ::
    "string option \<Rightarrow> string option \<Rightarrow> PLRModel \<Rightarrow> u64 \<Rightarrow> u64 \<Rightarrow> u64 \<Rightarrow> u64 \<Rightarrow> u64 \<Rightarrow> int \<Rightarrow> u64 list \<Rightarrow>
     VirtualSST option list option \<Rightarrow> nat \<Rightarrow> SSTSizeModel option \<Rightarrow> VirtualSST list option" where
  "SplitIntoSSTs es eb plr ntotal target_sst_size avg_entry_size global_min global_max target_level
       boundaries kmv_inputs kmv_samples size_model =
     (if ntotal = 0 \<or> Empty plr then Some []
      else if avg_entry_size = 0 then Some []
      else let bytes = (case size_model of None \<Rightarrow> Logical avg_entry_size | Some m \<Rightarrow> m) in
      if \<not> Valid bytes then Some []
      else if target_level = 0
      then map_option (\<lambda>rs. [\<lparr>plr_model = plr, kmv_ranges = rs, key_min = global_min, key_max = global_max,
                              num_entries = ntotal, size_bytes = Estimate bytes ntotal\<rparr>])
             (output_ranges es eb kmv_inputs kmv_samples global_min global_max ntotal)
      else let keys_per_sst = entry_limit bytes (max_output_size target_sst_size target_level boundaries) in
      case gp_positions plr ntotal global_min global_max target_level boundaries of
        None \<Rightarrow> None
      | Some gps \<Rightarrow>
      (case split_loop (Estimate bytes) target_sst_size keys_per_sst ntotal gps 0 keys_per_sst 0 [] of
         None \<Rightarrow> None
       | Some cuts \<Rightarrow>
           build_outputs es eb plr bytes kmv_inputs kmv_samples ntotal global_min global_max True 0 cuts))"

section \<open>The cuts\<close>

lemma unat_diff_u64: "(a :: u64) \<le> b \<Longrightarrow> unat (b - a) = unat b - unat a"
  by (simp add: unat_sub_u64)

text \<open>Strictly increasing cuts below the total, no gap above the limit, the last one included.\<close>

fun gaps_ok :: "u64 \<Rightarrow> u64 \<Rightarrow> u64 \<Rightarrow> u64 list \<Rightarrow> bool" where
  "gaps_ok k ntotal prev [] \<longleftrightarrow> prev < ntotal \<and> ntotal - prev \<le> k"
| "gaps_ok k ntotal prev (c # cs) \<longleftrightarrow> prev < c \<and> c - prev \<le> k \<and> gaps_ok k ntotal c cs"

text \<open>The invariant of the loop: the next size cut is one limit ahead, or the rest fits.\<close>

definition cut_inv :: "u64 \<Rightarrow> u64 \<Rightarrow> u64 \<Rightarrow> u64 \<Rightarrow> bool" where
  "cut_inv k ntotal prev nxt \<longleftrightarrow> prev < ntotal \<and>
     (if nxt < ntotal then prev < nxt \<and> nxt - prev \<le> k else ntotal - prev \<le> k)"

lemma next_cut_inv:
  assumes "k \<noteq> 0" "prev < ntotal"
  shows "cut_inv k ntotal prev (next_cut k ntotal prev)"
proof (cases "ntotal - prev < k")
  case True
  then show ?thesis using assms by (simp add: cut_inv_def next_cut_def)
next
  case False
  have d: "unat (ntotal - prev) = unat ntotal - unat prev" using assms(2) by (simp add: unat_diff_u64)
  have k: "0 < unat k" "unat k \<le> unat ntotal - unat prev"
    using False assms(1) d by (simp_all add: u64_less_iff unat_u64_pos_iff not_less)
  have "unat prev + unat k < 2 ^ 64" using k unat_u64_less [of ntotal] assms(2) by (simp add: u64_less_iff)
  then have s: "unat (prev + k) = unat prev + unat k" by (rule unat_add_u64)
  then have "prev < prev + k" using k(1) by (simp add: u64_less_iff)
  moreover have "ntotal - prev \<le> k" if "\<not> prev + k < ntotal"
    using that s d by (simp add: u64_less_iff u64_le_iff)
  ultimately show ?thesis using False assms(2) by (auto simp: cut_inv_def next_cut_def)
qed

lemma next_cut_progress: "k \<noteq> 0 \<Longrightarrow> nxt < ntotal \<Longrightarrow> nxt < next_cut k ntotal nxt"
  using next_cut_inv [of k nxt ntotal] by (auto simp: cut_inv_def split: if_splits)

lemma gap_below:
  assumes "(prev :: u64) < c" "c \<le> d" "d - prev \<le> k"
  shows "c - prev \<le> k"
proof -
  have "prev \<le> c" "prev \<le> d" using assms(1,2) by (auto intro: less_imp_le order.trans)
  then have "unat (c - prev) = unat c - unat prev" "unat (d - prev) = unat d - unat prev"
    by (simp_all add: unat_sub_u64)
  then show ?thesis using assms(2,3) by (simp add: u64_le_iff)
qed

lemma split_loop_cuts:
  assumes "k \<noteq> 0" "cut_inv k ntotal prev nxt"
  shows "\<exists>new. split_loop est target k ntotal gps prev nxt switched cuts = Some (cuts @ new) \<and>
    gaps_ok k ntotal prev new"
  using assms(2)
proof (induction "(length gps, unat ntotal - unat nxt)" arbitrary: gps prev nxt switched cuts
    rule: wf_induct_rule [OF wf_lex_prod [OF wf_less_than wf_less_than]])
  case 1
  note IH = "1.hyps" and inv = "1.prems"
  let ?gp = "if gps \<noteq> [] then hd gps else ntotal"
  let ?run = "split_loop est target k ntotal"
  note unf = split_loop.simps [of est target k ntotal gps prev nxt switched cuts]
  have pt: "prev < ntotal" using inv by (simp add: cut_inv_def)
  consider (stop) "\<not> nxt < ntotal" "gps = [] \<or> \<not> hd gps < ntotal"
    | (size) "nxt < ntotal" "nxt \<le> ?gp"
    | (gp) "gps \<noteq> []" "hd gps < ntotal" "\<not> (nxt \<le> hd gps \<and> nxt < ntotal)"
  proof (cases "nxt < ntotal \<and> nxt \<le> ?gp")
    case True
    then show thesis using size by blast
  next
    case ns: False
    show thesis
    proof (cases "gps \<noteq> [] \<and> hd gps < ntotal")
      case True
      then show thesis using gp ns by (simp add: conj_commute)
    next
      case False
      have "\<not> nxt < ntotal"
      proof
        assume n: "nxt < ntotal"
        then have "ntotal \<le> ?gp" using False by auto
        then show False using ns n by (meson less_imp_le order.trans)
      qed
      then show thesis using stop False by blast
    qed
  qed
  then show ?case
  proof cases
    case stop
    then have "?run gps prev nxt switched cuts = Some cuts" by (subst unf) (auto simp: Let_def)
    then show ?thesis using stop(1) inv by (simp add: cut_inv_def)
  next
    case size
    let ?gs = "dropWhile (\<lambda>g. g \<le> nxt) gps" and ?n = "next_cut k ntotal nxt"
    have "nxt < ?n" by (rule next_cut_progress [OF assms(1) size(1)])
    then have "((length ?gs, unat ntotal - unat ?n), length gps, unat ntotal - unat nxt) \<in> less_than <*lex*> less_than"
      using size(1) length_dropWhile_le [of "\<lambda>g. g \<le> nxt" gps] by (auto simp: u64_less_iff)
    from IH [OF this next_cut_inv [OF assms(1) size(1)], of 0 "cuts @ [nxt]"]
    obtain new where new: "?run ?gs nxt ?n 0 (cuts @ [nxt]) = Some ((cuts @ [nxt]) @ new)" "gaps_ok k ntotal nxt new"
      by blast
    have "?run gps prev nxt switched cuts = ?run ?gs nxt ?n 0 (cuts @ [nxt])"
      using size by (subst unf) (simp add: Let_def)
    moreover have "gaps_ok k ntotal prev (nxt # new)" using inv size(1) new(2) by (simp add: cut_inv_def)
    ultimately show ?thesis using new(1) by (intro exI [of _ "nxt # new"]) simp
  next
    case gp
    let ?g = "hd gps"
    have dec: "((length (tl gps), m), length gps, m') \<in> less_than <*lex*> less_than" for m m' using gp(1) by simp
    let ?cut = "prev < ?g \<and> gp_threshold target (switched + 1) \<le> ucast (est (?g - prev))"
    have run: "?run gps prev nxt switched cuts =
        (if ?cut then ?run (tl gps) ?g (next_cut k ntotal ?g) 0 (cuts @ [?g])
         else ?run (tl gps) prev nxt (switched + 1) cuts)"
      by (subst unf) (simp only: Let_def gp(1-3) not_False_eq_True if_True if_False simp_thms)
    show ?thesis
    proof (cases ?cut)
      case True
      from IH [OF dec next_cut_inv [OF assms(1) gp(2)], of 0 "cuts @ [?g]"]
      obtain new where new: "?run (tl gps) ?g (next_cut k ntotal ?g) 0 (cuts @ [?g]) = Some ((cuts @ [?g]) @ new)"
        "gaps_ok k ntotal ?g new" by blast
      have "?g - prev \<le> k"
      proof (cases "nxt < ntotal")
        case True
        then have "?g \<le> nxt" using gp(3) by (simp add: not_le)
        then show ?thesis using gap_below [of prev ?g nxt k] inv \<open>?cut\<close> True by (simp add: cut_inv_def)
      next
        case False
        then show ?thesis using gap_below [of prev ?g ntotal k] inv \<open>?cut\<close> gp(2) by (simp add: cut_inv_def less_imp_le)
      qed
      then have "gaps_ok k ntotal prev (?g # new)" using True new(2) by simp
      then show ?thesis using run True new(1) by (intro exI [of _ "?g # new"]) simp
    next
      case False
      from IH [OF dec inv, of "switched + 1" cuts] show ?thesis using run False by simp
    qed
  qed
qed

section \<open>The outputs\<close>

text \<open>Models on which \<open>Inverse\<close> is defined everywhere: finite segments with keys that a double holds.\<close>

definition plr_small :: "PLRModel \<Rightarrow> bool" where
  "plr_small m \<longleftrightarrow> segments m \<noteq> [] \<and>
     (\<forall>g \<in> set (segments m). seg_finite g \<and> key_start g \<le> key_end g \<and> uint (key_end g) \<le> 2 ^ 53)"

lemma Inverse_defined: "plr_small m \<Longrightarrow> \<exists>k. Inverse m (Fin p) = Some k"
proof -
  assume m: "plr_small m"
  let ?g = "segments m ! Inverse_best (Fin p) (segments m) 0 0 PInf"
  have g: "?g \<in> set (segments m)" using m by (intro nth_mem Inverse_best_less) (auto simp: plr_small_def)
  then obtain k where "seg_inverse ?g (Fin p) = Some k"
    using m seg_inverse_within [of ?g p] by (auto simp: plr_small_def)
  then show ?thesis using m by (auto simp: Inverse_def plr_small_def)
qed

lemma Inverse_du64_defined: "plr_small m \<Longrightarrow> \<exists>k. Inverse m (du64 n) = Some k"
  by (simp add: fp_u64_64 Inverse_defined)

lemma merge_slices_total: "\<exists>rs. merge_slices es inputs kmin sp rc k is = Some rs"
proof (induction "is")
  case (Cons i "is")
  obtain n where "EstimateKMVUnionEntriesForRange inputs (slice_min kmin sp rc i) (slice_max kmin sp rc i) = Some n"
    using EstimateKMVUnionForRange_bounded by blast
  then show ?case using Cons by (auto simp: Let_def)
qed simp

lemma output_ranges_total: "\<exists>rs. output_ranges es eb kmv_inputs ks kmin kmax n = Some rs"
  using merge_slices_total
  by (auto simp: output_ranges_def MergeKMVRangeSketchesForOutput_def Let_def split: option.splits)

text \<open>What the code writes into a file for a run of \<open>n\<close> entries.\<close>

definition file_of_run :: "SSTSizeModel \<Rightarrow> u64 \<Rightarrow> VirtualSST \<Rightarrow> bool" where
  "file_of_run bytes n v \<longleftrightarrow> num_entries v = n \<and> size_bytes v = Estimate bytes n \<and> key_min v \<le> key_max v"

lemma add_run_adds:
  assumes "plr_small plr" "pos_start < pos_end" "pos_start < ntotal"
  shows "\<exists>v. add_run es eb plr bytes ki ks ntotal gmin gmax first is_last pos_start pos_end (Some fs) = Some (v # fs) \<and>
    file_of_run bytes (pos_end - pos_start) v \<and> (first \<longrightarrow> key_min v = gmin)"
proof -
  obtain a where a: "(if first then Some gmin else Inverse plr (du64 pos_start)) = Some a" "first \<longrightarrow> a = gmin"
    using Inverse_du64_defined [OF assms(1), of pos_start] by (cases first) auto
  obtain b where b: "(if is_last then Some gmax else Inverse plr (du64 (pos_end - 1))) = Some b"
    using Inverse_du64_defined [OF assms(1), of "pos_end - 1"] by (cases is_last) auto
  let ?e = "if b < a then a else b"
  obtain rs where "output_ranges es eb ki ks a ?e (pos_end - pos_start) = Some rs" using output_ranges_total by blast
  then obtain v where v: "build_output es eb plr bytes ki ks pos_start pos_end a b = Some v"
      "file_of_run bytes (pos_end - pos_start) v" "key_min v = a"
    by (auto simp: build_output_def Let_def file_of_run_def not_less)
  have "add_run es eb plr bytes ki ks ntotal gmin gmax first is_last pos_start pos_end (Some fs) = Some (v # fs)"
    using assms(2,3) unfolding add_run_def a(1) b by (simp add: v(1) not_le)
  then show ?thesis using v a(2) by blast
qed

text \<open>The lengths of the runs between the cuts.\<close>

fun runs :: "u64 \<Rightarrow> u64 \<Rightarrow> u64 list \<Rightarrow> u64 list" where
  "runs ntotal prev [] = [ntotal - prev]"
| "runs ntotal prev (c # cs) = (c - prev) # runs ntotal c cs"

lemma gaps_ok_less: "gaps_ok k ntotal prev cs \<Longrightarrow> prev < ntotal"
  by (induction cs arbitrary: prev) (auto intro: less_trans)

lemma build_outputs_files:
  assumes "plr_small plr" "gaps_ok k ntotal prev cs"
  shows "\<exists>fs. build_outputs es eb plr bytes ki ks ntotal gmin gmax first prev cs = Some fs \<and>
    list_all2 (file_of_run bytes) (runs ntotal prev cs) fs \<and> (first \<longrightarrow> key_min (hd fs) = gmin)"
  using assms(2)
proof (induction cs arbitrary: prev first)
  case Nil
  then have "prev < ntotal" by simp
  from add_run_adds [OF assms(1) this this, of es eb bytes ki ks gmin gmax first True "[]"]
  obtain v where "add_run es eb plr bytes ki ks ntotal gmin gmax first True prev ntotal (Some []) = Some [v]"
      "file_of_run bytes (ntotal - prev) v" "first \<longrightarrow> key_min v = gmin" by blast
  then show ?case by simp
next
  case (Cons c cs)
  then have c: "prev < c" "gaps_ok k ntotal c cs" by auto
  obtain fs where fs: "build_outputs es eb plr bytes ki ks ntotal gmin gmax False c cs = Some fs"
      "list_all2 (file_of_run bytes) (runs ntotal c cs) fs"
    using Cons.IH [OF c(2)] by blast
  have "prev < ntotal" using c(1) gaps_ok_less [OF c(2)] by (rule less_trans)
  from add_run_adds [OF assms(1) c(1) this, of es eb bytes ki ks gmin gmax first False fs]
  obtain v where "add_run es eb plr bytes ki ks ntotal gmin gmax first False prev c (Some fs) = Some (v # fs)"
      "file_of_run bytes (c - prev) v" "first \<longrightarrow> key_min v = gmin" by blast
  then show ?case using fs by simp
qed

lemma runs_bounds: "gaps_ok k ntotal prev cs \<Longrightarrow> n \<in> set (runs ntotal prev cs) \<Longrightarrow> n \<noteq> 0 \<and> n \<le> k"
  by (induction cs arbitrary: prev) auto

lemma runs_sum: "gaps_ok k ntotal prev cs \<Longrightarrow> sum_list (map unat (runs ntotal prev cs)) = unat ntotal - unat prev"
proof (induction cs arbitrary: prev)
  case (Cons c cs)
  then have c: "prev < c" "c < ntotal" using gaps_ok_less by auto
  then have "unat (c - prev) = unat c - unat prev" by (simp add: unat_sub_u64)
  then show ?case using Cons c by (simp add: u64_less_iff)
qed (simp add: unat_sub_u64 less_imp_le)

lemma files_of_runs:
  assumes "list_all2 (file_of_run bytes) ns fs"
  shows "map num_entries fs = ns \<and> (\<forall>v \<in> set fs. size_bytes v = Estimate bytes (num_entries v) \<and> key_min v \<le> key_max v)"
  using assms by (induction rule: list_all2_induct) (auto simp: file_of_run_def)

lemma gp_collect_defined:
  assumes "uint ntotal \<le> 2 ^ 53"
  shows "\<exists>gs. gp_collect plr ntotal gmin gmax bs = Some gs"
proof (induction bs)
  case (Cons b bs)
  have t: "du64 ntotal = Fin (of_int (uint ntotal))"
    using assms by (simp add: fp_u64_64 r64.exact repr64_int)
  have "\<exists>p. fp_to_u64 (fp_round (Predict plr b)) = Some p"
    if "fp_lt (Fin 0) (Predict plr b)" "fp_lt (Predict plr b) (du64 ntotal)"
  proof -
    from that obtain x where x: "Predict plr b = Fin x" "0 < x" "x < of_int (uint ntotal)"
      unfolding t by (cases "Predict plr b") auto
    then have r: "0 \<le> round_away x" "round_away x \<le> uint ntotal"
      using round_away_between [of 0 x "uint ntotal"] by auto
    then have "round_away x < 18446744073709551616" using uint_u64_less [of ntotal] by linarith
    then show ?thesis using fp_to_u64_int [OF r(1)] by (simp only: x(1) fp_round.simps) blast
  qed
  then show ?case using Cons by (auto simp: Let_def)
qed simp

lemma gp_positions_defined:
  "uint ntotal \<le> 2 ^ 53 \<Longrightarrow> \<exists>gs. gp_positions plr ntotal gmin gmax lvl bs = Some gs"
  using gp_collect_defined by (simp add: gp_positions_def)

lemma cut_inv_initial: "k \<noteq> 0 \<Longrightarrow> ntotal \<noteq> 0 \<Longrightarrow> cut_inv k ntotal 0 k"
  by (auto simp: cut_inv_def word_neq_0_conv)

lemma entry_limit_pos: "entry_limit bytes s \<noteq> 0"
  by (simp add: entry_limit_def Let_def)

text \<open>The size model the code uses.\<close>

definition split_model :: "u64 \<Rightarrow> SSTSizeModel option \<Rightarrow> SSTSizeModel" where
  "split_model avg sm = (case sm of None \<Rightarrow> Logical avg | Some m \<Rightarrow> m)"

lemma SplitIntoSSTs_files:
  fixes target :: u64 and bs :: "u64 list"
  assumes "plr_small plr" "ntotal \<noteq> 0" "uint ntotal \<le> 2 ^ 53" "avg \<noteq> 0" "lvl \<noteq> 0" "Valid (split_model avg sm)"
  defines "bytes \<equiv> split_model avg sm"
  defines "k \<equiv> entry_limit bytes (max_output_size target lvl bs)"
  obtains fs where "SplitIntoSSTs es eb plr ntotal target avg gmin gmax lvl bs ki ks sm = Some fs"
    "sum_list (map (unat \<circ> num_entries) fs) = unat ntotal" "key_min (hd fs) = gmin" "fs \<noteq> []"
    "\<forall>v \<in> set fs. num_entries v \<noteq> 0 \<and> num_entries v \<le> k \<and> size_bytes v = Estimate bytes (num_entries v) \<and>
       key_min v \<le> key_max v"
proof -
  obtain gps where gps: "gp_positions plr ntotal gmin gmax lvl bs = Some gps"
    using gp_positions_defined [OF assms(3)] by blast
  have "k \<noteq> 0" by (simp add: k_def entry_limit_pos)
  from split_loop_cuts [OF this cut_inv_initial [OF this assms(2)], of "Estimate bytes" target gps 0 "[]"]
  obtain cuts where cuts: "split_loop (Estimate bytes) target k ntotal gps 0 k 0 [] = Some cuts" "gaps_ok k ntotal 0 cuts"
    by auto
  obtain fs where fs: "build_outputs es eb plr bytes ki ks ntotal gmin gmax True 0 cuts = Some fs"
      "list_all2 (file_of_run bytes) (runs ntotal 0 cuts) fs" "key_min (hd fs) = gmin"
    using build_outputs_files [OF assms(1) cuts(2), of es eb bytes ki ks gmin gmax True] by blast
  have "SplitIntoSSTs es eb plr ntotal target avg gmin gmax lvl bs ki ks sm = Some fs"
    using assms(1,2,4,5,6) gps cuts(1) fs(1)
    by (simp add: SplitIntoSSTs_def Let_def Empty_def plr_small_def split_model_def [symmetric] bytes_def [symmetric]
        k_def [symmetric])
  moreover note f = files_of_runs [OF fs(2)]
  have "runs ntotal 0 cuts \<noteq> []" by (cases cuts) auto
  then have "fs \<noteq> []" using f by auto
  moreover have "sum_list (map unat (map num_entries fs)) = unat ntotal"
    using f runs_sum [OF cuts(2)] by simp
  then have "sum_list (map (unat \<circ> num_entries) fs) = unat ntotal" by (simp only: map_map)
  moreover have "num_entries v \<noteq> 0 \<and> num_entries v \<le> k" if "v \<in> set fs" for v
    using runs_bounds [OF cuts(2), of "num_entries v"] that f by (metis image_eqI list.set_map)
  ultimately show thesis using that [of fs] fs(3) f by blast
qed

section \<open>Properties\<close>

text \<open>C31: for every positive entry limit and every list of grandparent positions the cut loop ends, and
  its cuts are strictly increasing, inside the total, and at most one limit apart from the start
  to the end.\<close>

theorem split_loop_terminates:
  assumes "k \<noteq> 0" "ntotal \<noteq> 0"
  shows "\<exists>cuts. split_loop est target k ntotal gps 0 k 0 [] = Some cuts \<and> gaps_ok k ntotal 0 cuts"
  using split_loop_cuts [OF assms(1) cut_inv_initial [OF assms], of est target gps 0 "[]"] by simp

theorem split_loop_terminates_witness:
  "\<exists>cuts. split_loop (\<lambda>n. n * 10) 100 7 30 [5, 5, 12, 40] 0 7 0 [] = Some cuts \<and> gaps_ok 7 30 0 cuts"
  by (rule split_loop_terminates) simp_all

text \<open>C2: splitting a model below level 0 loses and invents nothing and respects the file size limit. The
  files are defined and nonempty, their entry counts add up to the total, each size is the estimate
  of its count, and no file exceeds the limit of the level (twice the target with grandparents)
  unless it has a single entry.\<close>

theorem SplitIntoSSTs_sound:
  assumes "plr_small plr" "ntotal \<noteq> 0" "uint ntotal \<le> 2 ^ 53" "avg \<noteq> 0" "lvl \<noteq> 0" "usable (split_model avg sm)"
  shows "\<exists>fs. SplitIntoSSTs es eb plr ntotal target avg gmin gmax lvl bs ki ks sm = Some fs \<and> fs \<noteq> [] \<and>
    sum_list (map (unat \<circ> num_entries) fs) = unat ntotal \<and> key_min (hd fs) = gmin \<and>
    (\<forall>v \<in> set fs. num_entries v \<noteq> 0 \<and> key_min v \<le> key_max v \<and>
       size_bytes v = Estimate (split_model avg sm) (num_entries v) \<and>
       (size_bytes v \<le> max_output_size target lvl bs \<or> num_entries v = 1))"
proof -
  let ?b = "split_model avg sm" and ?s = "max_output_size target lvl bs"
  have "Valid ?b" using assms(6) by (simp add: usable_def)
  then obtain fs where fs: "SplitIntoSSTs es eb plr ntotal target avg gmin gmax lvl bs ki ks sm = Some fs"
    "sum_list (map (unat \<circ> num_entries) fs) = unat ntotal" "key_min (hd fs) = gmin" "fs \<noteq> []"
    "\<forall>v \<in> set fs. num_entries v \<noteq> 0 \<and> num_entries v \<le> entry_limit ?b ?s \<and>
       size_bytes v = Estimate ?b (num_entries v) \<and> key_min v \<le> key_max v"
    by (rule SplitIntoSSTs_files [OF assms(1-5)])
  have lim: "Estimate ?b n \<le> ?s \<or> n = 1" if "n \<noteq> 0" "n \<le> entry_limit ?b ?s" for n
  proof (cases "MaxEntries ?b ?s = 0")
    case True
    then have "n \<le> 1" using that(2) by (simp add: entry_limit_def)
    moreover have "0 < unat n" using that(1) by (simp only: unat_u64_pos_iff not_False_eq_True)
    ultimately have "unat n = 1" by (simp add: u64_le_iff)
    then show ?thesis by (simp add: u64_eq_iff)
  next
    case False
    then show ?thesis using that(2) sm.adjoint [OF assms(6)] by (simp add: entry_limit_def)
  qed
  have "\<forall>v \<in> set fs. num_entries v \<noteq> 0 \<and> key_min v \<le> key_max v \<and> size_bytes v = Estimate ?b (num_entries v) \<and>
      (size_bytes v \<le> ?s \<or> num_entries v = 1)"
    using fs(5) lim by simp
  then show ?thesis using fs(1-4) by (intro exI [of _ fs] conjI)
qed

text \<open>A model with one segment for the keys 0 to 100.\<close>

definition line_plr :: PLRModel where
  "line_plr = \<lparr>segments = [\<lparr>key_start = 0, key_end = 100, slope = Fin 1, intercept = Fin 0\<rparr>]\<rparr>"

theorem SplitIntoSSTs_sound_witness:
  "\<exists>fs. SplitIntoSSTs None None line_plr 100 4000 100 0 100 1 [] None 0 None = Some fs \<and>
     sum_list (map (unat \<circ> num_entries) fs) = 100"
proof -
  have "plr_small line_plr" by (auto simp: plr_small_def line_plr_def seg_finite_def)
  moreover have "usable (split_model 100 None)" by (simp add: split_model_def usable_Logical)
  ultimately show ?thesis using SplitIntoSSTs_sound [of line_plr 100 100 1 None None None 4000 0 100 "[]" None 0] by auto
qed

text \<open>an output at level 0 is never split: every accepted call gives exactly one file with the whole
  key range, all entries and the estimated size.\<close>

theorem SplitIntoSSTs_level0:
  assumes "ntotal \<noteq> 0" "\<not> Empty plr" "avg \<noteq> 0" "Valid (split_model avg sm)"
  shows "\<exists>rs. SplitIntoSSTs es eb plr ntotal target avg gmin gmax 0 bs ki ks sm =
    Some [\<lparr>plr_model = plr, kmv_ranges = rs, key_min = gmin, key_max = gmax, num_entries = ntotal,
           size_bytes = Estimate (split_model avg sm) ntotal\<rparr>]"
  using assms output_ranges_total [of es eb ki ks gmin gmax ntotal]
  by (auto simp: SplitIntoSSTs_def Let_def split_model_def [symmetric])

theorem SplitIntoSSTs_level0_witness:
  "\<exists>rs. SplitIntoSSTs None None line_plr 100 10 100 0 100 0 [50] None 0 None =
    Some [\<lparr>plr_model = line_plr, kmv_ranges = rs, key_min = 0, key_max = 100, num_entries = 100,
           size_bytes = Estimate (split_model 100 None) 100\<rparr>]"
  by (rule SplitIntoSSTs_level0) (simp_all add: line_plr_def Empty_def split_model_def Valid_def Logical_def)

end
