(* ===== verification/Materialize.thy ===== *)
theory Materialize
  imports Split_SSTs
begin

text \<open>
  Reconstruction of keys from a descriptor (\<open>MaterializeKeys\<close> of
  \<open>db/virtual_compaction/virtual_sst.cc\<close>): one key per rank from the inverse of the model,
  then a pass that makes the keys strictly increasing and a pass that caps them at the
  largest key. The theorems give the length, the order and the bounds of the result and
  the exact condition under which the keys are distinct.
\<close>

section \<open>Definitions\<close>

text \<open>The walk to the segment that holds a rank.\<close>

function walk_segs :: "PLRSegment list \<Rightarrow> fp \<Rightarrow> nat \<Rightarrow> nat" where
  "walk_segs segs position i =
     (if i + 1 < length segs
      then if fp_le position (seg_eval (segs ! i) (key_end (segs ! i))) then i
           else walk_segs segs position (i + 1)
      else i)"
  by pat_completeness auto
termination
  by (relation "measure (\<lambda>(segs, p, i). length segs - i)") auto

declare walk_segs.simps [simp del]

definition clamp_key :: "u64 \<Rightarrow> u64 \<Rightarrow> u64 \<Rightarrow> u64" where
  "clamp_key kmin kmax key = min (max key kmin) kmax"

text \<open>The keys of the ranks in order; None where the cast of \<open>seg_inverse\<close> is undefined.\<close>

fun inverse_keys :: "PLRSegment list \<Rightarrow> u64 \<Rightarrow> u64 \<Rightarrow> nat list \<Rightarrow> nat \<Rightarrow> u64 list option" where
  "inverse_keys segs kmin kmax [] seg_idx = Some []"
| "inverse_keys segs kmin kmax (pos # ps) seg_idx =
     (let position = didx pos;
          idx = walk_segs segs position seg_idx
      in case seg_inverse (segs ! idx) position of
           None \<Rightarrow> None
         | Some key \<Rightarrow> map_option (Cons (clamp_key kmin kmax key)) (inverse_keys segs kmin kmax ps idx))"

text \<open>The pass that makes the keys strictly increasing, after the key \<open>prev\<close>.\<close>

fun bump_keys :: "u64 \<Rightarrow> u64 list \<Rightarrow> u64 list" where
  "bump_keys prev [] = []"
| "bump_keys prev (k # ks) = (let k' = (if k \<le> prev then prev + 1 else k) in k' # bump_keys k' ks)"

definition increasing_keys :: "u64 list \<Rightarrow> u64 list" where
  "increasing_keys keys = (case keys of [] \<Rightarrow> [] | k # ks \<Rightarrow> k # bump_keys k ks)"

text \<open>The loop from the back, on the reversed list: caps until a key is within bounds.\<close>

fun cap_from_back :: "u64 \<Rightarrow> u64 list \<Rightarrow> u64 list" where
  "cap_from_back kmax [] = []"
| "cap_from_back kmax (k # ks) = (if kmax < k then kmax # cap_from_back kmax ks else k # ks)"

definition cap_keys :: "u64 \<Rightarrow> u64 list \<Rightarrow> u64 list" where
  "cap_keys kmax keys =
     (if keys \<noteq> [] \<and> kmax < last keys then rev (cap_from_back kmax (rev keys)) else keys)"

definition MaterializeKeys :: "VirtualSST \<Rightarrow> u64 list option" where
  "MaterializeKeys v =
     (if num_entries v = 0 \<or> Empty (plr_model v) then Some []
      else map_option (\<lambda>keys. cap_keys (key_max v) (increasing_keys keys))
             (inverse_keys (segments (plr_model v)) (key_min v) (key_max v) [0 ..< unat (num_entries v)] 0))"

section \<open>The walk and the inverse keys\<close>

lemma walk_segs_less: "i < length segs \<Longrightarrow> walk_segs segs p i < length segs"
proof (induction segs p i rule: walk_segs.induct)
  case (1 segs p i)
  show ?case
  proof (cases "i + 1 < length segs \<and> \<not> fp_le p (seg_eval (segs ! i) (key_end (segs ! i)))")
    case True
    then have "walk_segs segs p (i + 1) < length segs" using "1.IH" by simp
    moreover have "walk_segs segs p i = walk_segs segs p (i + 1)"
      using True by (subst walk_segs.simps) simp
    ultimately show ?thesis by simp
  next
    case False
    then have "walk_segs segs p i = i" by (subst walk_segs.simps) auto
    then show ?thesis using "1.prems" by simp
  qed
qed

lemma clamp_key_bounds: "kmin \<le> kmax \<Longrightarrow> kmin \<le> clamp_key kmin kmax k \<and> clamp_key kmin kmax k \<le> kmax"
  by (simp add: clamp_key_def)

lemma seg_inverse_defined:
  assumes "plr_small m" "g \<in> set (segments m)" "int i \<le> 2 ^ 64"
  shows "\<exists>k. seg_inverse g (didx i) = Some k"
  using assms(1,2) didx_Fin [OF assms(3)]
    seg_inverse_within [of g "rnd64 (of_int (int i))"]
  unfolding plr_small_def by metis

lemma inverse_keys_defined:
  assumes "plr_small m" "kmin \<le> kmax" "\<forall>p \<in> set ps. int p \<le> 2 ^ 64" "i < length (segments m)"
  shows "\<exists>ks. inverse_keys (segments m) kmin kmax ps i = Some ks \<and> length ks = length ps \<and>
    (\<forall>k \<in> set ks. kmin \<le> k \<and> k \<le> kmax)"
  using assms(3,4)
proof (induction ps arbitrary: i)
  case (Cons p ps)
  let ?j = "walk_segs (segments m) (didx p) i"
  have j: "?j < length (segments m)" using Cons.prems(2) by (rule walk_segs_less)
  obtain k where k: "seg_inverse (segments m ! ?j) (didx p) = Some k"
    using seg_inverse_defined [OF assms(1) nth_mem [OF j]] Cons.prems(1) by auto
  obtain ks where "inverse_keys (segments m) kmin kmax ps ?j = Some ks" "length ks = length ps"
      "\<forall>k \<in> set ks. kmin \<le> k \<and> k \<le> kmax"
    using Cons.IH [OF _ j] Cons.prems(1) by auto
  then show ?case using k clamp_key_bounds [OF assms(2), of k] by (simp add: Let_def)
qed simp

section \<open>Strict order and the cap\<close>

lemma bump_keys_length [simp]: "length (bump_keys prev ks) = length ks"
  by (induction ks arbitrary: prev) (auto simp: Let_def)

text \<open>Without wrap-around the bumped keys increase and grow by at most one per key.\<close>

lemma bump_keys_bounds:
  assumes "\<forall>k \<in> set ks. unat k \<le> m" "unat prev \<le> m" "m + length ks < 2 ^ 64"
  shows "sorted_wrt (<) (prev # bump_keys prev ks) \<and> (\<forall>k \<in> set (bump_keys prev ks). unat k \<le> m + length ks)"
  using assms
proof (induction ks arbitrary: prev m)
  case (Cons k ks)
  let ?k = "if k \<le> prev then prev + 1 else k"
  have s: "unat (prev + 1) = unat prev + 1" using Cons.prems(2,3) by (subst unat_add_u64) auto
  have k: "prev < ?k" "unat ?k \<le> m + 1"
    using Cons.prems(1,2) s by (auto simp: u64_less_iff u64_le_iff not_le)
  have b: "\<forall>x \<in> set ks. unat x \<le> m + 1" "m + 1 + length ks < 2 ^ 64" using Cons.prems by auto
  have "sorted_wrt (<) (?k # bump_keys ?k ks) \<and> (\<forall>x \<in> set (bump_keys ?k ks). unat x \<le> m + 1 + length ks)"
    by (rule Cons.IH [OF b(1) k(2) b(2)])
  then show ?case using k by (auto simp: Let_def intro: less_trans)
qed simp

lemma bump_keys_ge: "\<forall>k \<in> set ks. kmin \<le> k \<Longrightarrow> sorted_wrt (<) (prev # bump_keys prev ks) \<Longrightarrow> kmin \<le> prev \<Longrightarrow>
    k \<in> set (bump_keys prev ks) \<Longrightarrow> kmin \<le> k"
  by (auto intro: order.trans less_imp_le)

lemma cap_from_back_strict:
  assumes "sorted_wrt (>) ks"
  shows "cap_from_back kmax ks = map (min kmax) ks"
  using assms
proof (induction ks)
  case (Cons k ks)
  show ?case
  proof (cases "kmax < k")
    case True
    then show ?thesis using Cons by (simp add: less_imp_le min_def)
  next
    case False
    have "\<forall>x \<in> set ks. x \<le> kmax" using Cons.prems False by (auto simp: not_less intro: less_imp_le order.trans)
    then have "map (min kmax) ks = ks" by (intro map_idI) (simp add: min_def antisym)
    then show ?thesis using False by (simp add: min.absorb2 [OF leI [OF False]])
  qed
qed simp

lemma cap_keys_strict:
  assumes "sorted_wrt (<) keys"
  shows "cap_keys kmax keys = map (min kmax) keys"
proof (cases "keys \<noteq> [] \<and> kmax < last keys")
  case True
  have "sorted_wrt (>) (rev keys)" using assms by (simp add: sorted_wrt_rev)
  then show ?thesis using True by (simp add: cap_keys_def cap_from_back_strict rev_map)
next
  case False
  have "x \<le> kmax" if "x \<in> set keys" for x
    using sorted_le_last [OF strict_sorted_imp_sorted [OF assms] that] False that by (auto simp: not_less)
  then have "map (min kmax) keys = keys" by (intro map_idI) (simp add: min_def antisym)
  then show ?thesis by (simp only: cap_keys_def False if_False)
qed

section \<open>The result\<close>

lemma increasing_keys_props:
  assumes "\<forall>k \<in> set ks. kmin \<le> k \<and> k \<le> kmax" "unat kmax + length ks < 2 ^ 64"
  shows "sorted_wrt (<) (increasing_keys ks) \<and> length (increasing_keys ks) = length ks \<and>
    (\<forall>k \<in> set (increasing_keys ks). kmin \<le> k)"
proof (cases ks)
  case (Cons k0 rest)
  have "sorted_wrt (<) (k0 # bump_keys k0 rest)"
    using bump_keys_bounds [of rest "unat kmax" k0] assms by (simp add: Cons u64_le_iff)
  moreover have "kmin \<le> k0" using assms(1) by (simp add: Cons)
  ultimately show ?thesis by (auto simp: Cons increasing_keys_def intro: order.trans less_imp_le)
qed (simp add: increasing_keys_def)

lemma map_min_strict_iff:
  assumes "sorted_wrt (<) (ks :: u64 list)"
  shows "sorted_wrt (<) (map (min m) ks) \<longleftrightarrow> (\<forall>k \<in> set (butlast ks). k < m)"
  using assms
proof (induction ks rule: induct_list012)
  case (3 a b ks)
  have two: "sorted_wrt (<) (map (min m) (a # b # ks)) \<longleftrightarrow> min m a < min m b \<and> sorted_wrt (<) (map (min m) (b # ks))"
    by (simp only: list.map sorted_wrt2 [OF transp_on_less])
  have first: "min m a < min m b \<longleftrightarrow> a < m" using "3.prems" by (auto simp: min_def not_le)
  have IH: "sorted_wrt (<) (map (min m) (b # ks)) \<longleftrightarrow> (\<forall>k \<in> set (butlast (b # ks)). k < m)"
    by (rule "3.IH"(2)) (use "3.prems" in simp)
  show ?case unfolding two first IH by simp
qed auto

text \<open>The keys before the cap.\<close>

definition uncapped_keys :: "VirtualSST \<Rightarrow> u64 list" where
  "uncapped_keys v =
     (case inverse_keys (segments (plr_model v)) (key_min v) (key_max v) [0 ..< unat (num_entries v)] 0 of
        None \<Rightarrow> [] | Some keys \<Rightarrow> increasing_keys keys)"

lemma MaterializeKeys_result:
  assumes "plr_small (plr_model v)" "num_entries v \<noteq> 0" "key_min v \<le> key_max v"
    and "unat (key_max v) + unat (num_entries v) < 2 ^ 64"
  shows "MaterializeKeys v = Some (map (min (key_max v)) (uncapped_keys v)) \<and>
    sorted_wrt (<) (uncapped_keys v) \<and> length (uncapped_keys v) = unat (num_entries v) \<and>
    (\<forall>k \<in> set (uncapped_keys v). key_min v \<le> k)"
proof -
  let ?m = "plr_model v" and ?n = "unat (num_entries v)"
  have "?n \<le> 2 ^ 64" using unat_u64_less [of "num_entries v"] by simp
  then have "\<forall>p \<in> set [0 ..< ?n]. int p \<le> 2 ^ 64" by auto
  moreover have "0 < length (segments ?m)" using assms(1) by (simp add: plr_small_def)
  ultimately obtain ks where ks: "inverse_keys (segments ?m) (key_min v) (key_max v) [0 ..< ?n] 0 = Some ks"
      "length ks = ?n" "\<forall>k \<in> set ks. key_min v \<le> k \<and> k \<le> key_max v"
    using inverse_keys_defined [OF assms(1,3)] by (metis diff_zero length_upt)
  have u: "uncapped_keys v = increasing_keys ks" by (simp add: uncapped_keys_def ks(1))
  have "unat (key_max v) + length ks < 2 ^ 64" using assms(4) ks(2) by simp
  note p = increasing_keys_props [OF ks(3) this]
  have "MaterializeKeys v = Some (cap_keys (key_max v) (uncapped_keys v))"
    using assms(1,2) by (simp add: MaterializeKeys_def Empty_def plr_small_def ks(1) u)
  then show ?thesis using p ks(2) cap_keys_strict [of "increasing_keys ks"] by (simp add: u)
qed

lemma sorted_map_min: "sorted ks \<Longrightarrow> sorted (map (min (m :: u64)) ks)"
  by (induction ks) (auto intro: min.coboundedI2)

section \<open>Properties\<close>

text \<open>C10: materialization gives exactly as many keys as the descriptor has entries, in ascending order and
  inside the key interval of the descriptor, for models whose keys a double holds.\<close>

theorem MaterializeKeys_sound:
  assumes "plr_small (plr_model v)" "num_entries v \<noteq> 0" "key_min v \<le> key_max v"
    and "unat (key_max v) + unat (num_entries v) < 2 ^ 64"
  shows "\<exists>ks. MaterializeKeys v = Some ks \<and> length ks = unat (num_entries v) \<and> sorted ks \<and>
    (\<forall>k \<in> set ks. key_min v \<le> k \<and> k \<le> key_max v)"
proof -
  note r = MaterializeKeys_result [OF assms]
  then have "sorted (map (min (key_max v)) (uncapped_keys v))"
    by (intro sorted_map_min strict_sorted_imp_sorted) blast
  then show ?thesis using r assms(3) by auto
qed

text \<open>A descriptor of three entries on two keys.\<close>

definition crowded :: VirtualSST where
  "crowded = \<lparr>plr_model = \<lparr>segments = [\<lparr>key_start = 5, key_end = 6, slope = Fin 1, intercept = Fin (- 5)\<rparr>]\<rparr>,
     kmv_ranges = [], key_min = 5, key_max = 6, num_entries = 3, size_bytes = 0\<rparr>"

lemma crowded_small: "plr_small (plr_model crowded)"
  by (auto simp: crowded_def plr_small_def seg_finite_def)

theorem MaterializeKeys_sound_witness:
  "\<exists>ks. MaterializeKeys crowded = Some ks \<and> length ks = 3 \<and> sorted ks"
  using MaterializeKeys_sound [OF crowded_small] by (auto simp: crowded_def)

text \<open>C36: the materialized keys are distinct exactly when every key but the last was below the largest key
  before the cap: the cap itself removes no duplicates.\<close>

theorem MaterializeKeys_distinct_iff:
  assumes "plr_small (plr_model v)" "num_entries v \<noteq> 0" "key_min v \<le> key_max v"
    and "unat (key_max v) + unat (num_entries v) < 2 ^ 64"
  shows "map_option (sorted_wrt (<)) (MaterializeKeys v) = Some (\<forall>k \<in> set (butlast (uncapped_keys v)). k < key_max v)"
  using MaterializeKeys_result [OF assms] map_min_strict_iff by simp

theorem MaterializeKeys_distinct_iff_witness:
  "map_option (sorted_wrt (<)) (MaterializeKeys crowded) = Some False"
proof -
  have "uncapped_keys crowded = [5, 6, 7]" by code_simp
  then show ?thesis using MaterializeKeys_distinct_iff [OF crowded_small] by (simp add: crowded_def)
qed

text \<open>The cap leaves a duplicate key.\<close>

lemma MaterializeKeys_duplicate: "MaterializeKeys crowded = Some [5, 6, 6]"
  by code_simp

end
