(* ===== verification/Coding.thy ===== *)
theory Coding
  imports Vc_Prelude
begin

text \<open>
  The byte encodings of \<open>util/coding_lean.h\<close>, \<open>util/coding.h\<close> and
  \<open>util/coding.cc\<close>: fixed-width little-endian integers, varints, zigzag integers
  and length-prefixed slices. A \<open>Slice\<close> or \<open>std::string\<close> is a list of bytes, an
  encoder returns the bytes it writes, and a decoder returns the value with the
  rest of the input, or \<open>None\<close> where the code returns false or a null pointer.
\<close>

unbundle bit_operations_syntax

section \<open>Definitions\<close>

type_synonym byte = "8 word"
type_synonym Slice = "byte list"

subsection \<open>Fixed-width integers\<close>

text \<open>The two branches on \<open>port::kLittleEndian\<close> store the same bytes.\<close>

definition EncodeFixed16 :: "16 word \<Rightarrow> Slice" where
  "EncodeFixed16 value = [ucast (value AND 0xff), ucast (drop_bit 8 value AND 0xff)]"

definition EncodeFixed32 :: "u32 \<Rightarrow> Slice" where
  "EncodeFixed32 value =
     [ucast (value AND 0xff), ucast (drop_bit 8 value AND 0xff),
      ucast (drop_bit 16 value AND 0xff), ucast (drop_bit 24 value AND 0xff)]"

definition EncodeFixed64 :: "u64 \<Rightarrow> Slice" where
  "EncodeFixed64 value =
     [ucast (value AND 0xff), ucast (drop_bit 8 value AND 0xff),
      ucast (drop_bit 16 value AND 0xff), ucast (drop_bit 24 value AND 0xff),
      ucast (drop_bit 32 value AND 0xff), ucast (drop_bit 40 value AND 0xff),
      ucast (drop_bit 48 value AND 0xff), ucast (drop_bit 56 value AND 0xff)]"

text \<open>The decoders do not check bounds; a read past the input is \<open>None\<close>.\<close>

fun DecodeFixed16 :: "Slice \<Rightarrow> 16 word option" where
  "DecodeFixed16 (p0 # p1 # _) = Some (ucast p0 OR push_bit 8 (ucast p1))"
| "DecodeFixed16 _ = None"

fun DecodeFixed32 :: "Slice \<Rightarrow> u32 option" where
  "DecodeFixed32 (p0 # p1 # p2 # p3 # _) =
     Some (ucast p0 OR push_bit 8 (ucast p1) OR push_bit 16 (ucast p2) OR push_bit 24 (ucast p3))"
| "DecodeFixed32 _ = None"

definition DecodeFixed64 :: "Slice \<Rightarrow> u64 option" where
  "DecodeFixed64 ptr =
     (case (DecodeFixed32 ptr, DecodeFixed32 (drop 4 ptr)) of
        (Some lo, Some hi) \<Rightarrow> Some (push_bit 32 (ucast hi) OR ucast lo)
      | _ \<Rightarrow> None)"

definition PutFixed16 :: "Slice \<Rightarrow> 16 word \<Rightarrow> Slice" where
  "PutFixed16 dst value = dst @ EncodeFixed16 value"

definition PutFixed32 :: "Slice \<Rightarrow> u32 \<Rightarrow> Slice" where
  "PutFixed32 dst value = dst @ EncodeFixed32 value"

definition PutFixed64 :: "Slice \<Rightarrow> u64 \<Rightarrow> Slice" where
  "PutFixed64 dst value = dst @ EncodeFixed64 value"

definition GetFixed64 :: "Slice \<Rightarrow> (u64 \<times> Slice) option" where
  "GetFixed64 input =
     (if length input < 8 then None
      else map_option (\<lambda>value. (value, drop 8 input)) (DecodeFixed64 input))"

definition GetFixed32 :: "Slice \<Rightarrow> (u32 \<times> Slice) option" where
  "GetFixed32 input =
     (if length input < 4 then None
      else map_option (\<lambda>value. (value, drop 4 input)) (DecodeFixed32 input))"

definition GetFixed16 :: "Slice \<Rightarrow> (16 word \<times> Slice) option" where
  "GetFixed16 input =
     (if length input < 2 then None
      else map_option (\<lambda>value. (value, drop 2 input)) (DecodeFixed16 input))"

subsection \<open>Varints\<close>

definition EncodeVarint32 :: "u32 \<Rightarrow> Slice" where
  "EncodeVarint32 v =
     (if v < push_bit 7 1 then [ucast v]
      else if v < push_bit 14 1 then [ucast (v OR 128), ucast (drop_bit 7 v)]
      else if v < push_bit 21 1 then
        [ucast (v OR 128), ucast (drop_bit 7 v OR 128), ucast (drop_bit 14 v)]
      else if v < push_bit 28 1 then
        [ucast (v OR 128), ucast (drop_bit 7 v OR 128), ucast (drop_bit 14 v OR 128),
         ucast (drop_bit 21 v)]
      else
        [ucast (v OR 128), ucast (drop_bit 7 v OR 128), ucast (drop_bit 14 v OR 128),
         ucast (drop_bit 21 v OR 128), ucast (drop_bit 28 v)])"

lemma drop_bit_7_less:
  assumes "128 \<le> (v :: 'a :: len word)" and "128 < (2 :: nat) ^ LENGTH('a)"
  shows "unat (drop_bit 7 v) < unat v"
proof -
  have u: "unat (128 :: 'a word) = 128"
    using assms(2) by (simp add: unsigned_numeral take_bit_nat_eq_self)
  then have "128 \<le> unat v" using assms(1) by (simp add: word_le_nat_alt)
  moreover have "unat (drop_bit 7 v) = unat v div 128"
    by (simp add: unat_drop_bit)
  ultimately show ?thesis by simp
qed

function EncodeVarint64 :: "u64 \<Rightarrow> Slice" where
  "EncodeVarint64 v =
     (if v \<ge> 128 then ucast ((v AND 127) OR 128) # EncodeVarint64 (drop_bit 7 v) else [ucast v])"
  by auto
termination by (relation "measure unat") (simp_all add: drop_bit_7_less)

declare EncodeVarint64.simps [simp del]

definition PutVarint32 :: "Slice \<Rightarrow> u32 \<Rightarrow> Slice" where
  "PutVarint32 dst v = dst @ EncodeVarint32 v"

definition PutVarint32Varint32 :: "Slice \<Rightarrow> u32 \<Rightarrow> u32 \<Rightarrow> Slice" where
  "PutVarint32Varint32 dst v1 v2 = dst @ EncodeVarint32 v1 @ EncodeVarint32 v2"

definition PutVarint32Varint32Varint32 :: "Slice \<Rightarrow> u32 \<Rightarrow> u32 \<Rightarrow> u32 \<Rightarrow> Slice" where
  "PutVarint32Varint32Varint32 dst v1 v2 v3 =
     dst @ EncodeVarint32 v1 @ EncodeVarint32 v2 @ EncodeVarint32 v3"

definition PutVarint64 :: "Slice \<Rightarrow> u64 \<Rightarrow> Slice" where
  "PutVarint64 dst v = dst @ EncodeVarint64 v"

definition PutVarint64Varint64 :: "Slice \<Rightarrow> u64 \<Rightarrow> u64 \<Rightarrow> Slice" where
  "PutVarint64Varint64 dst v1 v2 = dst @ EncodeVarint64 v1 @ EncodeVarint64 v2"

definition PutVarint32Varint64 :: "Slice \<Rightarrow> u32 \<Rightarrow> u64 \<Rightarrow> Slice" where
  "PutVarint32Varint64 dst v1 v2 = dst @ EncodeVarint32 v1 @ EncodeVarint64 v2"

definition PutVarint32Varint32Varint64 :: "Slice \<Rightarrow> u32 \<Rightarrow> u32 \<Rightarrow> u64 \<Rightarrow> Slice" where
  "PutVarint32Varint32Varint64 dst v1 v2 v3 =
     dst @ EncodeVarint32 v1 @ EncodeVarint32 v2 @ EncodeVarint64 v3"

function VarintLength_loop :: "u64 \<Rightarrow> 16 word \<Rightarrow> 16 word" where
  "VarintLength_loop v len = (if v \<ge> 128 then VarintLength_loop (drop_bit 7 v) (len + 1) else len)"
  by auto
termination by (relation "measure (\<lambda>(v, _). unat v)") (simp_all add: drop_bit_7_less)

declare VarintLength_loop.simps [simp del]

definition VarintLength :: "u64 \<Rightarrow> 16 word" where
  "VarintLength v = VarintLength_loop v 1"

fun GetVarint32PtrFallback_loop :: "nat \<Rightarrow> u32 \<Rightarrow> Slice \<Rightarrow> (u32 \<times> Slice) option" where
  "GetVarint32PtrFallback_loop shift result [] = None"
| "GetVarint32PtrFallback_loop shift result (b # p) =
     (if shift \<le> 28
      then if b AND 128 \<noteq> 0
           then GetVarint32PtrFallback_loop (shift + 7) (result OR push_bit shift (ucast b AND 127)) p
           else Some (result OR push_bit shift (ucast b), p)
      else None)"

definition GetVarint32PtrFallback :: "Slice \<Rightarrow> (u32 \<times> Slice) option" where
  "GetVarint32PtrFallback p = GetVarint32PtrFallback_loop 0 0 p"

definition GetVarint32Ptr :: "Slice \<Rightarrow> (u32 \<times> Slice) option" where
  "GetVarint32Ptr p =
     (case p of
        b # p' \<Rightarrow> if (ucast b :: u32) AND 128 = 0 then Some (ucast b, p') else GetVarint32PtrFallback p
      | [] \<Rightarrow> GetVarint32PtrFallback p)"

fun GetVarint64Ptr_loop :: "nat \<Rightarrow> u64 \<Rightarrow> Slice \<Rightarrow> (u64 \<times> Slice) option" where
  "GetVarint64Ptr_loop shift result [] = None"
| "GetVarint64Ptr_loop shift result (b # p) =
     (if shift \<le> 63
      then if b AND 128 \<noteq> 0
           then GetVarint64Ptr_loop (shift + 7) (result OR push_bit shift (ucast b AND 127)) p
           else Some (result OR push_bit shift (ucast b), p)
      else None)"

definition GetVarint64Ptr :: "Slice \<Rightarrow> (u64 \<times> Slice) option" where
  "GetVarint64Ptr p = GetVarint64Ptr_loop 0 0 p"

definition GetVarint32 :: "Slice \<Rightarrow> (u32 \<times> Slice) option" where
  "GetVarint32 input = GetVarint32Ptr input"

definition GetVarint64 :: "Slice \<Rightarrow> (u64 \<times> Slice) option" where
  "GetVarint64 input = GetVarint64Ptr input"

subsection \<open>Signed varints and length-prefixed slices\<close>

text \<open>An \<open>int64_t\<close> is kept as its 64-bit pattern; the signed shift is arithmetic.\<close>

definition i64ToZigzag :: "u64 \<Rightarrow> u64" where
  "i64ToZigzag l = push_bit 1 l XOR signed_drop_bit 63 l"

definition zigzagToI64 :: "u64 \<Rightarrow> u64" where
  "zigzagToI64 n = drop_bit 1 n XOR - (n AND 1)"

definition PutVarsignedint64 :: "Slice \<Rightarrow> u64 \<Rightarrow> Slice" where
  "PutVarsignedint64 dst v = dst @ EncodeVarint64 (i64ToZigzag v)"

definition GetVarsignedint64Ptr :: "Slice \<Rightarrow> (u64 \<times> Slice) option" where
  "GetVarsignedint64Ptr p = map_option (\<lambda>(u, q). (zigzagToI64 u, q)) (GetVarint64Ptr p)"

definition GetVarsignedint64 :: "Slice \<Rightarrow> (u64 \<times> Slice) option" where
  "GetVarsignedint64 input = GetVarsignedint64Ptr input"

definition PutLengthPrefixedSlice :: "Slice \<Rightarrow> Slice \<Rightarrow> Slice" where
  "PutLengthPrefixedSlice dst value = PutVarint32 dst (word_of_nat (length value)) @ value"

definition PutLengthPrefixedSliceParts :: "Slice \<Rightarrow> nat \<Rightarrow> Slice list \<Rightarrow> Slice" where
  "PutLengthPrefixedSliceParts dst total_bytes parts =
     PutVarint32 dst (word_of_nat (fold (\<lambda>part t. t + length part) parts total_bytes)) @ concat parts"

definition PutLengthPrefixedSlicePartsWithPadding :: "Slice \<Rightarrow> Slice list \<Rightarrow> nat \<Rightarrow> Slice" where
  "PutLengthPrefixedSlicePartsWithPadding dst parts pad_sz =
     PutLengthPrefixedSliceParts dst pad_sz parts @ replicate pad_sz 0"

definition GetLengthPrefixedSlice :: "Slice \<Rightarrow> (Slice \<times> Slice) option" where
  "GetLengthPrefixedSlice input =
     (case GetVarint32 input of
        Some (len, input') \<Rightarrow>
          if length input' \<ge> unat len then Some (take (unat len) input', drop (unat len) input') else None
      | None \<Rightarrow> None)"

section \<open>Fixed-width round trips\<close>

lemma and_255: "(x :: 'a :: len word) AND 255 = take_bit 8 x"
  by (simp add: take_bit_eq_mask mask_eq_exp_minus_1)

lemma length_EncodeFixed [simp]:
  "length (EncodeFixed16 v2) = 2" "length (EncodeFixed32 v4) = 4" "length (EncodeFixed64 v8) = 8"
  by (simp_all add: EncodeFixed16_def EncodeFixed32_def EncodeFixed64_def)

lemma DecodeFixed16_Encode [simp]: "DecodeFixed16 (EncodeFixed16 v @ rest) = Some v"
  unfolding EncodeFixed16_def and_255
  by (auto simp: bit_simps intro!: bit_word_eqI)

lemma DecodeFixed32_Encode [simp]: "DecodeFixed32 (EncodeFixed32 v @ rest) = Some v"
proof -
  let ?b = "\<lambda>i. ucast (ucast (take_bit 8 (drop_bit i v)) :: byte) :: u32"
  have "?b 0 OR push_bit 8 (?b 8) OR push_bit 16 (?b 16) OR push_bit 24 (?b 24) = v"
  proof (rule bit_word_eqI)
    fix n assume "n < LENGTH(32)"
    then consider "n < 8" | "8 \<le> n" "n < 16" | "16 \<le> n" "n < 24" | "24 \<le> n" "n < 32" by force
    then show "bit (?b 0 OR push_bit 8 (?b 8) OR push_bit 16 (?b 16) OR push_bit 24 (?b 24)) n = bit v n"
      by cases (auto simp: bit_simps)
  qed
  then show ?thesis unfolding EncodeFixed32_def and_255 by simp
qed

lemma EncodeFixed64_halves:
  "EncodeFixed64 v = EncodeFixed32 (ucast v) @ EncodeFixed32 (ucast (drop_bit 32 v))"
  unfolding EncodeFixed32_def EncodeFixed64_def and_255
  by (auto simp: bit_simps ac_simps intro!: bit_word_eqI)

lemma DecodeFixed64_Encode [simp]: "DecodeFixed64 (EncodeFixed64 v @ rest) = Some v"
proof -
  have "push_bit 32 (ucast (ucast (drop_bit 32 v) :: u32)) OR ucast (ucast v :: u32) = v"
    by (auto simp: bit_simps intro!: bit_word_eqI)
  then show ?thesis by (simp add: DecodeFixed64_def EncodeFixed64_halves)
qed

lemma GetFixed_Encode [simp]:
  "GetFixed16 (EncodeFixed16 v2 @ rest) = Some (v2, rest)"
  "GetFixed32 (EncodeFixed32 v4 @ rest) = Some (v4, rest)"
  "GetFixed64 (EncodeFixed64 v8 @ rest) = Some (v8, rest)"
  by (simp_all add: GetFixed16_def GetFixed32_def GetFixed64_def)

lemma DecodeFixed32_defined: "DecodeFixed32 p \<noteq> None \<longleftrightarrow> 4 \<le> length p"
  by (cases p rule: DecodeFixed32.cases) auto

lemma DecodeFixed64_defined: "DecodeFixed64 p \<noteq> None \<longleftrightarrow> 8 \<le> length p"
  using DecodeFixed32_defined [of p] DecodeFixed32_defined [of "drop 4 p"]
  by (auto simp: DecodeFixed64_def split: option.splits)

lemma byte_high_bit: "8 \<le> k \<Longrightarrow> \<not> bit (b :: byte) k"
  using bit_imp_le_length [of b k] by auto

lemma EncodeFixed64_Decode:
  assumes "length p = 8"
  shows "\<exists>v. DecodeFixed64 p = Some v \<and> EncodeFixed64 v = p"
proof -
  obtain a b c d e f g h where p: "p = [a, b, c, d, e, f, g, h]"
    using assms by (auto simp: numeral_eq_Suc length_Suc_conv)
  show ?thesis unfolding p DecodeFixed64_def EncodeFixed64_def and_255
    by (auto simp: bit_simps byte_high_bit intro!: bit_word_eqI)
qed

section \<open>Varint round trips\<close>

lemma or_join: "((r :: 'a :: len word) OR push_bit s (take_bit 7 v)) OR push_bit (s + 7) (drop_bit 7 v) = r OR push_bit s v"
proof (rule bit_word_eqI)
  fix n assume "n < LENGTH('a)"
  then show "bit ((r OR push_bit s (take_bit 7 v)) OR push_bit (s + 7) (drop_bit 7 v)) n = bit (r OR push_bit s v) n"
    by (cases "n < s + 7") (auto simp: bit_simps)
qed

lemma unat_u64_le_iff: "128 \<le> (v :: u64) \<longleftrightarrow> 128 \<le> unat v"
  by (simp add: word_le_nat_alt)

lemma word_127: "(127 :: 'a :: len word) = mask 7"
  by (simp add: mask_eq_exp_minus_1)

lemma bit_128: "bit (128 :: int) n \<longleftrightarrow> n = 7"
  using bit_exp_iff [where ?'a = int, of 7 n] by simp

lemma continuation_byte:
  fixes v :: "'a :: len word"
  assumes "8 \<le> LENGTH('a)"
  shows "(ucast ((v AND 127) OR 128) :: byte) AND 128 \<noteq> 0"
    and "ucast (ucast ((v AND 127) OR 128) :: byte) AND 127 = take_bit 7 v"
proof -
  let ?b = "ucast ((v AND 127) OR 128) :: byte"
  have "bit (?b AND 128) 7" using assms by (auto simp: bit_128 bit_simps)
  then show "?b AND 128 \<noteq> 0" by (metis bit_0_eq bot_apply bot_bool_def)
  show "ucast ?b AND 127 = take_bit 7 v"
    using assms by (auto simp: word_127 bit_128 bit_simps intro!: bit_word_eqI)
qed


lemma final_byte:
  fixes v :: "'a :: len word"
  assumes "v < 128" "8 \<le> LENGTH('a)"
  shows "(ucast v :: byte) AND 128 = 0" and "ucast (ucast v :: byte) = v" and "take_bit 7 v = v"
proof -
  have u: "unat (128 :: 'a word) = 128"
  proof -
    have "(2 :: nat) ^ 8 \<le> 2 ^ LENGTH('a)" using assms(2) by (intro power_increasing) auto
    then show ?thesis by (simp add: unsigned_numeral take_bit_nat_eq_self)
  qed
  have "unat v < 2 ^ 7" using assms(1) u by (simp add: word_less_nat_alt)
  then show t: "take_bit 7 v = v" by (simp add: word_unat_eq_iff unsigned_take_bit_eq take_bit_nat_eq_self)
  have b: "\<not> bit v n" if "7 \<le> n" for n using that by (subst t [symmetric]) (simp add: bit_simps)
  show "(ucast v :: byte) AND 128 = 0"
    by (rule bit_word_eqI) (auto simp: bit_128 bit_simps b)
  show "ucast (ucast v :: byte) = v"
  proof (rule bit_word_eqI)
    fix n assume "n < LENGTH('a)"
    then show "bit (ucast (ucast v :: byte) :: 'a word) n = bit v n"
      using b [of n] by (cases "n < 7") (simp_all add: bit_simps)
  qed
qed

lemma GetVarint64Ptr_loop_Encode:
  assumes "unat v < 2 ^ (64 - s)" "s \<le> 63"
  shows "GetVarint64Ptr_loop s r (EncodeVarint64 v @ rest) = Some (r OR push_bit s v, rest)"
  using assms
proof (induction v arbitrary: s r rule: EncodeVarint64.induct)
  case (1 v)
  show ?case
  proof (cases "v \<ge> 128")
    case True
    then have "128 \<le> unat v" by (simp add: unat_u64_le_iff)
    with "1.prems" have "(2 :: nat) ^ 7 < 2 ^ (64 - s)" by simp
    then have "7 < 64 - s" by (simp only: power_strict_increasing_iff one_less_numeral_iff semiring_norm)
    then have s: "s + 7 \<le> 63" "64 - s = (64 - (s + 7)) + 7" by simp_all
    have "unat (drop_bit 7 v) = unat v div 2 ^ 7" by (rule unat_drop_bit)
    also have "\<dots> < 2 ^ (64 - (s + 7))"
      using "1.prems"(1) unfolding s(2) power_add by (simp add: less_mult_imp_div_less)
    finally have "unat (drop_bit 7 v) < 2 ^ (64 - (s + 7))" .
    from "1.IH" [OF True this s(1)] True "1.prems"(2) show ?thesis
      by (subst EncodeVarint64.simps) (simp add: continuation_byte or_join)
  next
    case False
    with "1.prems"(2) show ?thesis
      by (subst EncodeVarint64.simps) (simp add: final_byte)
  qed
qed

lemma continuation_byte32:
  "(ucast ((v :: u32) OR 128) :: byte) AND 128 \<noteq> 0"
  "ucast (ucast (v OR 128) :: byte) AND 127 = take_bit 7 v"
proof -
  have "bit ((ucast (v OR 128) :: byte) AND 128) 7" by (auto simp: bit_128 bit_simps)
  then show "(ucast (v OR 128) :: byte) AND 128 \<noteq> 0" by (metis bit_0_eq bot_apply bot_bool_def)
  show "ucast (ucast (v OR 128) :: byte) AND 127 = take_bit 7 v"
    by (auto simp: word_127 bit_128 bit_simps intro!: bit_word_eqI)
qed

lemma drop_bit_less_128:
  assumes "v < push_bit (k + 7) (1 :: u32)" "k + 7 < 32"
  shows "drop_bit k v < 128"
proof -
  have "(2 :: nat) ^ (k + 7) < 2 ^ 32" using assms(2) by (rule power_strict_increasing) simp
  then have "unat (word_of_nat (2 ^ (k + 7)) :: u32) = 2 ^ (k + 7)"
    using assms(2) by (simp only: unsigned_of_nat) (simp add: take_bit_nat_eq_self)
  then have "unat (push_bit (k + 7) (1 :: u32)) = 2 ^ (k + 7)"
    using assms(2) by (simp add: push_bit_eq_mult)
  then have "unat v < 2 ^ (k + 7)" using assms(1) by (simp add: word_less_nat_alt)
  then have "unat v div 2 ^ k < 128" by (simp add: power_add less_mult_imp_div_less mult.commute)
  then show ?thesis by (simp add: word_less_nat_alt unat_drop_bit)
qed

lemma drop_bit_28_less: "drop_bit 28 (v :: u32) < 128"
proof -
  have "unat v < 2 ^ 32" using unsigned_less [of v] by simp
  then have "unat v div 2 ^ 28 < 128" by simp
  then show ?thesis by (simp add: word_less_nat_alt unat_drop_bit)
qed

lemmas or_joins =
  or_join [of 0 0 v for v :: u32, simplified]
  or_join [of _ 0 v for v :: u32, simplified]
  or_join [of _ 7 "drop_bit 7 v" for v :: u32, simplified]
  or_join [of _ 14 "drop_bit 14 v" for v :: u32, simplified]
  or_join [of _ 21 "drop_bit 21 v" for v :: u32, simplified]

lemma GetVarint32PtrFallback_Encode:
  assumes "128 \<le> v"
  shows "GetVarint32PtrFallback (EncodeVarint32 v @ rest) = Some (v, rest)"
proof -
  have f: "drop_bit 7 v < 128" if "v < push_bit 14 1" using that drop_bit_less_128 [of v 7] by simp
  have g: "drop_bit 14 v < 128" if "v < push_bit 21 1" using that drop_bit_less_128 [of v 14] by simp
  have h: "drop_bit 21 v < 128" if "v < push_bit 28 1" using that drop_bit_less_128 [of v 21] by simp
  show ?thesis
    using assms f g h drop_bit_28_less [of v]
    unfolding GetVarint32PtrFallback_def EncodeVarint32_def
    by (simp add: continuation_byte32 final_byte or_joins)
qed

lemma GetVarint32_Encode [simp]: "GetVarint32 (EncodeVarint32 v @ rest) = Some (v, rest)"
proof (cases "128 \<le> v")
  case True
  then have "\<not> v < 128" by (simp only: not_less)
  then have bs: "EncodeVarint32 v = ucast (v OR 128) # tl (EncodeVarint32 v)"
    by (simp add: EncodeVarint32_def)
  have "(ucast (ucast (v OR 128) :: byte) :: u32) AND 128 \<noteq> 0"
  proof
    assume "(ucast (ucast (v OR 128) :: byte) :: u32) AND 128 = 0"
    then have "\<not> bit ((ucast (ucast (v OR 128) :: byte) :: u32) AND 128) 7" by simp
    then show False by (simp add: bit_128 bit_simps)
  qed
  then show ?thesis using GetVarint32PtrFallback_Encode [OF True, of rest]
    unfolding GetVarint32_def GetVarint32Ptr_def by (subst bs) simp
next
  case False
  then have l: "v < 128" by (simp only: not_le)
  then have t: "take_bit 7 v = v" "ucast (ucast v :: byte) = v" using final_byte [of v] by simp_all
  have "take_bit 7 v AND 128 = 0" by (rule bit_word_eqI) (simp add: bit_128 bit_simps)
  with t(1) have "v AND 128 = 0" by simp
  with t(2) l show ?thesis by (simp add: GetVarint32_def GetVarint32Ptr_def EncodeVarint32_def)
qed

lemma GetVarint64_Encode [simp]: "GetVarint64 (EncodeVarint64 v @ rest) = Some (v, rest)"
  using GetVarint64Ptr_loop_Encode [of v 0 0 rest] unat_u64_less [of v]
  by (simp add: GetVarint64_def GetVarint64Ptr_def)

lemma VarintLength_loop_Encode:
  "VarintLength_loop v len + 1 = len + word_of_nat (length (EncodeVarint64 v))"
proof (induction v arbitrary: len rule: EncodeVarint64.induct)
  case (1 v)
  show ?case
  proof (cases "v \<ge> 128")
    case True
    then show ?thesis using "1.IH" [OF True, of "len + 1"]
      by (subst VarintLength_loop.simps, subst EncodeVarint64.simps) (simp add: ac_simps)
  next
    case False
    then show ?thesis by (subst VarintLength_loop.simps, subst EncodeVarint64.simps) simp
  qed
qed

lemma length_EncodeVarint64:
  assumes "unat v < 2 ^ (7 * Suc k)"
  shows "length (EncodeVarint64 v) \<le> Suc k"
  using assms
proof (induction v arbitrary: k rule: EncodeVarint64.induct)
  case (1 v)
  show ?case
  proof (cases "v \<ge> 128")
    case True
    then have "128 \<le> unat v" by (simp add: unat_u64_le_iff)
    with "1.prems" have "k \<noteq> 0" by (cases k) auto
    then obtain j where k: "k = Suc j" by (cases k) auto
    have "unat (drop_bit 7 v) = unat v div 2 ^ 7" by (rule unat_drop_bit)
    also have "\<dots> < 2 ^ (7 * Suc j)"
      using "1.prems" unfolding k by (simp add: power_add less_mult_imp_div_less)
    finally have "length (EncodeVarint64 (drop_bit 7 v)) \<le> Suc j" by (rule "1.IH" [OF True])
    then show ?thesis using True by (subst EncodeVarint64.simps) (simp add: k)
  next
    case False
    then show ?thesis by (subst EncodeVarint64.simps) simp
  qed
qed

lemma length_EncodeVarint64_le: "length (EncodeVarint64 v) \<le> 10"
  using length_EncodeVarint64 [of v 9] unat_u64_less [of v] by simp

lemma unat_VarintLength: "unat (VarintLength v) = length (EncodeVarint64 v)"
proof -
  have "VarintLength v = word_of_nat (length (EncodeVarint64 v))"
    using VarintLength_loop_Encode [of v 1] by (simp add: VarintLength_def add.commute)
  then show ?thesis using length_EncodeVarint64_le [of v]
    by (simp add: unsigned_of_nat take_bit_nat_eq_self)
qed

lemma length_EncodeVarint32_le: "length (EncodeVarint32 v) \<le> 5"
  by (simp add: EncodeVarint32_def)

section \<open>Signed varints and slices\<close>

lemma signed_drop_bit_63: "signed_drop_bit 63 (l :: u64) = (if bit l 63 then - 1 else 0)"
proof (rule bit_word_eqI)
  fix n assume "n < LENGTH(64)"
  then show "bit (signed_drop_bit 63 l) n = bit (if bit l 63 then - 1 else 0 :: u64) n"
    by (cases "n = 0") (simp_all add: bit_signed_drop_bit_iff possible_bit_word)
qed

lemma bit_i64ToZigzag: "n < 64 \<Longrightarrow> bit (i64ToZigzag l) n \<longleftrightarrow> (1 \<le> n \<and> bit l (n - 1)) \<noteq> bit l 63"
  unfolding i64ToZigzag_def signed_drop_bit_63 bit_xor_iff bit_push_bit_iff
  by (cases "bit l 63") (simp_all add: possible_bit_word)

lemma zigzagToI64_i64ToZigzag: "zigzagToI64 (i64ToZigzag l) = l"
proof -
  have "i64ToZigzag l AND 1 = of_bool (bit l 63)"
    using bit_i64ToZigzag [of 0 l] by (simp add: and_one_eq mod_2_eq_odd bit_0)
  then have low: "- (i64ToZigzag l AND 1) = (if bit l 63 then - 1 else 0)" by simp
  show ?thesis
  proof (rule bit_word_eqI)
    fix n assume n: "n < LENGTH(64)"
    have d: "bit (drop_bit 1 (i64ToZigzag l)) n \<longleftrightarrow> (n < 63 \<and> bit l n \<noteq> bit l 63)"
      using n bit_i64ToZigzag [of "Suc n" l] bit_imp_le_length [of "i64ToZigzag l" "Suc n"]
      unfolding bit_drop_bit_eq by (cases "n < 63") auto
    show "bit (zigzagToI64 (i64ToZigzag l)) n = bit l n"
    proof (cases "n = 63")
      case True
      then show ?thesis
        unfolding zigzagToI64_def low bit_xor_iff d by (simp add: possible_bit_word)
    next
      case False
      then have "n < 63" using n by simp
      then show ?thesis
        unfolding zigzagToI64_def low bit_xor_iff d
        by (cases "bit l 63") (simp_all add: possible_bit_word)
    qed
  qed
qed

lemma fold_add_length: "fold (\<lambda>part t. t + length part) parts t0 = t0 + length (concat parts)"
  by (induction parts arbitrary: t0) auto

lemma GetLengthPrefixedSlice_append:
  assumes "length value < 2 ^ 32"
  shows "GetLengthPrefixedSlice (EncodeVarint32 (word_of_nat (length value)) @ value @ rest) = Some (value, rest)"
proof -
  have "unat (word_of_nat (length value) :: u32) = length value"
    using assms by (simp add: unsigned_of_nat take_bit_nat_eq_self)
  then show ?thesis by (simp add: GetLengthPrefixedSlice_def)
qed

section \<open>Round trips\<close>

lemma coding_roundtrips:
  assumes "length value < 2 ^ 32" and "length (concat parts) + pad < 2 ^ 32"
  shows "GetVarint32 (PutVarint32 [] v4 @ rest) = Some (v4, rest)"
    and "GetVarint64 (PutVarint64 [] v8 @ rest) = Some (v8, rest)"
    and "GetVarsignedint64 (PutVarsignedint64 [] v8 @ rest) = Some (v8, rest)"
    and "GetFixed32 (PutFixed32 [] v4 @ rest) = Some (v4, rest)"
    and "GetFixed64 (PutFixed64 [] v8 @ rest) = Some (v8, rest)"
    and "GetLengthPrefixedSlice (PutLengthPrefixedSlice [] value @ rest) = Some (value, rest)"
    and "GetLengthPrefixedSlice (PutLengthPrefixedSlicePartsWithPadding [] parts pad @ rest) =
           Some (concat parts @ replicate pad 0, rest)"
    and "unat (VarintLength v8) = length (PutVarint64 [] v8)" and "length (PutVarint64 [] v8) \<le> 10"
    and "length (PutVarint32 [] v4) \<le> 5"
proof -
  have "GetLengthPrefixedSlice (EncodeVarint32 (word_of_nat (length (concat parts @ replicate pad (0 :: byte))))
      @ (concat parts @ replicate pad 0) @ rest) = Some (concat parts @ replicate pad 0, rest)"
    by (rule GetLengthPrefixedSlice_append) (use assms(2) in simp)
  then show "GetLengthPrefixedSlice (PutLengthPrefixedSlicePartsWithPadding [] parts pad @ rest) =
           Some (concat parts @ replicate pad 0, rest)"
    by (simp add: PutLengthPrefixedSlicePartsWithPadding_def PutLengthPrefixedSliceParts_def PutVarint32_def
        fold_add_length add.commute)
qed (use assms(1) GetVarint64_Encode [of "i64ToZigzag v8" rest] GetVarint64_Encode [of v8 rest] in
  \<open>simp_all add: PutVarint32_def PutVarint64_def PutFixed32_def PutFixed64_def PutVarsignedint64_def
    GetVarsignedint64_def GetVarsignedint64Ptr_def GetVarint64_def zigzagToI64_i64ToZigzag
    PutLengthPrefixedSlice_def GetLengthPrefixedSlice_append unat_VarintLength
    length_EncodeVarint64_le length_EncodeVarint32_le\<close>)

text \<open>
  C40: every decoder returns exactly what its encoder wrote and leaves the bytes
  that follow: varints of both widths, zigzag integers, fixed-width integers and
  length-prefixed slices below 4 GiB (whole, in parts, or padded). A 64-bit
  varint takes at most ten bytes, and \<open>VarintLength\<close> is its length.
\<close>

theorem coding_roundtrip:
  assumes "length value < 2 ^ 32" and "length (concat parts) + pad < 2 ^ 32"
  shows "GetVarint32 (PutVarint32 [] v4 @ rest) = Some (v4, rest) \<and>
    GetVarint64 (PutVarint64 [] v8 @ rest) = Some (v8, rest) \<and>
    GetVarsignedint64 (PutVarsignedint64 [] v8 @ rest) = Some (v8, rest) \<and>
    GetFixed32 (PutFixed32 [] v4 @ rest) = Some (v4, rest) \<and>
    GetFixed64 (PutFixed64 [] v8 @ rest) = Some (v8, rest) \<and>
    GetLengthPrefixedSlice (PutLengthPrefixedSlice [] value @ rest) = Some (value, rest) \<and>
    GetLengthPrefixedSlice (PutLengthPrefixedSlicePartsWithPadding [] parts pad @ rest) =
      Some (concat parts @ replicate pad 0, rest) \<and>
    unat (VarintLength v8) = length (PutVarint64 [] v8) \<and> length (PutVarint64 [] v8) \<le> 10"
  using coding_roundtrips [OF assms] by (intro conjI)

theorem coding_roundtrip_witness:
  "GetLengthPrefixedSlice (PutLengthPrefixedSlice [] [1, 2, 3] @ [9]) = Some ([1, 2, 3], [9]) \<and>
   GetLengthPrefixedSlice (PutLengthPrefixedSlicePartsWithPadding [] [[7], [8]] 2 @ [9]) =
     Some ([7, 8, 0, 0], [9])"
proof -
  have "length [1, 2, 3 :: byte] < 2 ^ 32" "length (concat [[7 :: byte], [8]]) + 2 < 2 ^ 32" by simp_all
  from coding_roundtrip [OF this, of 0 "[9]" 0] show ?thesis by (simp add: numeral_2_eq_2)
qed

end
