(* ===== verification/Db_Format.thy ===== *)
theory Db_Format
  imports Coding "HOL-Library.List_Lexorder"
begin

text \<open>
  User keys and internal keys: the bytewise comparator of \<open>util/comparator.cc\<close>
  and \<open>include/rocksdb/slice.h\<close>, and the key format of \<open>db/dbformat.h\<close> and
  \<open>db/dbformat.cc\<close>. An internal key is the user key followed by eight bytes that
  pack a 56-bit sequence number and a value type. \<open>ValueType\<close> is an enum over
  \<open>unsigned char\<close> and any byte may be cast to it, so it is a byte here. The
  locale \<open>comparator\<close> states what a user comparator promises; internal keys
  are ordered by it, then by falling sequence number, then by falling type.
\<close>

section \<open>Byte strings\<close>

text \<open>Only the sign of \<open>memcmp\<close> is used.\<close>

fun memcmp :: "Slice \<Rightarrow> Slice \<Rightarrow> int" where
  "memcmp (a # as) (b # bs) = (if a < b then - 1 else if a > b then 1 else memcmp as bs)"
| "memcmp _ _ = 0"

definition compare :: "Slice \<Rightarrow> Slice \<Rightarrow> int" where
  "compare a b =
     (let min_len = (if length a < length b then length a else length b);
          r = memcmp (take min_len a) (take min_len b)
      in if r = 0 then (if length a < length b then - 1 else if length a > length b then 1 else 0)
         else r)"

fun difference_offset :: "Slice \<Rightarrow> Slice \<Rightarrow> nat" where
  "difference_offset (a # as) (b # bs) = (if a \<noteq> b then 0 else Suc (difference_offset as bs))"
| "difference_offset _ _ = 0"

text \<open>The loop of the last branch of \<open>FindShortestSeparator\<close> and the loop of \<open>FindShortSuccessor\<close>:
  the suffix is cut after the first byte that can be incremented.\<close>

fun increment_first :: "Slice \<Rightarrow> Slice" where
  "increment_first [] = []"
| "increment_first (c # cs) = (if c < 0xff then [c + 1] else c # increment_first cs)"

definition FindShortestSeparator :: "Slice \<Rightarrow> Slice \<Rightarrow> Slice" where
  "FindShortestSeparator start limit =
     (let min_length = min (length start) (length limit);
          diff_index = difference_offset start limit
      in if diff_index \<ge> min_length then start
         else let start_byte = start ! diff_index; limit_byte = limit ! diff_index
              in if start_byte \<ge> limit_byte then start
                 else if diff_index < length limit - 1 \<or> unat start_byte + 1 < unat limit_byte
                      then take diff_index start @ [start_byte + 1]
                      else take (diff_index + 1) start @ increment_first (drop (diff_index + 1) start))"

definition FindShortSuccessor :: "Slice \<Rightarrow> Slice" where
  "FindShortSuccessor key = increment_first key"

definition IsSameLengthImmediateSuccessor :: "Slice \<Rightarrow> Slice \<Rightarrow> bool" where
  "IsSameLengthImmediateSuccessor s t =
     (if length s \<noteq> length t \<or> length s = 0 then False
      else let diff_ind = difference_offset s t
           in if diff_ind \<ge> length s then False
              else let byte_s = s ! diff_ind; byte_t = t ! diff_ind
                   in if byte_s \<noteq> 0xff \<and> unat byte_s + 1 = unat byte_t
                      then list_all (\<lambda>i. s ! i = 0xff \<and> t ! i = 0) [diff_ind + 1..<length s]
                      else False)"

section \<open>Value types and sequence numbers\<close>

type_synonym ValueType = byte
type_synonym SequenceNumber = u64

definition kTypeDeletion :: ValueType where "kTypeDeletion = 0x0"
definition kTypeValue :: ValueType where "kTypeValue = 0x1"
definition kTypeMerge :: ValueType where "kTypeMerge = 0x2"
definition kTypeSingleDeletion :: ValueType where "kTypeSingleDeletion = 0x7"
definition kTypeRangeDeletion :: ValueType where "kTypeRangeDeletion = 0xF"
definition kTypeBlobIndex :: ValueType where "kTypeBlobIndex = 0x11"
definition kTypeDeletionWithTimestamp :: ValueType where "kTypeDeletionWithTimestamp = 0x14"
definition kTypeWideColumnEntity :: ValueType where "kTypeWideColumnEntity = 0x16"
definition kTypeValuePreferredSeqno :: ValueType where "kTypeValuePreferredSeqno = 0x18"
definition kTypeMaxValid :: ValueType where "kTypeMaxValid = 0x1A"

lemmas value_types [simp] = kTypeDeletion_def kTypeValue_def kTypeMerge_def kTypeSingleDeletion_def
  kTypeRangeDeletion_def kTypeBlobIndex_def kTypeDeletionWithTimestamp_def
  kTypeWideColumnEntity_def kTypeValuePreferredSeqno_def kTypeMaxValid_def

definition kValueTypeForSeek :: ValueType where "kValueTypeForSeek = kTypeValuePreferredSeqno"

definition IsValueType :: "ValueType \<Rightarrow> bool" where
  "IsValueType t \<longleftrightarrow> t \<le> kTypeMerge \<or> kTypeSingleDeletion = t \<or> kTypeBlobIndex = t \<or>
     kTypeDeletionWithTimestamp = t \<or> kTypeWideColumnEntity = t \<or> kTypeValuePreferredSeqno = t"

definition IsExtendedValueType :: "ValueType \<Rightarrow> bool" where
  "IsExtendedValueType t \<longleftrightarrow> IsValueType t \<or> t = kTypeRangeDeletion \<or> t = kTypeMaxValid"

definition kMaxSequenceNumber :: SequenceNumber where
  "kMaxSequenceNumber = push_bit 56 1 - 1"

definition PackSequenceAndType :: "u64 \<Rightarrow> ValueType \<Rightarrow> u64" where
  "PackSequenceAndType seq t = push_bit 8 seq OR ucast t"

definition UnPackSequenceAndType :: "u64 \<Rightarrow> u64 \<times> ValueType" where
  "UnPackSequenceAndType packed = (drop_bit 8 packed, ucast (packed AND 0xff))"

datatype EntryType = kEntryPut | kEntryDelete | kEntryDeleteWithTimestamp | kEntrySingleDelete
  | kEntryMerge | kEntryRangeDeletion | kEntryBlobIndex | kEntryWideColumnEntity | kEntryTimedPut
  | kEntryOther

definition GetEntryType :: "ValueType \<Rightarrow> EntryType" where
  "GetEntryType t =
     (if t = kTypeValue then kEntryPut
      else if t = kTypeDeletion then kEntryDelete
      else if t = kTypeDeletionWithTimestamp then kEntryDeleteWithTimestamp
      else if t = kTypeSingleDeletion then kEntrySingleDelete
      else if t = kTypeMerge then kEntryMerge
      else if t = kTypeRangeDeletion then kEntryRangeDeletion
      else if t = kTypeBlobIndex then kEntryBlobIndex
      else if t = kTypeWideColumnEntity then kEntryWideColumnEntity
      else if t = kTypeValuePreferredSeqno then kEntryTimedPut
      else kEntryOther)"

section \<open>Internal keys\<close>

record ParsedInternalKey =
  user_key :: Slice
  sequence :: SequenceNumber
  type :: ValueType

definition AppendInternalKey :: "Slice \<Rightarrow> ParsedInternalKey \<Rightarrow> Slice" where
  "AppendInternalKey result key =
     PutFixed64 (result @ user_key key) (PackSequenceAndType (sequence key) (type key))"

text \<open>The constructor of \<open>InternalKey\<close>; an \<open>InternalKey\<close> is its representation \<open>rep_\<close>.\<close>

definition InternalKey :: "Slice \<Rightarrow> SequenceNumber \<Rightarrow> ValueType \<Rightarrow> Slice" where
  "InternalKey k s t = AppendInternalKey [] \<lparr>user_key = k, sequence = s, type = t\<rparr>"

text \<open>Reading a key shorter than its eight-byte footer is out of bounds, \<open>None\<close>.\<close>

definition ExtractUserKey :: "Slice \<Rightarrow> Slice option" where
  "ExtractUserKey internal_key =
     (if length internal_key < 8 then None else Some (take (length internal_key - 8) internal_key))"

definition ExtractInternalKeyFooter :: "Slice \<Rightarrow> u64 option" where
  "ExtractInternalKeyFooter internal_key =
     (if length internal_key < 8 then None
      else DecodeFixed64 (drop (length internal_key - 8) internal_key))"

definition ExtractValueType :: "Slice \<Rightarrow> ValueType option" where
  "ExtractValueType internal_key =
     map_option (\<lambda>num. ucast (num AND 0xff)) (ExtractInternalKeyFooter internal_key)"

definition GetInternalKeySeqno :: "Slice \<Rightarrow> u64 option" where
  "GetInternalKeySeqno internal_key = map_option (drop_bit 8) (ExtractInternalKeyFooter internal_key)"

definition ParseInternalKey :: "Slice \<Rightarrow> status + ParsedInternalKey" where
  "ParseInternalKey internal_key =
     (if length internal_key < 8 then Inl (Corruption ''Corrupted Key: Internal Key too small'')
      else case DecodeFixed64 (drop (length internal_key - 8) internal_key) of
        None \<Rightarrow> Inl (Corruption ''Corrupted Key'')
      | Some num \<Rightarrow>
          let c = ucast (num AND 0xff);
              result = \<lparr>user_key = take (length internal_key - 8) internal_key,
                        sequence = drop_bit 8 num, type = c\<rparr>
          in if IsExtendedValueType (type result) then Inr result
             else Inl (Corruption ''Corrupted Key''))"

definition UpdateInternalKey :: "Slice \<Rightarrow> u64 \<Rightarrow> ValueType \<Rightarrow> Slice" where
  "UpdateInternalKey ikey seq t =
     (let newval = push_bit 8 seq OR ucast t
      in take (length ikey - 8) ikey @ EncodeFixed64 newval)"

subsection \<open>Keys with timestamps\<close>

definition AppendInternalKeyWithDifferentTimestamp :: "Slice \<Rightarrow> ParsedInternalKey \<Rightarrow> Slice \<Rightarrow> Slice" where
  "AppendInternalKeyWithDifferentTimestamp result key ts =
     PutFixed64 (result @ take (length (user_key key) - length ts) (user_key key) @ ts)
       (PackSequenceAndType (sequence key) (type key))"

definition AppendInternalKeyFooter :: "Slice \<Rightarrow> SequenceNumber \<Rightarrow> ValueType \<Rightarrow> Slice" where
  "AppendInternalKeyFooter result s t = PutFixed64 result (PackSequenceAndType s t)"

definition AppendUserKeyWithMinTimestamp :: "Slice \<Rightarrow> Slice \<Rightarrow> nat \<Rightarrow> Slice" where
  "AppendUserKeyWithMinTimestamp result key ts_sz =
     result @ take (length key - ts_sz) key @ replicate ts_sz 0"

definition AppendUserKeyWithMaxTimestamp :: "Slice \<Rightarrow> Slice \<Rightarrow> nat \<Rightarrow> Slice" where
  "AppendUserKeyWithMaxTimestamp result key ts_sz =
     result @ take (length key - ts_sz) key @
       (if ts_sz < 9 then take ts_sz (replicate 9 0xff) else replicate ts_sz 0xff)"

definition PadInternalKeyWithMinTimestamp :: "Slice \<Rightarrow> Slice \<Rightarrow> nat \<Rightarrow> Slice" where
  "PadInternalKeyWithMinTimestamp result key ts_sz =
     (let user_key_size = length key - 8
      in result @ take user_key_size key @ replicate ts_sz 0 @ take 8 (drop user_key_size key))"

definition PadInternalKeyWithMaxTimestamp :: "Slice \<Rightarrow> Slice \<Rightarrow> nat \<Rightarrow> Slice" where
  "PadInternalKeyWithMaxTimestamp result key ts_sz =
     (let user_key_size = length key - 8
      in result @ take user_key_size key @ replicate ts_sz 0xff @ take 8 (drop user_key_size key))"

definition StripTimestampFromInternalKey :: "Slice \<Rightarrow> Slice \<Rightarrow> nat \<Rightarrow> Slice" where
  "StripTimestampFromInternalKey result key ts_sz =
     result @ take (length key - 8 - ts_sz) key @ take 8 (drop (length key - 8) key)"

definition ReplaceInternalKeyWithMinTimestamp :: "Slice \<Rightarrow> Slice \<Rightarrow> nat \<Rightarrow> Slice" where
  "ReplaceInternalKeyWithMinTimestamp result key ts_sz =
     result @ take (length key - 8 - ts_sz) key @ replicate ts_sz 0 @ take 8 (drop (length key - 8) key)"

subsection \<open>Comparison\<close>

text \<open>The argument \<open>cmp\<close> is \<open>user_comparator_.Compare\<close>.\<close>

definition CompareParsed ::
    "(Slice \<Rightarrow> Slice \<Rightarrow> int) \<Rightarrow> ParsedInternalKey \<Rightarrow> ParsedInternalKey \<Rightarrow> int" where
  "CompareParsed cmp a b =
     (let r = cmp (user_key a) (user_key b)
      in if r = 0
         then if sequence a > sequence b then - 1
              else if sequence a < sequence b then 1
              else if type a > type b then - 1
              else if type a < type b then 1
              else r
         else r)"

definition CompareSlices :: "(Slice \<Rightarrow> Slice \<Rightarrow> int) \<Rightarrow> Slice \<Rightarrow> Slice \<Rightarrow> int option" where
  "CompareSlices cmp akey bkey =
     (case (ExtractUserKey akey, ExtractUserKey bkey, ExtractInternalKeyFooter akey,
            ExtractInternalKeyFooter bkey) of
        (Some ua, Some ub, Some anum, Some bnum) \<Rightarrow>
          let r = cmp ua ub
          in Some (if r = 0 then (if anum > bnum then - 1 else if anum < bnum then 1 else r) else r)
      | _ \<Rightarrow> None)"

definition CompareKeySeq :: "(Slice \<Rightarrow> Slice \<Rightarrow> int) \<Rightarrow> Slice \<Rightarrow> Slice \<Rightarrow> int option" where
  "CompareKeySeq cmp akey bkey =
     (case (ExtractUserKey akey, ExtractUserKey bkey, ExtractInternalKeyFooter akey,
            ExtractInternalKeyFooter bkey) of
        (Some ua, Some ub, Some anum, Some bnum) \<Rightarrow>
          let r = cmp ua ub; an = drop_bit 8 anum; bn = drop_bit 8 bnum
          in Some (if r = 0 then (if an > bn then - 1 else if an < bn then 1 else r) else r)
      | _ \<Rightarrow> None)"

definition CompareSliceParsed ::
    "(Slice \<Rightarrow> Slice \<Rightarrow> int) \<Rightarrow> Slice \<Rightarrow> ParsedInternalKey \<Rightarrow> int option" where
  "CompareSliceParsed cmp a b =
     (case (ExtractUserKey a, ExtractInternalKeyFooter a) of
        (Some ua, Some anum) \<Rightarrow>
          let r = cmp ua (user_key b); bnum = push_bit 8 (sequence b) OR ucast (type b)
          in Some (if r = 0 then (if anum > bnum then - 1 else if anum < bnum then 1 else r) else r)
      | _ \<Rightarrow> None)"

text \<open>A global sequence number, unless disabled, replaces the one stored in the key.\<close>

definition kDisableGlobalSequenceNumber :: SequenceNumber where
  "kDisableGlobalSequenceNumber = u64_max"

definition global_footer :: "Slice \<Rightarrow> SequenceNumber \<Rightarrow> u64 option" where
  "global_footer a a_global_seqno =
     (if a_global_seqno = kDisableGlobalSequenceNumber then ExtractInternalKeyFooter a
      else map_option (PackSequenceAndType a_global_seqno) (ExtractValueType a))"

definition CompareGlobal ::
    "(Slice \<Rightarrow> Slice \<Rightarrow> int) \<Rightarrow> Slice \<Rightarrow> SequenceNumber \<Rightarrow> Slice \<Rightarrow> SequenceNumber \<Rightarrow> int option" where
  "CompareGlobal cmp a a_global_seqno b b_global_seqno =
     (case (ExtractUserKey a, ExtractUserKey b, global_footer a a_global_seqno,
            global_footer b b_global_seqno) of
        (Some ua, Some ub, Some a_footer, Some b_footer) \<Rightarrow>
          let r = cmp ua ub
          in Some (if r = 0 then (if a_footer > b_footer then - 1 else if a_footer < b_footer then 1 else r)
                   else r)
      | _ \<Rightarrow> None)"

section \<open>The bytewise order\<close>

lemma compare_simps [simp]:
  "compare [] [] = 0" "compare [] (b # bs) = - 1" "compare (a # as) [] = 1"
  "compare (a # as) (b # bs) = (if a < b then - 1 else if a > b then 1 else compare as bs)"
  by (simp_all add: compare_def Let_def)

lemma compare_iff:
  "(compare a b < 0 \<longleftrightarrow> a < b) \<and> (compare a b = 0 \<longleftrightarrow> a = b) \<and> (compare a b > 0 \<longleftrightarrow> b < a)"
proof (induction a arbitrary: b)
  case Nil
  then show ?case by (cases b) auto
next
  case (Cons a as)
  show ?case
  proof (cases b)
    case (Cons b' bs)
    with Cons.IH [of bs] show ?thesis by (cases a b' rule: linorder_cases) auto
  qed simp
qed

lemma compare_less [simp]: "compare a b < 0 \<longleftrightarrow> a < b"
  and compare_eq [simp]: "compare a b = 0 \<longleftrightarrow> a = b"
  and compare_greater [simp]: "0 < compare a b \<longleftrightarrow> b < a"
  using compare_iff [of a b] by blast+

lemma byte_suc:
  assumes "c < (0xff :: byte)"
  shows "unat (c + 1) = unat c + 1" "c < c + 1"
proof -
  have "unat c < 255" using assms by (simp add: word_less_nat_alt)
  then show u: "unat (c + 1) = unat c + 1" by (subst unat_add_lem [THEN iffD1]) auto
  then show "c < c + 1" by (simp add: word_less_nat_alt)
qed

lemma increment_first_bounds: "cs \<le> increment_first cs \<and> length (increment_first cs) \<le> length cs"
  by (induction cs) (auto simp: byte_suc)

lemma FindShortestSeparator_Cons:
  "FindShortestSeparator (a # start) (a # limit) = a # FindShortestSeparator start limit"
  by (cases limit) (auto simp: FindShortestSeparator_def Let_def)

lemma FindShortestSeparator_bounds:
  assumes "start < limit"
  shows "start \<le> FindShortestSeparator start limit \<and> FindShortestSeparator start limit < limit \<and>
    length (FindShortestSeparator start limit) \<le> length start"
  using assms
proof (induction start limit rule: difference_offset.induct)
  case (1 a as b bs)
  show ?case
  proof (cases "a = b")
    case True
    then show ?thesis using 1 by (simp add: FindShortestSeparator_Cons)
  next
    case False
    then have ab: "a < b" using "1.prems" by auto
    have "unat b \<le> 255" using unsigned_less [of b, where ?'a = nat] by simp
    with ab have m: "a < 0xff" by (simp add: word_less_nat_alt)
    show ?thesis
    proof (cases "bs \<noteq> [] \<or> unat a + 1 < unat b")
      case True
      then have "FindShortestSeparator (a # as) (b # bs) = [a + 1]"
        using False ab by (auto simp: FindShortestSeparator_def Let_def)
      moreover have "[a + 1] < b # bs"
      proof (cases "unat a + 1 < unat b")
        case True
        then show ?thesis using byte_suc(1) [OF m] by (simp add: word_less_nat_alt)
      next
        case False
        then have "unat (a + 1) = unat b" using ab byte_suc(1) [OF m] by (simp add: word_less_nat_alt)
        then have "a + 1 = b" by (simp add: word_unat_eq_iff)
        then show ?thesis using True False by (cases bs) auto
      qed
      ultimately show ?thesis using byte_suc(2) [OF m] by simp
    next
      case False
      then have "FindShortestSeparator (a # as) (b # bs) = a # increment_first as"
        using \<open>a \<noteq> b\<close> ab by (auto simp: FindShortestSeparator_def Let_def)
      then show ?thesis using ab increment_first_bounds [of as] by simp
    qed
  qed
qed (auto simp: FindShortestSeparator_def)

lemma FindShortSuccessor_bounds: "key \<le> FindShortSuccessor key \<and> length (FindShortSuccessor key) \<le> length key"
  unfolding FindShortSuccessor_def by (rule increment_first_bounds)

section \<open>Packing\<close>

lemma unat_kMaxSequenceNumber: "unat kMaxSequenceNumber = 2 ^ 56 - 1"
  by (simp add: kMaxSequenceNumber_def push_bit_eq_mult)

lemma seq_small: "s \<le> kMaxSequenceNumber \<longleftrightarrow> unat s < 2 ^ 56"
  by (simp add: word_le_nat_alt unat_kMaxSequenceNumber) linarith

lemma seq_high_bit:
  assumes "s \<le> kMaxSequenceNumber" "56 \<le> n"
  shows "\<not> bit s n"
proof -
  have "take_bit 56 s = s"
    using assms(1) unfolding seq_small
    by (simp add: word_unat_eq_iff unsigned_take_bit_eq take_bit_nat_eq_self)
  then have "bit s n = bit (take_bit 56 s) n" by simp
  then show ?thesis using assms(2) by (simp add: bit_take_bit_iff)
qed

lemma unpack_pack:
  assumes "s \<le> kMaxSequenceNumber"
  shows "drop_bit 8 (PackSequenceAndType s t) = s" "ucast (PackSequenceAndType s t AND 0xff) = t"
proof -
  show "drop_bit 8 (PackSequenceAndType s t) = s"
  proof (rule bit_word_eqI)
    fix n assume "n < LENGTH(64)"
    then show "bit (drop_bit 8 (PackSequenceAndType s t)) n = bit s n"
      using seq_high_bit [OF assms, of n]
      by (cases "n < 56") (auto simp: PackSequenceAndType_def bit_simps byte_high_bit)
  qed
  show "ucast (PackSequenceAndType s t AND 0xff) = t"
    unfolding and_255 by (auto simp: PackSequenceAndType_def bit_simps intro!: bit_word_eqI)
qed

lemma unat_pack:
  assumes "s \<le> kMaxSequenceNumber"
  shows "unat (PackSequenceAndType s t) = unat s * 256 + unat t"
proof -
  have "PackSequenceAndType s t = push_bit 8 s + ucast t"
    unfolding PackSequenceAndType_def
    by (rule disjunctive_add [symmetric]) (auto simp: bit_simps byte_high_bit)
  moreover have "unat s * 256 + unat t < 2 ^ 64"
    using assms unsigned_less [of t, where ?'a = nat] unfolding seq_small by simp
  ultimately show ?thesis
    by (simp add: push_bit_eq_mult unat_word_ariths unsigned_ucast_eq take_bit_nat_eq_self)
qed

lemma pack_less:
  assumes "s \<le> kMaxSequenceNumber" "s' \<le> kMaxSequenceNumber"
  shows "PackSequenceAndType s t < PackSequenceAndType s' t' \<longleftrightarrow> s < s' \<or> s = s' \<and> t < t'"
proof -
  have t: "unat t < 256" "unat t' < 256"
    using unsigned_less [of t, where ?'a = nat] unsigned_less [of t', where ?'a = nat] by simp_all
  have "unat s * 256 + unat t < unat s' * 256 + unat t' \<longleftrightarrow> unat s < unat s' \<or> unat s = unat s' \<and> unat t < unat t'"
    using t by linarith
  then show ?thesis
    by (simp add: word_less_nat_alt unat_pack [OF assms(1)] unat_pack [OF assms(2)] word_unat_eq_iff)
qed

section \<open>Encoded internal keys\<close>

lemma length_AppendInternalKey [simp]: "length (AppendInternalKey r k) = length r + length (user_key k) + 8"
  by (simp add: AppendInternalKey_def PutFixed64_def)

lemma Extract_Append [simp]:
  "ExtractUserKey (AppendInternalKey [] k) = Some (user_key k)"
  "ExtractInternalKeyFooter (AppendInternalKey [] k) = Some (PackSequenceAndType (sequence k) (type k))"
  using DecodeFixed64_Encode [of _ "[]"]
  by (simp_all add: ExtractUserKey_def ExtractInternalKeyFooter_def AppendInternalKey_def PutFixed64_def)

lemma ParseInternalKey_Append:
  assumes "sequence k \<le> kMaxSequenceNumber" "IsExtendedValueType (type k)"
  shows "ParseInternalKey (AppendInternalKey [] k) = Inr k"
  using assms DecodeFixed64_Encode [of _ "[]"] unpack_pack [OF assms(1), of "type k"]
  by (simp add: ParseInternalKey_def AppendInternalKey_def PutFixed64_def Let_def)

lemma pack_unpack: "PackSequenceAndType (drop_bit 8 n) (ucast (n AND 0xff)) = n"
proof (rule bit_word_eqI)
  fix i assume "i < LENGTH(64)"
  then show "bit (PackSequenceAndType (drop_bit 8 n) (ucast (n AND 0xff))) i = bit n i"
    unfolding and_255 by (cases "i < 8") (auto simp: PackSequenceAndType_def bit_simps)
qed

lemma drop_bit_8_seq: "drop_bit 8 (n :: u64) \<le> kMaxSequenceNumber"
  unfolding seq_small unat_drop_bit using unat_u64_less [of n] by (simp add: less_mult_imp_div_less)

lemma ParseInternalKey_Inr:
  assumes "ParseInternalKey ik = Inr k"
  shows "AppendInternalKey [] k = ik \<and> sequence k \<le> kMaxSequenceNumber \<and> IsExtendedValueType (type k)"
proof -
  have l: "8 \<le> length ik" using assms by (auto simp: ParseInternalKey_def split: if_splits)
  then have "length (drop (length ik - 8) ik) = 8" by simp
  then obtain v where v: "DecodeFixed64 (drop (length ik - 8) ik) = Some v"
      "EncodeFixed64 v = drop (length ik - 8) ik"
    using EncodeFixed64_Decode by blast
  have k: "k = \<lparr>user_key = take (length ik - 8) ik, sequence = drop_bit 8 v, type = ucast (v AND 0xff)\<rparr>"
    and t: "IsExtendedValueType (ucast (v AND 0xff))"
    using assms l v(1) by (auto simp: ParseInternalKey_def Let_def split: if_splits)
  show ?thesis unfolding k
    using t v(2) drop_bit_8_seq [of v] by (simp add: AppendInternalKey_def PutFixed64_def pack_unpack)
qed

lemma UpdateInternalKey_Append:
  "UpdateInternalKey (AppendInternalKey [] k) seq t = AppendInternalKey [] (k\<lparr>sequence := seq, type := t\<rparr>)"
  by (simp add: UpdateInternalKey_def AppendInternalKey_def PutFixed64_def PackSequenceAndType_def Let_def)

lemma CompareSlices_Append:
  assumes "sequence a \<le> kMaxSequenceNumber" "sequence b \<le> kMaxSequenceNumber"
  shows "CompareSlices cmp (AppendInternalKey [] a) (AppendInternalKey [] b) = Some (CompareParsed cmp a b)"
  using pack_less [OF assms] pack_less [OF assms(2,1)]
  by (auto simp: CompareSlices_def CompareParsed_def Let_def)

lemma CompareSliceParsed_Append:
  assumes "sequence a \<le> kMaxSequenceNumber" "sequence b \<le> kMaxSequenceNumber"
  shows "CompareSliceParsed cmp (AppendInternalKey [] a) b = Some (CompareParsed cmp a b)"
  using pack_less [OF assms] pack_less [OF assms(2,1)]
  by (auto simp: CompareSliceParsed_def CompareParsed_def PackSequenceAndType_def Let_def)

lemma CompareGlobal_Append:
  assumes "sa \<le> kMaxSequenceNumber" "sb \<le> kMaxSequenceNumber"
    and "sequence a \<le> kMaxSequenceNumber" "sequence b \<le> kMaxSequenceNumber"
  shows "CompareGlobal cmp (AppendInternalKey [] a) sa (AppendInternalKey [] b) sb =
    Some (CompareParsed cmp (a\<lparr>sequence := sa\<rparr>) (b\<lparr>sequence := sb\<rparr>))"
proof -
  have "sa \<noteq> kDisableGlobalSequenceNumber" "sb \<noteq> kDisableGlobalSequenceNumber"
    using assms(1,2) unfolding seq_small
    by (auto simp: kDisableGlobalSequenceNumber_def unat_u64_max)
  then show ?thesis
    using pack_less [OF assms(1,2)] pack_less [OF assms(2,1)] assms(3,4)
    by (auto simp: CompareGlobal_def CompareParsed_def global_footer_def ExtractValueType_def unpack_pack Let_def)
qed

section \<open>What a comparator promises\<close>

locale comparator =
  fixes cmp :: "'a \<Rightarrow> 'a \<Rightarrow> int"
  assumes cmp_swap: "sgn (cmp b a) = - sgn (cmp a b)"
    and cmp_trans: "cmp a b < 0 \<Longrightarrow> cmp b c < 0 \<Longrightarrow> cmp a c < 0"
    and cmp_equiv: "cmp a b = 0 \<Longrightarrow> sgn (cmp a c) = sgn (cmp b c)"
begin

lemma cmp_refl: "cmp a a = 0"
  using cmp_swap [of a a] by (simp add: sgn_if split: if_splits)

lemma cmp_total: "cmp a b < 0 \<or> cmp a b = 0 \<or> cmp b a < 0"
  using cmp_swap [of a b] by (auto simp: sgn_if split: if_splits)

lemma cmp_equiv_right: "cmp a b = 0 \<Longrightarrow> sgn (cmp c a) = sgn (cmp c b)"
  using cmp_equiv [of a b c] cmp_swap [of a c] cmp_swap [of b c] by simp

lemma cmp_sym: "cmp a b = 0 \<Longrightarrow> cmp b a = 0"
  using cmp_swap [of b a] by (simp add: sgn_if split: if_splits)

lemma cmp_less_iff: "sgn x = sgn (y :: int) \<Longrightarrow> (x < 0 \<longleftrightarrow> y < 0) \<and> (x = 0 \<longleftrightarrow> y = 0)"
  by (auto simp: sgn_if split: if_splits)

end

interpretation bytewise: comparator compare
proof
  fix a b c :: Slice
  show "sgn (compare b a) = - sgn (compare a b)"
    using compare_iff [of a b] compare_iff [of b a] by (cases a b rule: linorder_cases) (auto simp: sgn_if)
  show "compare a b < 0 \<Longrightarrow> compare b c < 0 \<Longrightarrow> compare a c < 0" by simp
  show "compare a b = 0 \<Longrightarrow> sgn (compare a c) = sgn (compare b c)" by simp
qed

text \<open>Over any user comparator, internal keys are compared by a comparator again.\<close>

locale user_comparator = comparator cmp for cmp :: "Slice \<Rightarrow> Slice \<Rightarrow> int"
begin

lemma CompareParsed_neg:
  "CompareParsed cmp a b < 0 \<longleftrightarrow> cmp (user_key a) (user_key b) < 0 \<or> cmp (user_key a) (user_key b) = 0 \<and>
     (sequence b < sequence a \<or> sequence a = sequence b \<and> type b < type a)"
  by (auto simp: CompareParsed_def Let_def)

lemma CompareParsed_zero:
  "CompareParsed cmp a b = 0 \<longleftrightarrow> cmp (user_key a) (user_key b) = 0 \<and> sequence a = sequence b \<and> type a = type b"
  by (auto simp: CompareParsed_def Let_def)

lemma CompareParsed_swap: "sgn (CompareParsed cmp b a) = - sgn (CompareParsed cmp a b)"
proof (cases "cmp (user_key a) (user_key b) = 0")
  case True
  then show ?thesis using cmp_sym [OF True] by (auto simp: CompareParsed_def Let_def)
next
  case False
  then have "cmp (user_key b) (user_key a) \<noteq> 0" using cmp_sym by blast
  with False show ?thesis using cmp_swap [of "user_key b" "user_key a"]
    by (simp add: CompareParsed_def Let_def)
qed

lemma CompareParsed_trans:
  assumes "CompareParsed cmp a b < 0" "CompareParsed cmp b c < 0"
  shows "CompareParsed cmp a c < 0"
proof -
  let ?a = "user_key a" and ?b = "user_key b" and ?c = "user_key c"
  have ab: "cmp ?a ?b < 0 \<or> cmp ?a ?b = 0" and bc: "cmp ?b ?c < 0 \<or> cmp ?b ?c = 0"
    using assms unfolding CompareParsed_neg by auto
  show ?thesis
  proof (cases "cmp ?a ?b = 0")
    case True
    then have "(cmp ?a ?c < 0 \<longleftrightarrow> cmp ?b ?c < 0) \<and> (cmp ?a ?c = 0 \<longleftrightarrow> cmp ?b ?c = 0)"
      by (rule cmp_less_iff [OF cmp_equiv])
    then show ?thesis using assms True unfolding CompareParsed_neg by auto
  next
    case False
    then have lt: "cmp ?a ?b < 0" using ab by simp
    have "cmp ?a ?c < 0"
    proof (cases "cmp ?b ?c = 0")
      case True
      from cmp_less_iff [OF cmp_equiv_right [OF True, of ?a]] lt show ?thesis by simp
    next
      case False
      with bc lt show ?thesis using cmp_trans by blast
    qed
    then show ?thesis unfolding CompareParsed_neg by simp
  qed
qed

lemma CompareParsed_equiv:
  assumes "CompareParsed cmp a b = 0"
  shows "sgn (CompareParsed cmp a c) = sgn (CompareParsed cmp b c)"
proof -
  have eq: "cmp (user_key a) (user_key b) = 0" "sequence a = sequence b" "type a = type b"
    using assms unfolding CompareParsed_zero by auto
  have "sgn (cmp (user_key a) (user_key c)) = sgn (cmp (user_key b) (user_key c))"
    by (rule cmp_equiv [OF eq(1)])
  moreover from cmp_less_iff [OF this] have "cmp (user_key a) (user_key c) = 0 \<longleftrightarrow> cmp (user_key b) (user_key c) = 0"
    by simp
  ultimately show ?thesis by (simp add: CompareParsed_def Let_def eq)
qed

end

sublocale user_comparator \<subseteq> ikey: comparator "CompareParsed cmp"
  by unfold_locales (rule CompareParsed_swap CompareParsed_trans CompareParsed_equiv; assumption?)+

interpretation bytewise_key: user_comparator compare
  by unfold_locales

section \<open>Internal keys in order\<close>

lemma InternalKey_order:
  assumes "s \<le> kMaxSequenceNumber" "s' \<le> kMaxSequenceNumber"
  shows "\<exists>r. CompareSlices compare (InternalKey k s t) (InternalKey k' s' t') = Some r \<and>
    (r < 0 \<longleftrightarrow> k < k' \<or> k = k' \<and> (s' < s \<or> s = s' \<and> t' < t)) \<and>
    (r = 0 \<longleftrightarrow> k = k' \<and> s = s' \<and> t = t')"
  using CompareSlices_Append [of "\<lparr>user_key = k, sequence = s, type = t\<rparr>" "\<lparr>user_key = k', sequence = s', type = t'\<rparr>" compare]
    assms bytewise_key.CompareParsed_neg [of "\<lparr>user_key = k, sequence = s, type = t\<rparr>" "\<lparr>user_key = k', sequence = s', type = t'\<rparr>"]
    bytewise_key.CompareParsed_zero [of "\<lparr>user_key = k, sequence = s, type = t\<rparr>" "\<lparr>user_key = k', sequence = s', type = t'\<rparr>"]
  by (simp add: InternalKey_def)

text \<open>
  C39: an internal key parses back to the user key, sequence number and type it
  was built from, and encoded keys compare by user key, then by falling sequence
  number, then by falling type; \<open>UpdateInternalKey\<close> changes the sequence number
  and the type and nothing else.
\<close>

theorem internal_key_roundtrip_order:
  assumes "s \<le> kMaxSequenceNumber" "s' \<le> kMaxSequenceNumber" "IsExtendedValueType t"
  shows "ParseInternalKey (InternalKey k s t) = Inr \<lparr>user_key = k, sequence = s, type = t\<rparr> \<and>
    ParseInternalKey (UpdateInternalKey (InternalKey k s'' t'') s t) = Inr \<lparr>user_key = k, sequence = s, type = t\<rparr> \<and>
    (\<exists>r. CompareSlices compare (InternalKey k s t) (InternalKey k' s' t') = Some r \<and>
      (r < 0 \<longleftrightarrow> k < k' \<or> k = k' \<and> (s' < s \<or> s = s' \<and> t' < t)) \<and>
      (r = 0 \<longleftrightarrow> k = k' \<and> s = s' \<and> t = t'))"
  using InternalKey_order [OF assms(1,2), of k t k' t'] assms
  by (simp add: InternalKey_def UpdateInternalKey_Append ParseInternalKey_Append)

theorem internal_key_roundtrip_order_witness:
  "ParseInternalKey (InternalKey [7] 5 1) = Inr \<lparr>user_key = [7], sequence = 5, type = 1\<rparr>"
proof -
  have "(5 :: u64) \<le> kMaxSequenceNumber" "(0 :: u64) \<le> kMaxSequenceNumber" "IsExtendedValueType 1"
    by (simp_all add: seq_small IsExtendedValueType_def IsValueType_def)
  from internal_key_roundtrip_order [OF this, of "[7]"] show ?thesis by blast
qed

end
