(* ===== verification/Registry.thy ===== *)
theory Registry
  imports KMV_Sketch Size_Model Db_Format "HOL-Library.AList"
begin

text \<open>
  The registry of virtual files of \<open>db/virtual_compaction/virtual_sst_registry.h\<close>:
  the table from file numbers to descriptors with its set of retired numbers, the
  sizes it is configured with, the user-key encoding and the memory account. Each
  operation runs under the registry's own lock, so it is one step on the state.
  The registry refines a three-state automaton per file number (unknown, live,
  retired), and the user-key encoding keeps the order of 64-bit keys.
\<close>

section \<open>State and operations\<close>

text \<open>
  The hash table \<open>registry_\<close> is an association list in its iteration order, which
  the standard leaves open; no result depends on the order.
\<close>

record VirtualSSTRegistry =
  registry :: "(u64 \<times> VirtualSST) list"
  retired :: "u64 set"
  key_size :: u32
  avg_entry_size :: u64
  size_model :: SSTSizeModel
  target_sst_size :: u64

definition new_registry :: VirtualSSTRegistry where
  "new_registry = \<lparr>registry = [], retired = {}, key_size = 16, avg_entry_size = 1048,
     size_model = Logical 1048, target_sst_size = 64 * 1024 * 1024\<rparr>"

definition SetKeySize :: "u32 \<Rightarrow> VirtualSSTRegistry \<Rightarrow> VirtualSSTRegistry" where
  "SetKeySize ks r = r\<lparr>key_size := ks\<rparr>"

definition SetAvgEntrySize :: "u64 \<Rightarrow> VirtualSSTRegistry \<Rightarrow> VirtualSSTRegistry" where
  "SetAvgEntrySize s r = r\<lparr>avg_entry_size := s, size_model := Logical s\<rparr>"

definition SetSSTSizeModel :: "SSTSizeModel \<Rightarrow> VirtualSSTRegistry \<Rightarrow> VirtualSSTRegistry" where
  "SetSSTSizeModel model r = r\<lparr>size_model := model\<rparr>"

definition SetTargetSSTSize :: "u64 \<Rightarrow> VirtualSSTRegistry \<Rightarrow> VirtualSSTRegistry" where
  "SetTargetSSTSize s r = r\<lparr>target_sst_size := s\<rparr>"

text \<open>\<open>key_size_\<close> is cast to a signed \<open>int\<close>; the shift by three multiplies by eight.\<close>

definition EncodeUserKey :: "VirtualSSTRegistry \<Rightarrow> u64 \<Rightarrow> Slice" where
  "EncodeUserKey r v =
     (let bytes_to_fill = min (sint (key_size r)) 8
      in fold (\<lambda>i key. key[i := ucast (drop_bit (nat ((bytes_to_fill - int i - 1) * 8)) v AND 0xff)])
           [0..<nat bytes_to_fill] (replicate (unat (key_size r)) 48))"

definition Register :: "u64 \<Rightarrow> VirtualSST \<Rightarrow> VirtualSSTRegistry \<Rightarrow> VirtualSSTRegistry" where
  "Register file_number vsst r =
     r\<lparr>registry := AList.update file_number vsst (registry r), retired := retired r - {file_number}\<rparr>"

definition Lookup :: "VirtualSSTRegistry \<Rightarrow> u64 \<Rightarrow> VirtualSST option" where
  "Lookup r file_number = map_of (registry r) file_number"

definition LookupMany :: "VirtualSSTRegistry \<Rightarrow> u64 list \<Rightarrow> VirtualSST option list" where
  "LookupMany r file_numbers = map (map_of (registry r)) file_numbers"

text \<open>\<open>erase\<close> of a key returns the number of entries it removed.\<close>

definition erase_count :: "u64 \<Rightarrow> (u64 \<times> VirtualSST) list \<Rightarrow> nat" where
  "erase_count file_number m = (if map_of m file_number = None then 0 else 1)"

definition Remove :: "u64 \<Rightarrow> VirtualSSTRegistry \<Rightarrow> VirtualSSTRegistry" where
  "Remove file_number r =
     (let r' = r\<lparr>registry := AList.delete file_number (registry r)\<rparr>
      in if erase_count file_number (registry r) > 0 then r'\<lparr>retired := insert file_number (retired r')\<rparr>
         else r')"

definition ConsumeVirtualOrRetired :: "u64 \<Rightarrow> VirtualSSTRegistry \<Rightarrow> bool \<times> VirtualSSTRegistry" where
  "ConsumeVirtualOrRetired file_number r =
     (let r' = r\<lparr>registry := AList.delete file_number (registry r)\<rparr>
      in if erase_count file_number (registry r) > 0 then (True, r')
         else (file_number \<in> retired r', r'\<lparr>retired := retired r' - {file_number}\<rparr>))"

definition IsVirtual :: "VirtualSSTRegistry \<Rightarrow> u64 \<Rightarrow> bool" where
  "IsVirtual r file_number \<longleftrightarrow> map_of (registry r) file_number \<noteq> None"

definition GetSnapshot :: "VirtualSSTRegistry \<Rightarrow> (u64 \<times> VirtualSST) list" where
  "GetSnapshot r = registry r"

definition Size :: "VirtualSSTRegistry \<Rightarrow> nat" where
  "Size r = length (registry r)"

subsection \<open>Memory account\<close>

text \<open>
  Vector capacities and bucket counts belong to the standard library: they are
  arguments. The sizes of the structures are those of a 64-bit platform.
\<close>

record allocation =
  segment_capacity :: "VirtualSST \<Rightarrow> u64"
  range_capacity :: "VirtualSST \<Rightarrow> u64"
  sample_capacity :: "KMVRangeSketch \<Rightarrow> u64"
  registry_buckets :: u64
  retired_buckets :: u64

record HeapUsage =
  files :: u64
  plr_segment_bytes :: u64
  kmv_sample_bytes :: u64
  kmv_bucket_bytes :: u64
  descriptor_bytes :: u64
  index_bytes :: u64

definition HeapUsage_Total :: "HeapUsage \<Rightarrow> u64" where
  "HeapUsage_Total u = plr_segment_bytes u + kmv_sample_bytes u + kmv_bucket_bytes u +
     descriptor_bytes u + index_bytes u"

definition add_descriptor :: "allocation \<Rightarrow> u64 \<times> VirtualSST \<Rightarrow> HeapUsage \<Rightarrow> HeapUsage" where
  "add_descriptor al kv u =
     (let v = snd kv
      in \<lparr>files = files u + 1,
          plr_segment_bytes = plr_segment_bytes u + segment_capacity al v * 32,
          kmv_sample_bytes =
            fold (\<lambda>r b. b + sample_capacity al r * 8) (kmv_ranges v) (kmv_sample_bytes u),
          kmv_bucket_bytes = kmv_bucket_bytes u + range_capacity al v * 64,
          descriptor_bytes = descriptor_bytes u + (80 + 16),
          index_bytes = index_bytes u\<rparr>)"

definition GetHeapUsage :: "allocation \<Rightarrow> VirtualSSTRegistry \<Rightarrow> HeapUsage" where
  "GetHeapUsage al r =
     (fold (add_descriptor al) (registry r)
        \<lparr>files = 0, plr_segment_bytes = 0, kmv_sample_bytes = 0, kmv_bucket_bytes = 0,
         descriptor_bytes = 0, index_bytes = 0\<rparr>)
       \<lparr>index_bytes := registry_buckets al * 8 + of_nat (length (registry r)) * 32 +
                        retired_buckets al * 8 + of_nat (card (retired r)) * 16\<rparr>"

section \<open>The abstract registry\<close>

datatype file_state = Unknown | Live VirtualSST | Retired

definition file_states :: "VirtualSSTRegistry \<Rightarrow> u64 \<Rightarrow> file_state" where
  "file_states r f =
     (case map_of (registry r) f of
        Some v \<Rightarrow> Live v
      | None \<Rightarrow> if f \<in> retired r then Retired else Unknown)"

datatype registry_op = Op_Register u64 VirtualSST | Op_Remove u64 | Op_Consume u64

fun spec_op :: "registry_op \<Rightarrow> (u64 \<Rightarrow> file_state) \<Rightarrow> bool \<times> (u64 \<Rightarrow> file_state)" where
  "spec_op (Op_Register f v) A = (True, A(f := Live v))"
| "spec_op (Op_Remove f) A =
     (True, case A f of Live _ \<Rightarrow> A(f := Retired) | _ \<Rightarrow> A)"
| "spec_op (Op_Consume f) A = (A f \<noteq> Unknown, A(f := Unknown))"

fun exec_op :: "registry_op \<Rightarrow> VirtualSSTRegistry \<Rightarrow> bool \<times> VirtualSSTRegistry" where
  "exec_op (Op_Register f v) r = (True, Register f v r)"
| "exec_op (Op_Remove f) r = (True, Remove f r)"
| "exec_op (Op_Consume f) r = ConsumeVirtualOrRetired f r"

text \<open>The answers of a run of operations and the state it ends in.\<close>

fun run_ops :: "('o \<Rightarrow> 's \<Rightarrow> bool \<times> 's) \<Rightarrow> 'o list \<Rightarrow> 's \<Rightarrow> bool list \<times> 's" where
  "run_ops step [] s = ([], s)"
| "run_ops step (x # xs) s =
     (let (b, s') = step x s; (bs, s'') = run_ops step xs s' in (b # bs, s''))"

definition registry_inv :: "VirtualSSTRegistry \<Rightarrow> bool" where
  "registry_inv r \<longleftrightarrow> distinct (map fst (registry r)) \<and> finite (retired r) \<and>
     fst ` set (registry r) \<inter> retired r = {}"

section \<open>What the clients rely on\<close>

text \<open>
  The interface the compaction code uses: a table that can be looked up, and two
  updates that change one entry each.
\<close>

locale virtual_files =
  fixes inv :: "'s \<Rightarrow> bool"
    and lookup :: "'s \<Rightarrow> u64 \<Rightarrow> VirtualSST option"
    and register :: "u64 \<Rightarrow> VirtualSST \<Rightarrow> 's \<Rightarrow> 's"
    and remove :: "u64 \<Rightarrow> 's \<Rightarrow> 's"
  assumes inv_register: "inv s \<Longrightarrow> inv (register f v s)"
    and inv_remove: "inv s \<Longrightarrow> inv (remove f s)"
    and lookup_register: "inv s \<Longrightarrow> lookup (register f v s) g = (if g = f then Some v else lookup s g)"
    and lookup_remove: "inv s \<Longrightarrow> lookup (remove f s) g = (if g = f then None else lookup s g)"
begin

lemma inv_fold_register: "inv s \<Longrightarrow> inv (fold (\<lambda>(f, v). register f v) fvs s)"
  by (induction fvs arbitrary: s) (auto simp: inv_register)

lemma inv_fold_remove: "inv s \<Longrightarrow> inv (fold remove fs s)"
  by (induction fs arbitrary: s) (auto simp: inv_remove)

text \<open>Registering a list of files with distinct numbers overrides exactly these entries.\<close>

lemma lookup_fold_register:
  assumes "inv s" "distinct (map fst fvs)"
  shows "lookup (fold (\<lambda>(f, v). register f v) fvs s) g =
    (case map_of fvs g of Some v \<Rightarrow> Some v | None \<Rightarrow> lookup s g)"
  using assms
proof (induction fvs arbitrary: s)
  case (Cons fv fvs)
  obtain f v where fv: "fv = (f, v)" by fastforce
  have "f \<notin> dom (map_of fvs)" using Cons.prems(2) fv by (simp add: dom_map_of_conv_image_fst)
  then show ?case using Cons.IH [of "register f v s"] Cons.prems fv
    by (auto simp: inv_register lookup_register split: option.splits)
qed simp

lemma lookup_fold_remove:
  assumes "inv s"
  shows "lookup (fold remove fs s) g = (if g \<in> set fs then None else lookup s g)"
  using assms by (induction fs arbitrary: s) (auto simp: inv_remove lookup_remove)

end

section \<open>The registry refines the automaton\<close>

lemma distinct_fst_delete: "distinct (map fst xs) \<Longrightarrow> distinct (map fst (AList.delete k xs))"
  by (rule distinct_delete)

lemma fst_set_update: "fst ` set (AList.update k v xs) = insert k (fst ` set xs)"
  using dom_update [of k v xs] by (simp add: update_conv' dom_map_of_conv_image_fst [symmetric])

lemma fst_set_delete: "fst ` set (AList.delete k xs) = fst ` set xs - {k}"
  by (auto simp: AList.delete_eq)

lemma registry_inv_new: "registry_inv new_registry"
  by (simp add: registry_inv_def new_registry_def)

lemma registry_inv_Register: "registry_inv r \<Longrightarrow> registry_inv (Register f v r)"
  by (auto simp: registry_inv_def Register_def distinct_update fst_set_update)

lemma erase_count_pos: "0 < erase_count f m \<longleftrightarrow> f \<in> fst ` set m"
  by (auto simp: erase_count_def map_of_eq_None_iff)

lemma registry_inv_Remove: "registry_inv r \<Longrightarrow> registry_inv (Remove f r)"
  by (auto simp: registry_inv_def Remove_def Let_def distinct_delete fst_set_delete)

lemma registry_inv_Consume:
  "registry_inv r \<Longrightarrow> registry_inv (snd (ConsumeVirtualOrRetired f r))"
  by (auto simp: registry_inv_def ConsumeVirtualOrRetired_def Let_def distinct_delete fst_set_delete)

interpretation vf: virtual_files registry_inv Lookup Register Remove
proof
  fix s f v g
  assume inv: "registry_inv s"
  show "registry_inv (Register f v s)" "registry_inv (Remove f s)"
    using inv by (rule registry_inv_Register registry_inv_Remove)+
  show "Lookup (Register f v s) g = (if g = f then Some v else Lookup s g)"
    by (simp add: Lookup_def Register_def update_conv')
  show "Lookup (Remove f s) g = (if g = f then None else Lookup s g)"
    by (simp add: Lookup_def Remove_def Let_def delete_conv')
qed

lemma exec_op_refines:
  assumes "registry_inv r"
  shows "registry_inv (snd (exec_op x r)) \<and> fst (exec_op x r) = fst (spec_op x (file_states r)) \<and>
    file_states (snd (exec_op x r)) = snd (spec_op x (file_states r))"
proof (cases x)
  case (Op_Register f v)
  have "file_states (Register f v r) = (file_states r)(f := Live v)"
    by (rule ext) (simp add: file_states_def Register_def update_conv')
  with Op_Register show ?thesis using registry_inv_Register [OF assms] by simp
next
  case (Op_Remove f)
  have "file_states (Remove f r) = snd (spec_op (Op_Remove f) (file_states r))"
    by (rule ext) (auto simp: file_states_def Remove_def Let_def delete_conv' erase_count_def split: option.splits)
  then show ?thesis using assms Op_Remove by (simp add: registry_inv_Remove)
next
  case (Op_Consume f)
  have disj: "f \<notin> retired r" if "f \<in> fst ` set (registry r)"
    using assms that by (auto simp: registry_inv_def)
  have "file_states (snd (ConsumeVirtualOrRetired f r)) g = ((file_states r)(f := Unknown)) g" for g
  proof (cases "map_of (registry r) f")
    case None
    then show ?thesis
      by (simp add: file_states_def ConsumeVirtualOrRetired_def Let_def delete_conv' erase_count_def)
  next
    case (Some v)
    then have "f \<notin> retired r" using disj map_of_SomeD by force
    with Some show ?thesis
      by (simp add: file_states_def ConsumeVirtualOrRetired_def Let_def delete_conv' erase_count_def)
  qed
  then have "file_states (snd (ConsumeVirtualOrRetired f r)) = (file_states r)(f := Unknown)" by (rule ext)
  moreover have "fst (ConsumeVirtualOrRetired f r) = (file_states r f \<noteq> Unknown)"
    by (auto simp: file_states_def ConsumeVirtualOrRetired_def Let_def erase_count_def split: option.splits)
  ultimately show ?thesis using assms Op_Consume by (simp add: registry_inv_Consume)
qed

lemma run_ops_refines:
  assumes "registry_inv r" "run_ops exec_op xs r = (bs, r')"
  shows "registry_inv r' \<and> run_ops spec_op xs (file_states r) = (bs, file_states r')"
  using assms
proof (induction xs arbitrary: r bs)
  case (Cons x xs)
  obtain b r1 where x: "exec_op x r = (b, r1)" by fastforce
  obtain bs1 r2 where xs: "run_ops exec_op xs r1 = (bs1, r2)" by fastforce
  have res: "bs = b # bs1" "r' = r2" using Cons.prems(2) x xs by auto
  have "registry_inv r1" "spec_op x (file_states r) = (b, file_states r1)"
    using exec_op_refines [OF Cons.prems(1), of x] x by (auto simp: prod_eq_iff)
  with Cons.IH [OF this(1), of bs1] xs res show ?case by simp
qed simp

lemma Lookup_file_states: "Lookup r f = (case file_states r f of Live v \<Rightarrow> Some v | _ \<Rightarrow> None)"
  by (simp add: Lookup_def file_states_def split: option.splits)

lemma IsVirtual_Lookup: "IsVirtual r f \<longleftrightarrow> Lookup r f \<noteq> None"
  by (simp add: IsVirtual_def Lookup_def)

lemma fold_add_descriptor:
  "files (fold (add_descriptor al) kvs u) = files u + of_nat (length kvs)"
  "descriptor_bytes (fold (add_descriptor al) kvs u) = descriptor_bytes u + 96 * of_nat (length kvs)"
  "plr_segment_bytes (fold (add_descriptor al) kvs u) =
     plr_segment_bytes u + (\<Sum>kv \<leftarrow> kvs. segment_capacity al (snd kv) * 32)"
  by (induction kvs arbitrary: u) (simp_all add: add_descriptor_def Let_def algebra_simps)

text \<open>The account counts every live descriptor once.\<close>

lemma GetHeapUsage_counts:
  "files (GetHeapUsage al r) = of_nat (Size r) \<and>
   descriptor_bytes (GetHeapUsage al r) = 96 * of_nat (Size r) \<and>
   plr_segment_bytes (GetHeapUsage al r) = (\<Sum>kv \<leftarrow> GetSnapshot r. segment_capacity al (snd kv) * 32)"
  by (simp add: GetHeapUsage_def Size_def GetSnapshot_def fold_add_descriptor)

section \<open>User keys keep the order of the integers\<close>

text \<open>The value of a byte string read as a big-endian number.\<close>

fun be_value :: "Slice \<Rightarrow> nat" where
  "be_value [] = 0"
| "be_value (b # bs) = unat b * 256 ^ length bs + be_value bs"

lemma unat_byte_less: "unat (b :: byte) < 256"
  using unsigned_less [of b, where ?'a = nat] by simp

lemma be_value_less: "be_value bs < 256 ^ length bs"
proof (induction bs)
  case (Cons b bs)
  have "unat b * 256 ^ length bs + be_value bs < (unat b + 1) * 256 ^ length bs" using Cons.IH by simp
  also have "\<dots> \<le> 256 * 256 ^ length bs" using unat_byte_less [of b] by (intro mult_right_mono) auto
  finally show ?case by simp
qed simp

lemma be_value_order:
  assumes "length as = length bs"
  shows "as < bs \<longleftrightarrow> be_value as < be_value bs"
  using assms
proof (induction as bs rule: list_induct2)
  case (Cons a as b bs)
  have lex: "x * p + m < y * p + n \<longleftrightarrow> x < y \<or> x = y \<and> m < n" if "m < p" "n < p" for x y m n p :: nat
  proof -
    have "x * p + m < y * p + n" if "x < y"
    proof -
      have "(x + 1) * p \<le> y * p" using that by (intro mult_right_mono) auto
      then show ?thesis using \<open>m < p\<close> by simp
    qed
    moreover have "y * p + n < x * p + m" if "y < x"
    proof -
      have "(y + 1) * p \<le> x * p" using that by (intro mult_right_mono) auto
      then show ?thesis using \<open>n < p\<close> by simp
    qed
    ultimately show ?thesis by (cases x y rule: linorder_cases) auto
  qed
  have "be_value as < 256 ^ length as" "be_value bs < 256 ^ length as"
    using be_value_less [of as] be_value_less [of bs] Cons.hyps by simp_all
  from lex [OF this, of "unat a" "unat b"] Cons show ?case
    by (auto simp: word_less_nat_alt word_unat_eq_iff)
qed simp

lemma be_value_bytes:
  "be_value (rev (map (\<lambda>i. ucast (take_bit 8 (drop_bit (8 * i) (v :: u64)))) [0..<n])) = unat v mod 256 ^ n"
proof (induction n)
  case (Suc n)
  have "unat (ucast (take_bit 8 (drop_bit (8 * n) v)) :: byte) = unat v div 256 ^ n mod 256"
    by (simp only: unsigned_ucast_eq unsigned_take_bit_eq unat_drop_bit)
      (simp add: take_bit_eq_mod power_mult)
  moreover have "unat v mod 256 ^ Suc n = unat v div 256 ^ n mod 256 * 256 ^ n + unat v mod 256 ^ n"
    by (metis mod_mult2_eq mult.commute power_Suc)
  ultimately show ?case using Suc.IH by simp
qed simp

lemma EncodeFixed64_map:
  "EncodeFixed64 v = map (\<lambda>i. ucast (take_bit 8 (drop_bit (8 * i) v))) [0..<8]"
  by (simp add: EncodeFixed64_def and_255 upt_conv_Cons)

lemma be_value_rev_EncodeFixed64: "be_value (rev (EncodeFixed64 v)) = unat v"
  unfolding EncodeFixed64_map be_value_bytes using unat_u64_less [of v] by simp

lemma fold_list_update:
  "n \<le> length key \<Longrightarrow> fold (\<lambda>i key. key[i := f i]) [0..<n] key = map f [0..<n] @ drop n key"
proof (induction n)
  case (Suc n)
  then have "fold (\<lambda>i key. key[i := f i]) [0..<n] key = map f [0..<n] @ drop n key" by simp
  moreover have "drop n key = key ! n # drop (Suc n) key" using Suc.prems by (simp add: Cons_nth_drop_Suc)
  ultimately show ?case by (simp add: list_update_append)
qed simp

text \<open>With a key size of at least eight bytes a user key is the big-endian value and a padding.\<close>

lemma EncodeUserKey_eq:
  assumes "8 \<le> key_size r" "key_size r < 2 ^ 31"
  shows "EncodeUserKey r v = rev (EncodeFixed64 v) @ replicate (unat (key_size r) - 8) 48"
proof -
  have u: "unat (key_size r) < 2 ^ 31" "8 \<le> unat (key_size r)"
    using assms by (simp_all add: word_less_nat_alt word_le_nat_alt)
  have i: "uint (key_size r) < 2 ^ 31" "8 \<le> uint (key_size r)"
    using assms by (simp_all add: word_less_def word_le_def)
  then have "signed_take_bit 31 (uint (key_size r)) = uint (key_size r)"
    by (intro signed_take_bit_int_eq_self) auto
  then have m: "min (sint (key_size r)) 8 = 8" using i(2) by (simp add: sint_uint)
  have "rev (EncodeFixed64 v) = map (\<lambda>i. ucast (drop_bit (nat ((8 - int i - 1) * 8)) v AND 0xff)) [0..<8]"
    by (simp add: EncodeFixed64_def upt_conv_Cons)
  then show ?thesis using u(2) by (simp add: EncodeUserKey_def Let_def m fold_list_update)
qed

text \<open>
  C11: after any sequence of registrations, removals and consumptions, started on a
  new registry, the answers and the state are those of the abstract automaton with
  one state per file number: a number is live with the descriptor last registered,
  retired once removed, and unknown after it was consumed. \<open>Lookup\<close>, \<open>LookupMany\<close>,
  \<open>IsVirtual\<close>, \<open>GetSnapshot\<close> and \<open>Size\<close> read that state.
\<close>

theorem registry_refines:
  "case run_ops exec_op xs new_registry of (bs, r) \<Rightarrow>
     run_ops spec_op xs (\<lambda>_. Unknown) = (bs, file_states r) \<and>
     (\<forall>f. Lookup r f = (case file_states r f of Live v \<Rightarrow> Some v | _ \<Rightarrow> None)) \<and>
     LookupMany r fs = map (Lookup r) fs \<and>
     (\<forall>f. IsVirtual r f \<longleftrightarrow> Lookup r f \<noteq> None) \<and>
     set (GetSnapshot r) = {(f, v). file_states r f = Live v} \<and>
     Size r = card {f. Lookup r f \<noteq> None}"
proof -
  obtain bs r where r: "run_ops exec_op xs new_registry = (bs, r)" by fastforce
  have new: "file_states new_registry = (\<lambda>_. Unknown)"
    by (rule ext) (simp add: file_states_def new_registry_def)
  have run: "registry_inv r" "run_ops spec_op xs (\<lambda>_. Unknown) = (bs, file_states r)"
    using run_ops_refines [OF registry_inv_new r] by (auto simp: new)
  have d: "distinct (map fst (registry r))" using run(1) by (simp add: registry_inv_def)
  have "set (GetSnapshot r) = {(f, v). file_states r f = Live v}"
    using d by (auto simp: GetSnapshot_def file_states_def split: option.splits if_splits dest: map_of_SomeD)
  moreover have "{f. Lookup r f \<noteq> None} = fst ` set (registry r)"
    using dom_map_of_conv_image_fst [of "registry r"] by (simp add: Lookup_def dom_def)
  moreover have "card (fst ` set (registry r)) = Size r"
    using distinct_card [OF d] by (simp add: Size_def)
  ultimately show ?thesis unfolding r
    using run(2) by (simp add: Lookup_file_states [symmetric] IsVirtual_Lookup LookupMany_def Lookup_def [abs_def])
qed


text \<open>
  C37: with a key size of at least eight bytes, user keys have that size, differ for
  different keys, and compare bytewise as the 64-bit keys do, so the key bounds of
  a virtual file are its bounds under the database's comparator.
\<close>

theorem EncodeUserKey_order:
  assumes "8 \<le> key_size r" "key_size r < 2 ^ 31"
  shows "length (EncodeUserKey r v) = unat (key_size r) \<and>
    (EncodeUserKey r v = EncodeUserKey r w \<longleftrightarrow> v = w) \<and>
    (compare (EncodeUserKey r v) (EncodeUserKey r w) < 0 \<longleftrightarrow> v < w)"
proof -
  have u: "8 \<le> unat (key_size r)" using assms(1) by (simp add: word_le_nat_alt)
  have less: "EncodeUserKey r v < EncodeUserKey r w \<longleftrightarrow> v < w" for v w
  proof -
    have app: "(as @ cs < bs @ cs) = (as < bs)" if "length as = length bs" for as bs cs :: Slice
      using that by (induction as bs rule: list_induct2) auto
    show ?thesis
      unfolding EncodeUserKey_eq [OF assms] using be_value_order [of "rev (EncodeFixed64 v)" "rev (EncodeFixed64 w)"]
      by (simp add: app be_value_rev_EncodeFixed64 word_less_nat_alt)
  qed
  have "v = w" if "EncodeUserKey r v = EncodeUserKey r w"
    using less [of v w] less [of w v] that by auto
  then show ?thesis using less [of v w] u by (auto simp: EncodeUserKey_eq [OF assms])
qed

theorem EncodeUserKey_order_witness:
  "compare (EncodeUserKey new_registry 255) (EncodeUserKey new_registry 256) < 0"
proof -
  have "8 \<le> key_size new_registry" "key_size new_registry < 2 ^ 31" by (simp_all add: new_registry_def)
  from EncodeUserKey_order [OF this, of 255 256] show ?thesis by simp
qed

end
