(* ===== verification/Version_Edit.thy ===== *)
theory Version_Edit
  imports Db_Format
begin

text \<open>
  The part of \<open>db/version_edit.h\<close> that virtual compaction writes: file descriptors
  with their packed number and path, file metadata, and the edit that adds and
  deletes table files. Fields that are filled later, when a file is opened, are
  left out.
\<close>

section \<open>Files\<close>

definition kFileNumberMask :: u64 where
  "kFileNumberMask = 0x3FFFFFFFFFFFFFFF"

definition PackFileNumberAndPathId :: "u64 \<Rightarrow> u64 \<Rightarrow> u64" where
  "PackFileNumberAndPathId number path_id = number OR (path_id * (kFileNumberMask + 1))"

record FileDescriptor =
  packed_number_and_path_id :: u64
  fd_file_size :: u64
  smallest_seqno :: SequenceNumber
  largest_seqno :: SequenceNumber

definition make_fd :: "u64 \<Rightarrow> u32 \<Rightarrow> u64 \<Rightarrow> SequenceNumber \<Rightarrow> SequenceNumber \<Rightarrow> FileDescriptor" where
  "make_fd number path_id file_size smallest_seq largest_seq =
     \<lparr>packed_number_and_path_id = PackFileNumberAndPathId number (ucast path_id),
      fd_file_size = file_size, smallest_seqno = smallest_seq, largest_seqno = largest_seq\<rparr>"

definition GetNumber :: "FileDescriptor \<Rightarrow> u64" where
  "GetNumber fd = packed_number_and_path_id fd AND kFileNumberMask"

definition GetPathId :: "FileDescriptor \<Rightarrow> u32" where
  "GetPathId fd = ucast (packed_number_and_path_id fd div (kFileNumberMask + 1))"

text \<open>A \<open>Temperature\<close> is an enum over \<open>uint8_t\<close>; \<open>kUnknown\<close> is zero.\<close>

record FileMetaData =
  fd :: FileDescriptor
  smallest :: Slice
  largest :: Slice
  marked_for_compaction :: bool
  temperature :: byte
  oldest_blob_file_number :: u64
  oldest_ancester_time :: u64
  file_creation_time :: u64
  epoch_number :: u64
  file_checksum :: string
  file_checksum_func_name :: string
  unique_id :: "u64 \<times> u64"
  compensated_range_deletion_size :: u64
  tail_size :: u64
  user_defined_timestamps_persisted :: bool

section \<open>Edits\<close>

text \<open>\<open>has_last_sequence_\<close> and \<open>last_sequence_\<close> are one optional value.\<close>

record VersionEdit =
  column_family :: u32
  last_sequence :: "SequenceNumber option"
  deleted_files :: "(int \<times> u64) set"
  new_files :: "(int \<times> FileMetaData) list"
  files_to_quarantine :: "u64 list"

definition new_edit :: VersionEdit where
  "new_edit = \<lparr>column_family = 0, last_sequence = None, deleted_files = {}, new_files = [],
     files_to_quarantine = []\<rparr>"

definition SetLastSequence :: "SequenceNumber \<Rightarrow> 'a VersionEdit_scheme \<Rightarrow> 'a VersionEdit_scheme" where
  "SetLastSequence seq e = e\<lparr>last_sequence := Some seq\<rparr>"

definition DeleteFile :: "int \<Rightarrow> u64 \<Rightarrow> 'a VersionEdit_scheme \<Rightarrow> 'a VersionEdit_scheme" where
  "DeleteFile level file e = e\<lparr>deleted_files := insert (level, file) (deleted_files e)\<rparr>"

definition AddFile :: "int \<Rightarrow> FileMetaData \<Rightarrow> 'a VersionEdit_scheme \<Rightarrow> 'a VersionEdit_scheme" where
  "AddFile level f e =
     (let e' = e\<lparr>new_files := new_files e @ [(level, f)],
                 files_to_quarantine := files_to_quarantine e @ [GetNumber (fd f)]\<rparr>
      in case last_sequence e of
           None \<Rightarrow> SetLastSequence (largest_seqno (fd f)) e'
         | Some l \<Rightarrow> if largest_seqno (fd f) > l then SetLastSequence (largest_seqno (fd f)) e' else e')"

section \<open>File numbers survive packing\<close>

lemma kFileNumberMask_mask: "kFileNumberMask = mask 62"
  by (simp add: kFileNumberMask_def mask_eq_exp_minus_1)

lemma GetNumber_make_fd [simp]:
  assumes "n \<le> kFileNumberMask"
  shows "GetNumber (make_fd n 0 sz s l) = n" "GetPathId (make_fd n 0 sz s l) = 0"
proof -
  have "unat n < 2 ^ 62" using assms by (simp add: word_le_nat_alt kFileNumberMask_def)
  then have t: "take_bit 62 n = n"
    by (simp add: word_unat_eq_iff unsigned_take_bit_eq take_bit_nat_eq_self)
  then show "GetNumber (make_fd n 0 sz s l) = n"
    by (simp add: GetNumber_def make_fd_def PackFileNumberAndPathId_def kFileNumberMask_mask
        take_bit_eq_mask [symmetric])
  have "unat n div 2 ^ 62 = 0" using \<open>unat n < 2 ^ 62\<close> by simp
  then have "n div 0x4000000000000000 = 0" by (simp add: word_unat_eq_iff unat_div)
  then show "GetPathId (make_fd n 0 sz s l) = 0"
    by (simp add: GetPathId_def make_fd_def PackFileNumberAndPathId_def kFileNumberMask_def)
qed

lemma AddFile_simps [simp]:
  "deleted_files (AddFile level f e) = deleted_files e"
  "new_files (AddFile level f e) = new_files e @ [(level, f)]"
  "column_family (AddFile level f e) = column_family e"
  by (auto simp: AddFile_def SetLastSequence_def Let_def split: option.splits)

end
