(* ===== verification/L0_Window.thy ===== *)
theory L0_Window
  imports Registry Version_Edit
begin

text \<open>
  The window of visible level-0 files of \<open>db/db_impl/db_impl_compaction_flush.cc\<close>:
  virtual files wait in a queue and are registered in batches while the visible
  bytes stay below a target, subject to the column family's write-stall
  conditions. The state is the part of \<open>DBImpl\<close> that the code reads and writes.
  The version set, its options and the clock are arguments: \<open>LogAndApply\<close> returns
  a status and the new version set. The functions here run without interference;
  the interleaving of several callers, which \<open>LogAndApply\<close> allows because it
  releases the mutex, is the step relation at the end.
\<close>

section \<open>State\<close>

record VirtualL0RegistrationStats =
  reg_mutex_wait_us :: u64
  reg_log_apply_us :: u64
  reg_install_schedule_us :: u64
  reg_cleanup_us :: u64
  reg_total_us :: u64

record VirtualL0WindowFile =
  file_number :: u64
  vsst :: VirtualSST
  file_size :: u64
  l0_epoch_number :: u64

record VirtualL0WindowStats =
  queued_files :: u64
  queued_bytes :: u64
  registered_files :: u64
  registered_bytes :: u64
  consumed_files :: u64
  consumed_bytes :: u64
  register_batches :: u64
  max_register_batch :: u64
  max_register_batch_bytes :: u64
  max_pending_files :: u64
  pending_files :: u64
  pending_bytes :: u64
  visible_files :: u64
  visible_bytes :: u64
  target_visible_bytes :: u64
  max_register_batch_files :: u64
  refill_us :: u64
  log_apply_us :: u64
  install_schedule_us :: u64
  cleanup_us :: u64
  backpressure_stops :: u64
  backpressure_trickles :: u64

definition new_window_stats :: VirtualL0WindowStats where
  "new_window_stats =
     \<lparr>queued_files = 0, queued_bytes = 0, registered_files = 0, registered_bytes = 0,
      consumed_files = 0, consumed_bytes = 0, register_batches = 0, max_register_batch = 0,
      max_register_batch_bytes = 0, max_pending_files = 0, pending_files = 0, pending_bytes = 0,
      visible_files = 0, visible_bytes = 0, target_visible_bytes = 0, max_register_batch_files = 0,
      refill_us = 0, log_apply_us = 0, install_schedule_us = 0, cleanup_us = 0,
      backpressure_stops = 0, backpressure_trickles = 0\<rparr>"

text \<open>The fields of \<open>DBImpl\<close>; \<open>ticks\<close> counts the readings of the clock.\<close>

record 'v DBImpl =
  use_virtual_compaction :: bool
  virtual_sst_registry :: "VirtualSSTRegistry option"
  virtual_l0_pending :: "VirtualL0WindowFile list"
  virtual_l0_pending_bytes :: u64
  virtual_l0_visible_files :: u64
  virtual_l0_visible_bytes :: u64
  virtual_l0_target_visible_bytes :: u64
  virtual_l0_max_register_batch_files :: u64
  virtual_l0_backpressure :: bool
  virtual_l0_window_stats :: VirtualL0WindowStats
  versions :: 'v
  ticks :: nat

text \<open>What the code calls: the version set, the mutable options and the clock.\<close>

record 'v env =
  LogAndApply :: "VersionEdit list \<Rightarrow> 'v \<Rightarrow> status \<times> 'v"
  NumLevelFiles :: "'v \<Rightarrow> int \<Rightarrow> int"
  estimated_compaction_needed_bytes :: "'v \<Rightarrow> u64"
  level0_stop_writes_trigger :: "'v \<Rightarrow> int"
  hard_pending_compaction_bytes_limit :: "'v \<Rightarrow> u64"
  level0_slowdown_writes_trigger :: "'v \<Rightarrow> int"
  soft_pending_compaction_bytes_limit :: "'v \<Rightarrow> u64"
  clock :: "nat \<Rightarrow> u64"

definition NowMicros :: "('v, 'e) env_scheme \<Rightarrow> ('v, 'd) DBImpl_scheme \<Rightarrow> u64 \<times> ('v, 'd) DBImpl_scheme" where
  "NowMicros E s = (clock E (ticks s), s\<lparr>ticks := Suc (ticks s)\<rparr>)"

section \<open>Configuration and accounting\<close>

definition ConfigureVirtualL0Window :: "u64 \<Rightarrow> u64 \<Rightarrow> bool \<Rightarrow> ('v, 'd) DBImpl_scheme \<Rightarrow> ('v, 'd) DBImpl_scheme" where
  "ConfigureVirtualL0Window target max_batch backpressure s =
     (let m = max 1 max_batch
      in s\<lparr>virtual_l0_target_visible_bytes := target,
           virtual_l0_backpressure := backpressure,
           virtual_l0_max_register_batch_files := m,
           virtual_l0_window_stats := (virtual_l0_window_stats s)
             \<lparr>target_visible_bytes := target, max_register_batch_files := m\<rparr>\<rparr>)"

definition GetVirtualL0WindowStats :: "('v, 'd) DBImpl_scheme \<Rightarrow> VirtualL0WindowStats" where
  "GetVirtualL0WindowStats s = (virtual_l0_window_stats s)
     \<lparr>pending_files := of_nat (length (virtual_l0_pending s)),
      pending_bytes := virtual_l0_pending_bytes s,
      visible_files := virtual_l0_visible_files s,
      visible_bytes := virtual_l0_visible_bytes s,
      target_visible_bytes := virtual_l0_target_visible_bytes s,
      max_register_batch_files := virtual_l0_max_register_batch_files s\<rparr>"

definition AccountVirtualL0CompactionLocked ::
    "u64 \<Rightarrow> u64 \<Rightarrow> u64 \<Rightarrow> u64 \<Rightarrow> ('v, 'd) DBImpl_scheme \<Rightarrow> ('v, 'd) DBImpl_scheme" where
  "AccountVirtualL0CompactionLocked input_files input_bytes output_files output_bytes s =
     (let vf = (if input_files > virtual_l0_visible_files s then 0
                else virtual_l0_visible_files s - input_files) + output_files;
          vb = (if input_bytes > virtual_l0_visible_bytes s then 0
                else virtual_l0_visible_bytes s - input_bytes) + output_bytes;
          st = virtual_l0_window_stats s
      in s\<lparr>virtual_l0_visible_files := vf, virtual_l0_visible_bytes := vb,
           virtual_l0_window_stats := st
             \<lparr>consumed_files := consumed_files st + input_files,
              consumed_bytes := consumed_bytes st + input_bytes,
              visible_files := vf, visible_bytes := vb\<rparr>\<rparr>)"

section \<open>Refilling the window\<close>

datatype Pressure = kFree | kSlowdown | kStop

definition pressure :: "('v, 'e) env_scheme \<Rightarrow> ('v, 'd) DBImpl_scheme \<Rightarrow> Pressure" where
  "pressure E s =
     (if \<not> virtual_l0_backpressure s then kFree
      else let v = versions s;
               l0 = NumLevelFiles E v 0;
               pending = estimated_compaction_needed_bytes E v
           in if (level0_stop_writes_trigger E v > 0 \<and> l0 \<ge> level0_stop_writes_trigger E v) \<or>
                 (hard_pending_compaction_bytes_limit E v > 0 \<and>
                  pending \<ge> hard_pending_compaction_bytes_limit E v)
              then kStop
              else if (level0_slowdown_writes_trigger E v > 0 \<and> l0 \<ge> level0_slowdown_writes_trigger E v) \<or>
                      (soft_pending_compaction_bytes_limit E v > 0 \<and>
                       pending \<ge> soft_pending_compaction_bytes_limit E v)
              then kSlowdown
              else kFree)"

text \<open>The inner loop: it moves files from the head of the queue to the batch.\<close>

fun take_batch ::
    "nat \<Rightarrow> u64 \<Rightarrow> VirtualL0WindowFile list \<Rightarrow> u64 \<Rightarrow> VirtualL0WindowFile list \<Rightarrow> u64
     \<Rightarrow> VirtualL0WindowFile list \<times> u64 \<times> VirtualL0WindowFile list \<times> u64" where
  "take_batch batch_cap remaining [] pbytes batch batch_bytes = (batch, batch_bytes, [], pbytes)"
| "take_batch batch_cap remaining (f # pending) pbytes batch batch_bytes =
     (if length batch < batch_cap
      then if batch \<noteq> [] \<and> batch_bytes + file_size f > remaining
           then (batch, batch_bytes, f # pending, pbytes)
           else let batch_bytes' = batch_bytes + file_size f;
                    pbytes' = pbytes - file_size f;
                    batch' = batch @ [f]
                in if batch_bytes' \<ge> remaining then (batch', batch_bytes', pending, pbytes')
                   else take_batch batch_cap remaining pending pbytes' batch' batch_bytes'
      else (batch, batch_bytes, f # pending, pbytes))"

definition l0_file_meta :: "VirtualSSTRegistry \<Rightarrow> VirtualL0WindowFile \<Rightarrow> FileMetaData" where
  "l0_file_meta r file =
     \<lparr>fd = make_fd (file_number file) 0 (file_size file) 0 0,
      smallest = InternalKey (EncodeUserKey r (key_min (vsst file))) kMaxSequenceNumber kTypeValue,
      largest = InternalKey (EncodeUserKey r (key_max (vsst file))) 0 kTypeValue,
      marked_for_compaction = False, temperature = 0, oldest_blob_file_number = 0,
      oldest_ancester_time = 0, file_creation_time = 0, epoch_number = l0_epoch_number file,
      file_checksum = '''', file_checksum_func_name = '''', unique_id = (0, 0),
      compensated_range_deletion_size = 0, tail_size = 0, user_defined_timestamps_persisted = True\<rparr>"

definition l0_edit :: "VirtualSSTRegistry \<Rightarrow> VirtualL0WindowFile list \<Rightarrow> VersionEdit" where
  "l0_edit r batch = fold (\<lambda>file. AddFile 0 (l0_file_meta r file)) batch new_edit"

definition register_batch :: "VirtualL0WindowFile list \<Rightarrow> VirtualSSTRegistry \<Rightarrow> VirtualSSTRegistry" where
  "register_batch batch r = fold (\<lambda>file. Register (file_number file) (vsst file)) batch r"

definition unregister_batch :: "VirtualL0WindowFile list \<Rightarrow> VirtualSSTRegistry \<Rightarrow> VirtualSSTRegistry" where
  "unregister_batch batch r = fold (\<lambda>file. Remove (file_number file)) batch r"

text \<open>The part of an iteration before \<open>LogAndApply\<close>: choose a batch and register it.\<close>

definition refill_begin ::
    "u64 \<Rightarrow> bool \<Rightarrow> ('v, 'd) DBImpl_scheme \<Rightarrow> VirtualL0WindowFile list \<times> u64 \<times> ('v, 'd) DBImpl_scheme" where
  "refill_begin target_bytes trickle s =
     (let remaining = target_bytes - virtual_l0_visible_bytes s;
          batch_cap = (if trickle then 1 else unat (virtual_l0_max_register_batch_files s));
          (batch, batch_bytes, pending, pbytes) =
            take_batch batch_cap remaining (virtual_l0_pending s) (virtual_l0_pending_bytes s) [] 0
      in (batch, batch_bytes,
          s\<lparr>virtual_l0_pending := pending, virtual_l0_pending_bytes := pbytes,
            virtual_sst_registry := map_option (register_batch batch) (virtual_sst_registry s)\<rparr>))"

text \<open>The part after a successful \<open>LogAndApply\<close>, and the rollback after a failed one.\<close>

definition refill_commit ::
    "VirtualL0WindowFile list \<Rightarrow> u64 \<Rightarrow> ('v, 'd) DBImpl_scheme \<Rightarrow> ('v, 'd) DBImpl_scheme" where
  "refill_commit batch batch_bytes s =
     (let n = of_nat (length batch);
          vf = virtual_l0_visible_files s + n;
          vb = virtual_l0_visible_bytes s + batch_bytes;
          st = virtual_l0_window_stats s
      in s\<lparr>virtual_l0_visible_files := vf, virtual_l0_visible_bytes := vb,
           virtual_l0_window_stats := st
             \<lparr>registered_files := registered_files st + n,
              registered_bytes := registered_bytes st + batch_bytes,
              register_batches := register_batches st + 1,
              max_register_batch := max (max_register_batch st) n,
              max_register_batch_bytes := max (max_register_batch_bytes st) batch_bytes,
              pending_files := of_nat (length (virtual_l0_pending s)),
              pending_bytes := virtual_l0_pending_bytes s,
              visible_files := vf, visible_bytes := vb\<rparr>\<rparr>)"

definition refill_rollback :: "VirtualL0WindowFile list \<Rightarrow> ('v, 'd) DBImpl_scheme \<Rightarrow> ('v, 'd) DBImpl_scheme" where
  "refill_rollback batch s =
     s\<lparr>virtual_sst_registry := map_option (unregister_batch batch) (virtual_sst_registry s)\<rparr>"

definition note_pressure :: "Pressure \<Rightarrow> ('v, 'd) DBImpl_scheme \<Rightarrow> ('v, 'd) DBImpl_scheme" where
  "note_pressure p s =
     (let st = virtual_l0_window_stats s
      in case p of
           kStop \<Rightarrow> s\<lparr>virtual_l0_window_stats := st\<lparr>backpressure_stops := backpressure_stops st + 1\<rparr>\<rparr>
         | kSlowdown \<Rightarrow>
             s\<lparr>virtual_l0_window_stats := st\<lparr>backpressure_trickles := backpressure_trickles st + 1\<rparr>\<rparr>
         | kFree \<Rightarrow> s)"

definition add_times ::
    "u64 \<Rightarrow> u64 \<Rightarrow> u64 \<Rightarrow> u64 \<Rightarrow> ('v, 'd) DBImpl_scheme \<Rightarrow> ('v, 'd) DBImpl_scheme" where
  "add_times log_us install_us clean_us total_us s =
     (let st = virtual_l0_window_stats s
      in s\<lparr>virtual_l0_window_stats := st
             \<lparr>log_apply_us := log_apply_us st + log_us,
              install_schedule_us := install_schedule_us st + install_us,
              cleanup_us := cleanup_us st + clean_us,
              refill_us := refill_us st + total_us\<rparr>\<rparr>)"

definition add_reg_times ::
    "u64 \<Rightarrow> u64 \<Rightarrow> u64 \<Rightarrow> VirtualL0RegistrationStats option \<Rightarrow> VirtualL0RegistrationStats option" where
  "add_reg_times log_us install_us clean_us stats =
     map_option (\<lambda>st. st\<lparr>reg_log_apply_us := reg_log_apply_us st + log_us,
        reg_install_schedule_us := reg_install_schedule_us st + install_us,
        reg_cleanup_us := reg_cleanup_us st + clean_us\<rparr>) stats"

lemma take_batch_length:
  assumes "take_batch cap rem pend pb batch bb = (batch', bb', pend', pb')"
  shows "length batch' + length pend' = length batch + length pend"
  using assms
  by (induction cap rem pend pb batch bb rule: take_batch.induct) (auto simp: Let_def split: if_splits)

lemma refill_begin_pending:
  assumes "refill_begin target trickle s = (batch, bytes, s')" "batch \<noteq> []"
  shows "length (virtual_l0_pending s') < length (virtual_l0_pending s)"
proof -
  obtain pend pb where t: "take_batch (if trickle then 1 else unat (virtual_l0_max_register_batch_files s))
      (target - virtual_l0_visible_bytes s) (virtual_l0_pending s) (virtual_l0_pending_bytes s) [] 0 =
      (batch, bytes, pend, pb)" "virtual_l0_pending s' = pend"
    using assms(1) by (auto simp: refill_begin_def Let_def split: prod.splits)
  show ?thesis using take_batch_length [OF t(1)] t(2) assms(2) by (cases batch) auto
qed

lemma pending_simps [simp]:
  "virtual_l0_pending (snd (NowMicros E s)) = virtual_l0_pending s"
  "virtual_l0_pending (note_pressure p s) = virtual_l0_pending s"
  "virtual_l0_pending (refill_commit batch bytes s) = virtual_l0_pending s"
  "virtual_l0_pending (refill_rollback batch s) = virtual_l0_pending s"
  "virtual_l0_pending (add_times a b c d s) = virtual_l0_pending s"
  by (auto simp: NowMicros_def note_pressure_def refill_commit_def refill_rollback_def add_times_def Let_def
      split: Pressure.splits)

text \<open>
  One iteration of the outer loop. The result says how the loop goes on: a status
  to return, or the next value of \<open>trickled\<close>. Installing the super version
  schedules background work and leaves this state alone.
\<close>

definition refill_iteration ::
    "('v, 'e) env_scheme \<Rightarrow> u64 \<Rightarrow> VirtualL0RegistrationStats option \<Rightarrow> ('v, 'd) DBImpl_scheme
     \<Rightarrow> (status + bool) \<times> VirtualL0RegistrationStats option \<times> ('v, 'd) DBImpl_scheme" where
  "refill_iteration E target_bytes stats s =
     (let p = pressure E s; s1 = note_pressure p s
      in if p = kStop then (Inl OK, stats, s1)
         else let trickle = (p = kSlowdown);
                  (refill_t0, s2) = NowMicros E s1;
                  (batch, batch_bytes, s3) = refill_begin target_bytes trickle s2
              in if batch = [] then (Inl OK, stats, s3)
                 else let edit = (case virtual_sst_registry s2 of Some r \<Rightarrow> l0_edit r batch | None \<Rightarrow> new_edit);
                          (log_t0, s4) = NowMicros E s3;
                          (st, v) = LogAndApply E [edit] (versions s4);
                          (log_t1, s5) = NowMicros E (s4\<lparr>versions := v\<rparr>);
                          log_us = log_t1 - log_t0
                      in if \<not> ok st then (Inl st, stats, refill_rollback batch s5)
                         else let (install_t0, s6) = NowMicros E s5;
                                  (install_t1, s7) = NowMicros E s6;
                                  (cleanup_t1, s8) = NowMicros E s7;
                                  install_us = install_t1 - install_t0;
                                  clean_us = cleanup_t1 - install_t1;
                                  s9 = refill_commit batch batch_bytes s8;
                                  (refill_t1, s10) = NowMicros E s9
                              in (Inr trickle, add_reg_times log_us install_us clean_us stats,
                                  add_times log_us install_us clean_us (refill_t1 - refill_t0) s10))"

lemma refill_iteration_pending:
  assumes "refill_iteration E target stats s = (Inr t, stats', s')"
  shows "length (virtual_l0_pending s') < length (virtual_l0_pending s)"
proof -
  obtain batch bytes s3 where b: "refill_begin target (pressure E s = kSlowdown) (snd (NowMicros E (note_pressure (pressure E s) s))) =
      (batch, bytes, s3)" by (cases "refill_begin target (pressure E s = kSlowdown) (snd (NowMicros E (note_pressure (pressure E s) s)))") auto
  have "batch \<noteq> []" "virtual_l0_pending s' = virtual_l0_pending s3"
    using assms b by (auto simp: refill_iteration_def NowMicros_def Let_def split: if_splits prod.splits)
  then show ?thesis using refill_begin_pending [OF b] by simp
qed

function refill_loop ::
    "('v, 'e) env_scheme \<Rightarrow> u64 \<Rightarrow> bool \<Rightarrow> VirtualL0RegistrationStats option \<Rightarrow> ('v, 'd) DBImpl_scheme
     \<Rightarrow> status \<times> VirtualL0RegistrationStats option \<times> ('v, 'd) DBImpl_scheme" where
  "refill_loop E target_bytes trickled stats s =
     (if virtual_l0_pending s \<noteq> [] \<and> virtual_l0_visible_bytes s < target_bytes \<and> \<not> trickled
      then case refill_iteration E target_bytes stats s of
             (Inl st, stats', s') \<Rightarrow> (st, stats', s')
           | (Inr t, stats', s') \<Rightarrow> refill_loop E target_bytes t stats' s'
      else (OK, stats, s))"
  by pat_completeness auto
termination
  by (relation "measure (\<lambda>(_, _, _, _, s). length (virtual_l0_pending s))")
    (auto dest: refill_iteration_pending [OF sym])

declare refill_loop.simps [simp del]

definition RefillVirtualL0WindowLocked ::
    "('v, 'e) env_scheme \<Rightarrow> VirtualL0RegistrationStats option \<Rightarrow> ('v, 'd) DBImpl_scheme
     \<Rightarrow> status \<times> VirtualL0RegistrationStats option \<times> ('v, 'd) DBImpl_scheme" where
  "RefillVirtualL0WindowLocked E stats s =
     (if \<not> use_virtual_compaction s \<or> virtual_sst_registry s = None then (OK, stats, s)
      else case virtual_l0_pending s of
             [] \<Rightarrow> (OK, stats, s)
           | f # _ \<Rightarrow>
               let target_bytes = (if virtual_l0_target_visible_bytes s > 0
                                   then virtual_l0_target_visible_bytes s else file_size f)
               in refill_loop E target_bytes False stats s)"

definition wait_times :: "u64 \<Rightarrow> VirtualL0RegistrationStats option \<Rightarrow> VirtualL0RegistrationStats option" where
  "wait_times us stats = map_option (\<lambda>st. st\<lparr>reg_mutex_wait_us := reg_mutex_wait_us st + us\<rparr>) stats"

definition total_times ::
    "('v, 'e) env_scheme \<Rightarrow> u64 \<Rightarrow> status \<times> VirtualL0RegistrationStats option \<times> ('v, 'd) DBImpl_scheme
     \<Rightarrow> status \<times> VirtualL0RegistrationStats option \<times> ('v, 'd) DBImpl_scheme" where
  "total_times E total_t0 res =
     (case res of (st, None, s) \<Rightarrow> (st, None, s)
      | (st, Some r, s) \<Rightarrow>
          let (t, s') = NowMicros E s in (st, Some (r\<lparr>reg_total_us := reg_total_us r + (t - total_t0)\<rparr>), s'))"

definition RefillVirtualL0Window ::
    "('v, 'e) env_scheme \<Rightarrow> VirtualL0RegistrationStats option \<Rightarrow> ('v, 'd) DBImpl_scheme
     \<Rightarrow> status \<times> VirtualL0RegistrationStats option \<times> ('v, 'd) DBImpl_scheme" where
  "RefillVirtualL0Window E stats s =
     (let (total_t0, s1) = NowMicros E s;
          (mutex_t1, s2) = NowMicros E s1
      in total_times E total_t0 (RefillVirtualL0WindowLocked E (wait_times (mutex_t1 - total_t0) stats) s2))"

text \<open>The loop of \<open>EnqueueVirtualL0Files\<close> with its counters.\<close>

definition enqueue_files :: "VirtualL0WindowFile list \<Rightarrow> ('v, 'd) DBImpl_scheme \<Rightarrow> ('v, 'd) DBImpl_scheme" where
  "enqueue_files fs s =
     (let bytes = fold (\<lambda>f b. b + file_size f) fs 0;
          pbytes = fold (\<lambda>f b. b + file_size f) fs (virtual_l0_pending_bytes s);
          pending = virtual_l0_pending s @ fs;
          st = virtual_l0_window_stats s
      in s\<lparr>virtual_l0_pending := pending, virtual_l0_pending_bytes := pbytes,
           virtual_l0_window_stats := st
             \<lparr>queued_files := queued_files st + of_nat (length fs),
              queued_bytes := queued_bytes st + bytes,
              pending_files := of_nat (length pending), pending_bytes := pbytes,
              max_pending_files := max (max_pending_files st) (of_nat (length pending))\<rparr>\<rparr>)"

definition EnqueueVirtualL0Files ::
    "('v, 'e) env_scheme \<Rightarrow> VirtualL0WindowFile list \<Rightarrow> VirtualL0RegistrationStats option
     \<Rightarrow> ('v, 'd) DBImpl_scheme \<Rightarrow> status \<times> VirtualL0RegistrationStats option \<times> ('v, 'd) DBImpl_scheme" where
  "EnqueueVirtualL0Files E fs stats s =
     (if fs = [] then (OK, stats, s)
      else let (total_t0, s1) = NowMicros E s;
               (mutex_t1, s2) = NowMicros E s1
           in total_times E total_t0
                (RefillVirtualL0WindowLocked E (wait_times (mutex_t1 - total_t0) stats) (enqueue_files fs s2)))"

definition RegisterVirtualL0File ::
    "('v, 'e) env_scheme \<Rightarrow> VersionEdit \<Rightarrow> VirtualL0RegistrationStats option \<Rightarrow> ('v, 'd) DBImpl_scheme
     \<Rightarrow> status \<times> VirtualL0RegistrationStats option \<times> ('v, 'd) DBImpl_scheme" where
  "RegisterVirtualL0File E edit stats s =
     (let (total_t0, s1) = NowMicros E s;
          (mutex_t1, s2) = NowMicros E s1;
          (log_t0, s3) = NowMicros E s2;
          (st, v) = LogAndApply E [edit] (versions s3);
          (log_t1, s4) = NowMicros E (s3\<lparr>versions := v\<rparr>);
          (install_us, clean_us, s5) =
            (if ok st
             then let (install_t0, sa) = NowMicros E s4;
                      (install_t1, sb) = NowMicros E sa;
                      (cleanup_t1, sc) = NowMicros E sb
                  in (install_t1 - install_t0, cleanup_t1 - install_t1, sc)
             else (0, 0, s4))
      in total_times E total_t0
           (st, wait_times (mutex_t1 - total_t0) (add_reg_times (log_t1 - log_t0) install_us clean_us stats), s5))"

section \<open>One batch\<close>

text \<open>The bytes of a list of files, as the 64-bit counters add them up.\<close>

definition bytes_of :: "VirtualL0WindowFile list \<Rightarrow> u64" where
  "bytes_of fs = (\<Sum>f \<leftarrow> fs. file_size f)"

definition size_of :: "VirtualL0WindowFile list \<Rightarrow> nat" where
  "size_of fs = (\<Sum>f \<leftarrow> fs. unat (file_size f))"

lemma bytes_of_simps [simp]:
  "bytes_of [] = 0" "bytes_of (f # fs) = file_size f + bytes_of fs" "bytes_of (fs @ gs) = bytes_of fs + bytes_of gs"
  by (simp_all add: bytes_of_def)

lemma size_of_simps [simp]:
  "size_of [] = 0" "size_of (f # fs) = unat (file_size f) + size_of fs" "size_of (fs @ gs) = size_of fs + size_of gs"
  by (simp_all add: size_of_def)

lemma unat_bytes_of: "size_of fs < 2 ^ 64 \<Longrightarrow> unat (bytes_of fs) = size_of fs"
proof (induction fs)
  case (Cons f fs)
  then have "unat (bytes_of fs) = size_of fs" by simp
  with Cons.prems show ?case using unat_add_u64 [of "file_size f" "bytes_of fs"] by simp
qed simp

lemma fold_bytes: "fold (\<lambda>f b. b + file_size f) fs b0 = b0 + bytes_of fs"
  by (induction fs arbitrary: b0) (simp_all add: add.assoc)

lemma take_batch_split:
  assumes "take_batch cap rem pend pb batch bb = (batch', bb', pend', pb')"
  shows "\<exists>taken. batch' = batch @ taken \<and> pend = taken @ pend' \<and> bb' = bb + bytes_of taken \<and> pb' = pb - bytes_of taken"
  using assms
proof (induction cap rem pend pb batch bb rule: take_batch.induct)
  case (2 cap rem f pend pb batch bb)
  show ?case
  proof (cases "length batch < cap \<and> \<not> (batch \<noteq> [] \<and> bb + file_size f > rem)")
    case True
    show ?thesis
    proof (cases "bb + file_size f \<ge> rem")
      case True
      with \<open>length batch < cap \<and> _\<close> show ?thesis using "2.prems"
        by (intro exI [of _ "[f]"]) (auto simp: Let_def)
    next
      case False
      with True "2.prems" have "take_batch cap rem pend (pb - file_size f) (batch @ [f]) (bb + file_size f) = (batch', bb', pend', pb')"
        by (auto simp: Let_def split: if_splits)
      from "2.IH" [OF _ _ refl refl refl False this] True obtain taken where
        "batch' = (batch @ [f]) @ taken" "pend = taken @ pend'" "bb' = bb + file_size f + bytes_of taken"
        "pb' = pb - file_size f - bytes_of taken" by auto
      then show ?thesis by (intro exI [of _ "f # taken"]) (simp add: algebra_simps)
    qed
  next
    case False
    then show ?thesis using "2.prems" by (intro exI [of _ "[]"]) (auto split: if_splits)
  qed
qed simp

text \<open>A batch of more than one file fits into the remaining bytes, whatever was taken before.\<close>

lemma take_batch_bound:
  assumes "take_batch cap rem pend pb batch bb = (batch', bb', pend', pb')"
    and "unat bb + size_of pend < 2 ^ 64" "length batch \<le> 1 \<or> bb \<le> rem"
  shows "length batch' \<le> 1 \<or> bb' \<le> rem"
  using assms
proof (induction cap rem pend pb batch bb rule: take_batch.induct)
  case (2 cap rem f pend pb batch bb)
  have sum: "unat (bb + file_size f) = unat bb + unat (file_size f)"
    by (rule unat_add_u64) (use "2.prems"(2) in simp)
  show ?case
  proof (cases "length batch < cap \<and> \<not> (batch \<noteq> [] \<and> bb + file_size f > rem)")
    case True
    then have ok: "length (batch @ [f]) \<le> 1 \<or> bb + file_size f \<le> rem" by (cases batch) auto
    show ?thesis
    proof (cases "bb + file_size f \<ge> rem")
      case True
      with \<open>length batch < cap \<and> _\<close> ok show ?thesis using "2.prems"(1) by (auto simp: Let_def split: if_splits)
    next
      case False
      with True "2.prems"(1) have "take_batch cap rem pend (pb - file_size f) (batch @ [f]) (bb + file_size f) = (batch', bb', pend', pb')"
        by (auto simp: Let_def split: if_splits)
      from "2.IH" [OF _ _ refl refl refl False this] True ok sum "2.prems"(2) show ?thesis by auto
    qed
  next
    case False
    then show ?thesis using "2.prems" by (auto split: if_splits)
  qed
qed simp

lemma take_batch_cap:
  "take_batch cap rem pend pb batch bb = (batch', bb', pend', pb') \<Longrightarrow> length batch' \<le> max cap (length batch)"
  by (induction cap rem pend pb batch bb rule: take_batch.induct) (fastforce simp: Let_def split: if_splits)+

lemma take_batch_nonempty:
  assumes "take_batch cap rem pend pb [] 0 = (batch', bb', pend', pb')" "0 < cap" "pend \<noteq> []"
  shows "batch' \<noteq> []"
proof (cases pend)
  case (Cons f fs)
  show ?thesis
  proof (cases "file_size f \<ge> rem")
    case True
    then show ?thesis using assms Cons by (auto simp: Let_def)
  next
    case False
    then have "take_batch cap rem fs (pb - file_size f) [f] (file_size f) = (batch', bb', pend', pb')"
      using assms Cons by (auto simp: Let_def split: if_splits)
    from take_batch_split [OF this] show ?thesis by auto
  qed
qed (use assms in simp)

section \<open>The loop\<close>

text \<open>The fields the loop does not touch.\<close>

definition same_config :: "('v, 'd) DBImpl_scheme \<Rightarrow> ('v, 'd) DBImpl_scheme \<Rightarrow> bool" where
  "same_config s s' \<longleftrightarrow> use_virtual_compaction s' = use_virtual_compaction s \<and>
     virtual_l0_target_visible_bytes s' = virtual_l0_target_visible_bytes s \<and>
     virtual_l0_max_register_batch_files s' = virtual_l0_max_register_batch_files s \<and>
     virtual_l0_backpressure s' = virtual_l0_backpressure s"

lemma same_config_refl: "same_config s s"
  by (simp add: same_config_def)

lemma same_config_trans: "same_config s t \<Longrightarrow> same_config t u \<Longrightarrow> same_config s u"
  by (simp add: same_config_def)

definition batch_of :: "('v, 'e) env_scheme \<Rightarrow> u64 \<Rightarrow> ('v, 'd) DBImpl_scheme
    \<Rightarrow> VirtualL0WindowFile list \<times> u64 \<times> VirtualL0WindowFile list \<times> u64" where
  "batch_of E target s =
     take_batch (if pressure E s = kSlowdown then 1 else unat (virtual_l0_max_register_batch_files s))
       (target - virtual_l0_visible_bytes s) (virtual_l0_pending s) (virtual_l0_pending_bytes s) [] 0"

lemma note_pressure_simps [simp]:
  "virtual_l0_visible_bytes (note_pressure p s) = virtual_l0_visible_bytes s"
  "virtual_l0_visible_files (note_pressure p s) = virtual_l0_visible_files s"
  "virtual_l0_pending_bytes (note_pressure p s) = virtual_l0_pending_bytes s"
  "virtual_l0_max_register_batch_files (note_pressure p s) = virtual_l0_max_register_batch_files s"
  "virtual_sst_registry (note_pressure p s) = virtual_sst_registry s"
  by (auto simp: note_pressure_def Let_def split: Pressure.splits)

lemma note_pressure_config: "same_config s (note_pressure p s)"
  by (auto simp: note_pressure_def same_config_def Let_def split: Pressure.splits)

text \<open>An iteration stops, drops a batch that could not be logged, or makes a batch visible.\<close>

lemma refill_iteration_cases:
  assumes "refill_iteration E target stats s = (res, stats', s')"
    and "virtual_l0_max_register_batch_files s \<noteq> 0" "virtual_l0_pending s \<noteq> []"
    and "batch_of E target s = (batch, bytes, pend, pb)"
  obtains
    (stop) "res = Inl OK" "pressure E s = kStop" "same_config s s'"
      "virtual_l0_pending s' = virtual_l0_pending s" "virtual_l0_pending_bytes s' = virtual_l0_pending_bytes s"
      "virtual_l0_visible_bytes s' = virtual_l0_visible_bytes s" "virtual_l0_visible_files s' = virtual_l0_visible_files s"
      "virtual_sst_registry s' = virtual_sst_registry s"
  | (failed) st where "res = Inl st" "\<not> ok st" "pressure E s \<noteq> kStop" "same_config s s'"
      "virtual_l0_pending s' = pend" "virtual_l0_pending_bytes s' = pb"
      "virtual_l0_visible_bytes s' = virtual_l0_visible_bytes s" "virtual_l0_visible_files s' = virtual_l0_visible_files s"
      "virtual_sst_registry s' = map_option (unregister_batch batch \<circ> register_batch batch) (virtual_sst_registry s)"
      "\<And>r. virtual_sst_registry s = Some r \<Longrightarrow> \<exists>v. LogAndApply E [l0_edit r batch] v = (st, versions s')"
  | (visible) "res = Inr (pressure E s = kSlowdown)" "pressure E s \<noteq> kStop" "same_config s s'"
      "virtual_l0_pending s' = pend" "virtual_l0_pending_bytes s' = pb"
      "virtual_l0_visible_bytes s' = virtual_l0_visible_bytes s + bytes"
      "virtual_l0_visible_files s' = virtual_l0_visible_files s + of_nat (length batch)"
      "virtual_sst_registry s' = map_option (register_batch batch) (virtual_sst_registry s)"
proof -
  let ?p = "pressure E s" and ?s1 = "note_pressure (pressure E s) s"
  have cap: "0 < (if ?p = kSlowdown then 1 else unat (virtual_l0_max_register_batch_files s))"
    using assms(2) by (simp add: unat_gt_0)
  have ne: "batch \<noteq> []"
    using take_batch_nonempty [OF assms(4) [unfolded batch_of_def] cap assms(3)] .
  note np = note_pressure_simps [of "?p" s] note_pressure_config [of s ?p]
  show ?thesis
  proof (cases "?p = kStop")
    case True
    then have "res = Inl OK" "s' = ?s1" using assms(1) by (auto simp: refill_iteration_def Let_def)
    with True np show ?thesis by (intro stop) auto
  next
    case False
    let ?s2 = "snd (NowMicros E ?s1)"
    have b: "refill_begin target (?p = kSlowdown) ?s2 = (batch, bytes, ?s2\<lparr>virtual_l0_pending := pend,
        virtual_l0_pending_bytes := pb, virtual_sst_registry := map_option (register_batch batch) (virtual_sst_registry s)\<rparr>)"
      using assms(4) by (cases "?p = kSlowdown") (simp_all add: refill_begin_def batch_of_def NowMicros_def np Let_def)
    define s3 where "s3 = ?s2\<lparr>virtual_l0_pending := pend, virtual_l0_pending_bytes := pb,
      virtual_sst_registry := map_option (register_batch batch) (virtual_sst_registry s)\<rparr>"
    define edit where "edit = (case virtual_sst_registry ?s2 of Some r \<Rightarrow> l0_edit r batch | None \<Rightarrow> new_edit)"
    obtain st v where l: "LogAndApply E [edit] (versions s3) = (st, v)" by fastforce
    show ?thesis
    proof (cases "ok st")
      case True
      have "res = Inr (?p = kSlowdown)" and s': "virtual_l0_pending s' = pend" "virtual_l0_pending_bytes s' = pb"
        "virtual_l0_visible_bytes s' = virtual_l0_visible_bytes s3 + bytes"
        "virtual_l0_visible_files s' = virtual_l0_visible_files s3 + of_nat (length batch)"
        "virtual_sst_registry s' = virtual_sst_registry s3" "same_config s3 s'"
        using assms(1) False ne True b l
        by (auto simp: refill_iteration_def NowMicros_def refill_commit_def add_times_def same_config_def
            s3_def edit_def Let_def)
      then show ?thesis using np False by (intro visible) (auto simp: s3_def NowMicros_def same_config_def)
    next
      case F: False
      have "res = Inl st" and s': "virtual_l0_pending s' = pend" "virtual_l0_pending_bytes s' = pb"
        "virtual_l0_visible_bytes s' = virtual_l0_visible_bytes s3"
        "virtual_l0_visible_files s' = virtual_l0_visible_files s3"
        "virtual_sst_registry s' = map_option (unregister_batch batch) (virtual_sst_registry s3)" "same_config s3 s'" "versions s' = v"
        using assms(1) False ne F b l
        by (auto simp: refill_iteration_def NowMicros_def refill_rollback_def same_config_def s3_def edit_def Let_def)
      moreover have "edit = l0_edit r batch" if "virtual_sst_registry s = Some r" for r
        using that np by (simp add: edit_def NowMicros_def)
      ultimately show ?thesis using np False F l
        by (intro failed) (auto simp: s3_def NowMicros_def same_config_def option.map_comp)
    qed
  qed
qed

text \<open>
  The result of the loop: a prefix of the queue became visible, in order, and after
  a failure the batch that could not be logged is gone from the queue and from the
  registry: one batch, within the limits of a batch, whose edit the manifest refused.
\<close>

definition failed_batch ::
    "('v, 'e) env_scheme \<Rightarrow> u64 \<Rightarrow> status \<Rightarrow> ('v, 'd) DBImpl_scheme \<Rightarrow> ('v, 'd) DBImpl_scheme
     \<Rightarrow> VirtualL0WindowFile list \<Rightarrow> VirtualL0WindowFile list \<Rightarrow> bool" where
  "failed_batch E target st s s' admitted dropped \<longleftrightarrow>
     length dropped \<le> unat (virtual_l0_max_register_batch_files s) \<and>
     (length dropped \<le> 1 \<or> unat (virtual_l0_visible_bytes s') + size_of dropped \<le> unat target) \<and>
     (\<forall>r. virtual_sst_registry s = Some r \<longrightarrow>
        (\<exists>v. LogAndApply E [l0_edit (register_batch admitted r) dropped] v = (st, versions s')))"

definition refill_result ::
    "('v, 'e) env_scheme \<Rightarrow> u64 \<Rightarrow> status \<Rightarrow> ('v, 'd) DBImpl_scheme \<Rightarrow> ('v, 'd) DBImpl_scheme
     \<Rightarrow> VirtualL0WindowFile list \<Rightarrow> VirtualL0WindowFile list \<Rightarrow> bool" where
  "refill_result E target st s s' admitted dropped \<longleftrightarrow>
     virtual_l0_pending s = admitted @ dropped @ virtual_l0_pending s' \<and>
     virtual_l0_visible_bytes s' = virtual_l0_visible_bytes s + bytes_of admitted \<and>
     virtual_l0_visible_files s' = virtual_l0_visible_files s + of_nat (length admitted) \<and>
     virtual_l0_pending_bytes s' = virtual_l0_pending_bytes s - bytes_of (admitted @ dropped) \<and>
     virtual_sst_registry s' =
       map_option (unregister_batch dropped \<circ> register_batch (admitted @ dropped)) (virtual_sst_registry s) \<and>
     (ok st \<longleftrightarrow> dropped = []) \<and> (dropped = [] \<or> failed_batch E target st s s' admitted dropped) \<and>
     same_config s s' \<and>
     (admitted = [] \<or> virtual_l0_visible_bytes s' \<le> target \<or>
       (\<exists>f \<in> set admitted. unat (virtual_l0_visible_bytes s') < unat target + unat (file_size f)))"

lemma fold_batch_append:
  "register_batch (xs @ ys) r = register_batch ys (register_batch xs r)"
  "unregister_batch [] r = r" "register_batch [] r = r"
  by (simp_all add: register_batch_def unregister_batch_def)

lemma refill_result_refl: "refill_result E target OK s s [] []"
  by (simp add: refill_result_def same_config_refl fold_batch_append fun_eq_iff comp_def option.map_ident)

lemma batch_of_split:
  assumes "batch_of E target s = (batch, bytes, pend, pb)"
  shows "virtual_l0_pending s = batch @ pend" "bytes = bytes_of batch"
    "pb = virtual_l0_pending_bytes s - bytes_of batch"
  using take_batch_split [OF assms [unfolded batch_of_def]] by auto

lemma batch_of_small:
  assumes "batch_of E target s = (batch, bytes, pend, pb)" "virtual_l0_visible_bytes s < target"
    and "unat (virtual_l0_visible_bytes s) + size_of (virtual_l0_pending s) < 2 ^ 64"
  shows "length batch \<le> 1 \<or> unat (virtual_l0_visible_bytes s) + size_of batch \<le> unat target"
    and "unat (virtual_l0_visible_bytes s + bytes) = unat (virtual_l0_visible_bytes s) + size_of batch"
proof -
  note sp = batch_of_split [OF assms(1)]
  have sz: "unat (virtual_l0_visible_bytes s) + size_of batch < 2 ^ 64" using assms(3) sp(1) by simp
  then have b: "unat bytes = size_of batch" using unat_bytes_of [of batch] sp(2) by simp
  then show "unat (virtual_l0_visible_bytes s + bytes) = unat (virtual_l0_visible_bytes s) + size_of batch"
    using unat_add_u64 [of "virtual_l0_visible_bytes s" bytes] sz by simp
  have lt: "unat (virtual_l0_visible_bytes s) < unat target" using assms(2) by (simp add: u64_less_iff)
  have "length batch \<le> 1 \<or> bytes \<le> target - virtual_l0_visible_bytes s"
    by (rule take_batch_bound [OF assms(1) [unfolded batch_of_def]]) (use assms(3) in simp_all)
  then show "length batch \<le> 1 \<or> unat (virtual_l0_visible_bytes s) + size_of batch \<le> unat target"
    using unat_sub_u64 [of "virtual_l0_visible_bytes s" target] lt b by (auto simp: u64_le_iff)
qed

lemma batch_of_cap:
  assumes "batch_of E target s = (batch, bytes, pend, pb)" "virtual_l0_max_register_batch_files s \<noteq> 0"
  shows "length batch \<le> unat (virtual_l0_max_register_batch_files s)"
proof -
  have "0 < unat (virtual_l0_max_register_batch_files s)" using assms(2) by (simp add: unat_gt_0)
  then show ?thesis using take_batch_cap [OF assms(1) [unfolded batch_of_def]] by (auto split: if_splits)
qed

lemma batch_of_bound:
  assumes "batch_of E target s = (batch, bytes, pend, pb)" "virtual_l0_visible_bytes s < target"
    and "unat (virtual_l0_visible_bytes s) + size_of (virtual_l0_pending s) < 2 ^ 64"
  shows "virtual_l0_visible_bytes s + bytes \<le> target \<or>
    (\<exists>f \<in> set batch. unat (virtual_l0_visible_bytes s + bytes) < unat target + unat (file_size f))"
proof -
  note b = batch_of_small [OF assms]
  have lt: "unat (virtual_l0_visible_bytes s) < unat target" using assms(2) by (simp add: u64_less_iff)
  from b(1) show ?thesis
  proof
    assume "length batch \<le> 1"
    then consider "batch = []" | f where "batch = [f]" by (cases batch) auto
    then show ?thesis
    proof cases
      case 1
      then show ?thesis using b(2) lt by (simp add: u64_le_iff)
    next
      case (2 f)
      then show ?thesis using b(2) lt by simp
    qed
  next
    assume "unat (virtual_l0_visible_bytes s) + size_of batch \<le> unat target"
    then show ?thesis using b(2) by (simp add: u64_le_iff)
  qed
qed

text \<open>Batches admitted before a failed one.\<close>

lemma failed_batch_after:
  assumes "failed_batch E target st s1 s' admitted dropped" "same_config s s1"
    and "virtual_sst_registry s1 = map_option (register_batch batch) (virtual_sst_registry s)"
  shows "failed_batch E target st s s' (batch @ admitted) dropped"
  using assms by (simp add: failed_batch_def same_config_def fold_batch_append)

lemma refill_loop_spec:
  assumes "refill_loop E target trickled stats s = (st, stats', s')"
    and "virtual_l0_max_register_batch_files s \<noteq> 0"
    and "unat (virtual_l0_visible_bytes s) + size_of (virtual_l0_pending s) < 2 ^ 64"
  shows "(\<exists>admitted dropped. refill_result E target st s s' admitted dropped) \<and>
    (ok st \<longrightarrow> \<not> trickled \<longrightarrow> \<not> virtual_l0_backpressure s \<longrightarrow>
       virtual_l0_pending s' = [] \<or> target \<le> virtual_l0_visible_bytes s')"
  using assms
proof (induction E target trickled stats s rule: refill_loop.induct)
  case (1 E target trickled stats s)
  show ?case
  proof (cases "virtual_l0_pending s \<noteq> [] \<and> virtual_l0_visible_bytes s < target \<and> \<not> trickled")
    case False
    then have "st = OK" "s' = s" using "1.prems"(1) by (auto simp: refill_loop.simps)
    then show ?thesis using False refill_result_refl [of E target s] by (auto simp: not_less)
  next
    case True
    obtain res stats1 s1 where it: "refill_iteration E target stats s = (res, stats1, s1)"
      by (cases "refill_iteration E target stats s") auto
    obtain batch bytes pend pb where b: "batch_of E target s = (batch, bytes, pend, pb)"
      by (cases "batch_of E target s") auto
    note sp = batch_of_split [OF b]
    from True have ne: "virtual_l0_pending s \<noteq> []" and lt: "virtual_l0_visible_bytes s < target" by auto
    from it "1.prems"(2) ne b show ?thesis
    proof (cases rule: refill_iteration_cases)
      case stop
      then have "st = OK" "s' = s1" using "1.prems"(1) True it by (auto simp: refill_loop.simps)
      moreover have "virtual_l0_backpressure s" using stop(2) by (auto simp: pressure_def split: if_splits)
      ultimately show ?thesis using stop refill_result_refl [of E target s]
        by (auto simp: refill_result_def intro!: exI [of _ "[]"])
    next
      case (failed st')
      then have "st = st'" "s' = s1" using "1.prems"(1) True it by (auto simp: refill_loop.simps)
      moreover have "batch \<noteq> []"
        by (rule take_batch_nonempty [OF b [unfolded batch_of_def] _ ne])
          (use "1.prems"(2) in \<open>simp add: unat_gt_0\<close>)
      moreover have "failed_batch E target st s s' [] batch"
        using batch_of_cap [OF b "1.prems"(2)] batch_of_small(1) [OF b lt "1.prems"(3)] failed(7,10) \<open>st = st'\<close> \<open>s' = s1\<close>
        by (simp add: failed_batch_def fold_batch_append)
      ultimately have "refill_result E target st s s' [] batch" "\<not> ok st"
        using failed sp by (auto simp: refill_result_def)
      then show ?thesis by blast
    next
      case visible
      let ?t = "pressure E s = kSlowdown"
      have "refill_loop E target ?t stats1 s1 = (st, stats', s')"
        using "1.prems"(1) True it visible(1) by (subst (asm) refill_loop.simps) simp
      moreover have c: "virtual_l0_max_register_batch_files s1 \<noteq> 0" "virtual_l0_backpressure s1 = virtual_l0_backpressure s"
        using visible(3) "1.prems"(2) by (simp_all add: same_config_def)
      moreover have sz: "unat (virtual_l0_visible_bytes s1) + size_of (virtual_l0_pending s1) < 2 ^ 64"
      proof -
        have "unat (virtual_l0_visible_bytes s) + size_of batch < 2 ^ 64" using "1.prems"(3) sp(1) by simp
        then have "unat (virtual_l0_visible_bytes s + bytes) = unat (virtual_l0_visible_bytes s) + size_of batch"
          using unat_add_u64 [of "virtual_l0_visible_bytes s" bytes] unat_bytes_of [of batch] sp(2) by simp
        then show ?thesis using "1.prems"(3) sp(1) visible(4,6) by simp
      qed
      ultimately have IH: "\<exists>admitted dropped. refill_result E target st s1 s' admitted dropped"
        and pr: "ok st \<Longrightarrow> \<not> ?t \<Longrightarrow> \<not> virtual_l0_backpressure s \<Longrightarrow> virtual_l0_pending s' = [] \<or> target \<le> virtual_l0_visible_bytes s'"
        using "1.IH" [OF True it [symmetric] visible(1) refl] by auto
      from IH obtain admitted dropped where r: "refill_result E target st s1 s' admitted dropped" by blast
      have bd: "virtual_l0_visible_bytes s1 \<le> target \<or>
          (\<exists>f \<in> set batch. unat (virtual_l0_visible_bytes s1) < unat target + unat (file_size f))"
        using batch_of_bound [OF b lt "1.prems"(3)] visible(6) by simp
      have "dropped = [] \<or> failed_batch E target st s1 s' admitted dropped" using r by (simp add: refill_result_def)
      then have fb: "dropped = [] \<or> failed_batch E target st s s' (batch @ admitted) dropped"
        using failed_batch_after [OF _ visible(3,8)] by blast
      have "refill_result E target st s s' (batch @ admitted) dropped"
        using r visible sp bd same_config_trans [OF visible(3), of s'] fb
        by (cases "admitted = []")
          (auto simp: refill_result_def fold_batch_append option.map_comp comp_def algebra_simps)
      moreover have "\<not> ?t" if "\<not> virtual_l0_backpressure s" using that by (simp add: pressure_def)
      ultimately show ?thesis using pr by blast
    qed
  qed
qed

section \<open>What a refill does\<close>

lemma register_batch_files:
  "register_batch batch r = fold (\<lambda>(f, v). Register f v) (map (\<lambda>f. (file_number f, vsst f)) batch) r"
  by (simp add: register_batch_def fold_map comp_def)

lemma unregister_batch_files: "unregister_batch batch r = fold Remove (map file_number batch) r"
  by (simp add: unregister_batch_def fold_map comp_def)

lemma registry_inv_batch:
  "registry_inv r \<Longrightarrow> registry_inv (register_batch batch r)"
  "registry_inv r \<Longrightarrow> registry_inv (unregister_batch batch r)"
  by (simp_all add: register_batch_files unregister_batch_files vf.inv_fold_register vf.inv_fold_remove)

lemma Lookup_register_batch:
  assumes "registry_inv r" "distinct (map file_number batch)"
  shows "f \<in> set batch \<Longrightarrow> Lookup (register_batch batch r) (file_number f) = Some (vsst f)"
    and "g \<notin> file_number ` set batch \<Longrightarrow> Lookup (register_batch batch r) g = Lookup r g"
proof -
  let ?fvs = "map (\<lambda>f. (file_number f, vsst f)) batch"
  have d: "distinct (map fst ?fvs)" using assms(2) by (simp add: comp_def)
  show "Lookup (register_batch batch r) (file_number f) = Some (vsst f)" if "f \<in> set batch"
  proof -
    have "map_of ?fvs (file_number f) = Some (vsst f)" using d that by (intro map_of_is_SomeI) auto
    then show ?thesis unfolding register_batch_files vf.lookup_fold_register [OF assms(1) d] by simp
  qed
  show "Lookup (register_batch batch r) g = Lookup r g" if "g \<notin> file_number ` set batch"
  proof -
    have "map_of ?fvs g = None" using that by (auto simp: map_of_eq_None_iff)
    then show ?thesis unfolding register_batch_files vf.lookup_fold_register [OF assms(1) d] by simp
  qed
qed

lemma Lookup_unregister_batch:
  "registry_inv r \<Longrightarrow>
    Lookup (unregister_batch batch r) g = (if g \<in> file_number ` set batch then None else Lookup r g)"
  by (simp add: unregister_batch_files vf.lookup_fold_remove)

text \<open>
  C23: a refill takes files from the head of the queue, in order. Those it admits are
  registered with their descriptors and counted as visible; the visible bytes exceed
  the target by less than one admitted file. If a batch cannot be logged, the refill
  returns the error of the manifest write, and exactly the files of that batch leave
  both the queue and the registry: no more than the batch limit, and one file or no
  more bytes than were missing to the target; the rest of the queue stays. Without
  back-pressure a successful refill ends with an empty queue or
  with the target reached.
\<close>

theorem RefillVirtualL0WindowLocked_spec:
  assumes "RefillVirtualL0WindowLocked E stats s = (st, stats', s')"
    and "use_virtual_compaction s" "virtual_sst_registry s = Some r" "registry_inv r"
    and "virtual_l0_max_register_batch_files s \<noteq> 0" "0 < virtual_l0_target_visible_bytes s"
    and "unat (virtual_l0_visible_bytes s) + size_of (virtual_l0_pending s) < 2 ^ 64"
    and "distinct (map file_number (virtual_l0_pending s))"
  shows "\<exists>admitted dropped r'. virtual_l0_pending s = admitted @ dropped @ virtual_l0_pending s' \<and>
    virtual_sst_registry s' = Some r' \<and> registry_inv r' \<and>
    (\<forall>f \<in> set admitted. Lookup r' (file_number f) = Some (vsst f)) \<and>
    (\<forall>f \<in> set dropped. Lookup r' (file_number f) = None) \<and>
    (dropped = [] \<or> failed_batch E (virtual_l0_target_visible_bytes s) st s s' admitted dropped) \<and>
    (\<forall>g. g \<notin> file_number ` set (admitted @ dropped) \<longrightarrow> Lookup r' g = Lookup r g) \<and>
    unat (virtual_l0_visible_bytes s') = unat (virtual_l0_visible_bytes s) + size_of admitted \<and>
    (admitted = [] \<or> virtual_l0_visible_bytes s' \<le> virtual_l0_target_visible_bytes s \<or>
      (\<exists>f \<in> set admitted. unat (virtual_l0_visible_bytes s') <
         unat (virtual_l0_target_visible_bytes s) + unat (file_size f))) \<and>
    (ok st \<longleftrightarrow> dropped = []) \<and>
    (ok st \<and> \<not> virtual_l0_backpressure s \<longrightarrow>
       virtual_l0_pending s' = [] \<or> virtual_l0_target_visible_bytes s \<le> virtual_l0_visible_bytes s')"
proof (cases "virtual_l0_pending s")
  case Nil
  then have "st = OK" "s' = s" using assms(1-3) by (simp_all add: RefillVirtualL0WindowLocked_def)
  then show ?thesis using Nil assms(3,4) by (intro exI [of _ "[]"] exI [of _ r]) auto
next
  case (Cons f fs)
  let ?t = "virtual_l0_target_visible_bytes s"
  have l: "refill_loop E ?t False stats s = (st, stats', s')"
    using assms(1,2,3,6) Cons by (simp add: RefillVirtualL0WindowLocked_def)
  from refill_loop_spec [OF l assms(5,7)] obtain admitted dropped where
    r: "refill_result E ?t st s s' admitted dropped"
    and pr: "ok st \<longrightarrow> \<not> virtual_l0_backpressure s \<longrightarrow> virtual_l0_pending s' = [] \<or> ?t \<le> virtual_l0_visible_bytes s'"
    by auto
  define r1 where "r1 = register_batch (admitted @ dropped) r"
  have q: "virtual_l0_pending s = admitted @ dropped @ virtual_l0_pending s'"
    and vb: "virtual_l0_visible_bytes s' = virtual_l0_visible_bytes s + bytes_of admitted"
    and reg: "virtual_sst_registry s' = Some (unregister_batch dropped r1)"
    using r assms(3) by (auto simp: refill_result_def r1_def)
  have d: "distinct (map file_number (admitted @ dropped))" using assms(8) q by auto
  note lk = Lookup_register_batch [OF assms(4) d]
  have inv: "registry_inv r1" using assms(4) by (simp add: r1_def registry_inv_batch)
  have v: "unat (virtual_l0_visible_bytes s') = unat (virtual_l0_visible_bytes s) + size_of admitted"
    using assms(7) q vb unat_bytes_of [of admitted] unat_add_u64 [of "virtual_l0_visible_bytes s" "bytes_of admitted"] by simp
  have l1: "\<forall>f \<in> set admitted. Lookup (unregister_batch dropped r1) (file_number f) = Some (vsst f)"
    using d lk(1) by (auto simp: Lookup_unregister_batch [OF inv] r1_def [symmetric])
  have l2: "\<forall>f \<in> set dropped. Lookup (unregister_batch dropped r1) (file_number f) = None"
    by (simp add: Lookup_unregister_batch [OF inv])
  have l3: "\<forall>g. g \<notin> file_number ` set (admitted @ dropped) \<longrightarrow> Lookup (unregister_batch dropped r1) g = Lookup r g"
    using lk(2) by (auto simp: Lookup_unregister_batch [OF inv] r1_def [symmetric])
  have fb: "dropped = [] \<or> failed_batch E ?t st s s' admitted dropped" using r by (simp add: refill_result_def)
  have bd: "admitted = [] \<or> virtual_l0_visible_bytes s' \<le> ?t \<or>
      (\<exists>f \<in> set admitted. unat (virtual_l0_visible_bytes s') < unat ?t + unat (file_size f))"
    and o: "ok st \<longleftrightarrow> dropped = []"
    using r unfolding refill_result_def by blast+
  have pr': "ok st \<and> \<not> virtual_l0_backpressure s \<longrightarrow> virtual_l0_pending s' = [] \<or> ?t \<le> virtual_l0_visible_bytes s'"
    using pr by simp
  show ?thesis
    by (rule exI [of _ admitted], rule exI [of _ dropped], rule exI [of _ "unregister_batch dropped r1"])
      (intro conjI q reg registry_inv_batch(2) [OF inv] l1 l2 fb l3 v bd o pr')
qed

text \<open>A version set that logs every edit, and a queue of three files.\<close>

definition demo_env :: "unit env" where
  "demo_env = \<lparr>LogAndApply = (\<lambda>_ v. (OK, v)), NumLevelFiles = (\<lambda>_ _. 0),
     estimated_compaction_needed_bytes = (\<lambda>_. 0), level0_stop_writes_trigger = (\<lambda>_. 0),
     hard_pending_compaction_bytes_limit = (\<lambda>_. 0), level0_slowdown_writes_trigger = (\<lambda>_. 0),
     soft_pending_compaction_bytes_limit = (\<lambda>_. 0), clock = of_nat\<rparr>"

definition demo_file :: "u64 \<Rightarrow> VirtualL0WindowFile" where
  "demo_file n = \<lparr>file_number = n, vsst = single_vsst n, file_size = 4, l0_epoch_number = n\<rparr>"

definition demo_state :: "unit DBImpl" where
  "demo_state = \<lparr>use_virtual_compaction = True, virtual_sst_registry = Some new_registry,
     virtual_l0_pending = [demo_file 1, demo_file 2, demo_file 3], virtual_l0_pending_bytes = 12,
     virtual_l0_visible_files = 0, virtual_l0_visible_bytes = 0, virtual_l0_target_visible_bytes = 10,
     virtual_l0_max_register_batch_files = 2, virtual_l0_backpressure = False,
     virtual_l0_window_stats = new_window_stats, versions = (), ticks = 0\<rparr>"

lemmas demo_refill_eval = RefillVirtualL0WindowLocked_def refill_loop.simps refill_iteration_def refill_begin_def
  refill_commit_def refill_rollback_def add_times_def note_pressure_def pressure_def NowMicros_def demo_state_def
  demo_env_def demo_file_def Let_def ok_def

text \<open>All files become visible; when the manifest refuses, the first batch of two files is lost and the third file stays.\<close>

theorem RefillVirtualL0WindowLocked_spec_witness:
  "(\<exists>st stats s'. RefillVirtualL0WindowLocked demo_env None demo_state = (st, stats, s') \<and> st = OK \<and>
     virtual_l0_pending s' = [] \<and> virtual_l0_visible_bytes s' = 12) \<and>
   (\<exists>st stats s'. RefillVirtualL0WindowLocked (demo_env\<lparr>LogAndApply := (\<lambda>_ v. (Corruption '''', v))\<rparr>) None demo_state =
     (st, stats, s') \<and> st = Corruption '''' \<and> virtual_l0_pending s' = [demo_file 3] \<and>
     (\<exists>r. virtual_sst_registry s' = Some r \<and> Lookup r 1 = None))"
proof
  obtain st stats s' where run: "RefillVirtualL0WindowLocked demo_env None demo_state = (st, stats, s')"
    by (cases "RefillVirtualL0WindowLocked demo_env None demo_state") auto
  have eval: "st = OK" "virtual_l0_pending s' = []" "virtual_l0_visible_bytes s' = 12"
    using run by (auto simp: demo_refill_eval)
  have "\<exists>admitted dropped. virtual_l0_pending demo_state = admitted @ dropped @ virtual_l0_pending s' \<and> (ok st \<longleftrightarrow> dropped = [])"
    using RefillVirtualL0WindowLocked_spec [OF run, of new_registry]
    by (simp add: demo_state_def demo_file_def registry_inv_new) blast
  then show "\<exists>st stats s'. RefillVirtualL0WindowLocked demo_env None demo_state = (st, stats, s') \<and> st = OK \<and>
     virtual_l0_pending s' = [] \<and> virtual_l0_visible_bytes s' = 12" using run eval by blast
next
  let ?E = "demo_env\<lparr>LogAndApply := (\<lambda>_ v. (Corruption '''', v))\<rparr>"
  obtain st stats s' where run: "RefillVirtualL0WindowLocked ?E None demo_state = (st, stats, s')"
    by (cases "RefillVirtualL0WindowLocked ?E None demo_state") auto
  have eval: "st = Corruption ''''" "virtual_l0_pending s' = [demo_file 3]" "virtual_l0_visible_bytes s' = 0"
    using run by (auto simp: demo_refill_eval)
  have "\<exists>admitted dropped r'. virtual_l0_pending demo_state = admitted @ dropped @ virtual_l0_pending s' \<and>
      virtual_sst_registry s' = Some r' \<and> (\<forall>f \<in> set dropped. Lookup r' (file_number f) = None) \<and>
      unat (virtual_l0_visible_bytes s') = unat (virtual_l0_visible_bytes demo_state) + size_of admitted"
    using RefillVirtualL0WindowLocked_spec [OF run, of new_registry]
    by (simp add: demo_state_def demo_file_def registry_inv_new) blast
  then obtain admitted dropped r' where a: "[demo_file 1, demo_file 2] = admitted @ dropped"
      "virtual_sst_registry s' = Some r'" "\<forall>f \<in> set dropped. Lookup r' (file_number f) = None" "size_of admitted = 0"
    using eval by (auto simp: demo_state_def)
  then have "dropped = [demo_file 1, demo_file 2]" by (cases admitted) (auto simp: demo_file_def)
  then have "Lookup r' 1 = None" using a(3) by (simp add: demo_file_def)
  then show "\<exists>st stats s'. RefillVirtualL0WindowLocked ?E None demo_state = (st, stats, s') \<and> st = Corruption '''' \<and>
     virtual_l0_pending s' = [demo_file 3] \<and> (\<exists>r. virtual_sst_registry s' = Some r \<and> Lookup r 1 = None)"
    using run eval a(2) by blast
qed

section \<open>Interleaved refills\<close>

text \<open>
  \<open>LogAndApply\<close> releases the mutex, so several refills, accounting calls and
  compactions may run between the two halves of an iteration. The run keeps the
  files ever queued, the batches being logged, the files made visible and the files
  dropped. A compaction publishes files under fresh numbers and removes visible
  ones. The run also sums the level-0 outputs that were accounted for and remembers
  whether a call accounted for more than was visible, where the code saturates.
\<close>

record 'v l0_run =
  db :: "'v DBImpl"
  queued :: "VirtualL0WindowFile list"
  logging :: "(VirtualL0WindowFile list \<times> u64) list"
  admitted :: "VirtualL0WindowFile list"
  lost :: "VirtualL0WindowFile list"
  compacted :: "u64 set"
  out_files :: u64
  out_bytes :: u64
  overdrawn :: bool

definition used_numbers :: "'v l0_run \<Rightarrow> u64 set" where
  "used_numbers x = file_number ` set (queued x) \<union> compacted x"

inductive l0_step :: "'v env \<Rightarrow> 'v l0_run \<Rightarrow> 'v l0_run \<Rightarrow> bool" for E where
  enqueue: "distinct (map file_number fs) \<Longrightarrow> file_number ` set fs \<inter> used_numbers x = {} \<Longrightarrow>
    l0_step E x (x\<lparr>db := enqueue_files fs (db x), queued := queued x @ fs\<rparr>)"
| configure: "l0_step E x (x\<lparr>db := ConfigureVirtualL0Window target m backpressure (db x)\<rparr>)"
| account: "l0_step E x (x\<lparr>db := AccountVirtualL0CompactionLocked a b c d (db x),
    out_files := out_files x + c, out_bytes := out_bytes x + d,
    overdrawn := overdrawn x \<or> virtual_l0_visible_files (db x) < a \<or> virtual_l0_visible_bytes (db x) < b\<rparr>)"
| start: "pressure E (db x) \<noteq> kStop \<Longrightarrow> virtual_l0_visible_bytes (db x) < target \<Longrightarrow>
    refill_begin target (pressure E (db x) = kSlowdown) (note_pressure (pressure E (db x)) (db x)) = (batch, bytes, s') \<Longrightarrow>
    l0_step E x (x\<lparr>db := s', logging := logging x @ [(batch, bytes)]\<rparr>)"
| logged: "logging x = ls1 @ (batch, bytes) # ls2 \<Longrightarrow>
    l0_step E x (x\<lparr>db := refill_commit batch bytes ((db x)\<lparr>versions := v\<rparr>), logging := ls1 @ ls2,
                   admitted := admitted x @ batch\<rparr>)"
| failed: "logging x = ls1 @ (batch, bytes) # ls2 \<Longrightarrow>
    l0_step E x (x\<lparr>db := refill_rollback batch ((db x)\<lparr>versions := v\<rparr>), logging := ls1 @ ls2,
                   lost := lost x @ batch\<rparr>)"
| publish: "set ins \<subseteq> file_number ` set (admitted x) \<union> compacted x \<Longrightarrow> distinct (map fst outs) \<Longrightarrow>
    fst ` set outs \<inter> used_numbers x = {} \<Longrightarrow>
    l0_step E x (x\<lparr>db := (db x)\<lparr>virtual_sst_registry :=
          map_option (fold Remove ins \<circ> fold (\<lambda>(f, v). Register f v) outs) (virtual_sst_registry (db x))\<rparr>,
        compacted := compacted x \<union> fst ` set outs\<rparr>)"

definition l0_start :: "'v DBImpl \<Rightarrow> 'v l0_run" where
  "l0_start s = \<lparr>db = s, queued = [], logging = [], admitted = [], lost = [], compacted = {},
     out_files = 0, out_bytes = 0, overdrawn = False\<rparr>"

definition logging_files :: "'v l0_run \<Rightarrow> VirtualL0WindowFile list" where
  "logging_files x = concat (map fst (logging x))"

text \<open>What is visible and what was consumed is what was admitted and what compactions wrote to level 0.\<close>

definition l0_ledger :: "'v l0_run \<Rightarrow> bool" where
  "l0_ledger x \<longleftrightarrow>
     overdrawn x \<or>
     (let st = virtual_l0_window_stats (db x) in
       virtual_l0_visible_files (db x) + consumed_files st = registered_files st + out_files x \<and>
       virtual_l0_visible_bytes (db x) + consumed_bytes st = registered_bytes st + out_bytes x)"

definition l0_inv :: "'v l0_run \<Rightarrow> bool" where
  "l0_inv x \<longleftrightarrow>
     mset (queued x) = mset (virtual_l0_pending (db x)) + mset (logging_files x) + mset (admitted x) + mset (lost x) \<and>
     virtual_l0_pending_bytes (db x) = bytes_of (virtual_l0_pending (db x)) \<and>
     distinct (map file_number (queued x)) \<and> file_number ` set (queued x) \<inter> compacted x = {} \<and>
     (\<forall>(batch, bytes) \<in> set (logging x). bytes = bytes_of batch) \<and>
     queued_files (virtual_l0_window_stats (db x)) = of_nat (length (queued x)) \<and>
     queued_bytes (virtual_l0_window_stats (db x)) = bytes_of (queued x) \<and>
     registered_files (virtual_l0_window_stats (db x)) = of_nat (length (admitted x)) \<and>
     registered_bytes (virtual_l0_window_stats (db x)) = bytes_of (admitted x) \<and>
     l0_ledger x \<and>
     (\<exists>r. virtual_sst_registry (db x) = Some r \<and> registry_inv r \<and>
        (\<forall>f \<in> set (logging_files x). Lookup r (file_number f) = Some (vsst f)) \<and>
        (\<forall>f \<in> set (lost x). Lookup r (file_number f) = None))"

lemma l0_inv_ledger: "l0_inv x \<Longrightarrow> l0_ledger x"
  by (simp only: l0_inv_def)

inductive_cases l0_stepE: "l0_step E x y"

lemma l0_inv_files:
  assumes "l0_inv x"
  shows "set (queued x) = set (virtual_l0_pending (db x)) \<union> set (logging_files x) \<union> set (admitted x) \<union> set (lost x)"
    and "distinct (map file_number (virtual_l0_pending (db x) @ logging_files x @ admitted x @ lost x))"
proof -
  have m: "mset (queued x) = mset (virtual_l0_pending (db x) @ logging_files x @ admitted x @ lost x)"
    using assms by (simp add: l0_inv_def union_assoc)
  from mset_eq_setD [OF m] show "set (queued x) = set (virtual_l0_pending (db x)) \<union> set (logging_files x) \<union> set (admitted x) \<union> set (lost x)"
    by auto
  have "mset (map file_number (queued x)) = mset (map file_number (virtual_l0_pending (db x) @ logging_files x @ admitted x @ lost x))"
    using m by (metis mset_map)
  then show "distinct (map file_number (virtual_l0_pending (db x) @ logging_files x @ admitted x @ lost x))"
    using assms mset_eq_imp_distinct_iff unfolding l0_inv_def by blast
qed

lemma l0_inv_enqueue:
  assumes "l0_inv x" "distinct (map file_number fs)" "file_number ` set fs \<inter> used_numbers x = {}"
  shows "l0_inv (x\<lparr>db := enqueue_files fs (db x), queued := queued x @ fs\<rparr>)"
  using assms
  by (auto simp: l0_inv_def l0_ledger_def enqueue_files_def used_numbers_def logging_files_def fold_bytes Let_def)

lemma l0_inv_start:
  assumes "l0_inv x"
    and "refill_begin target t (note_pressure p (db x)) = (batch, bytes, s')"
  shows "l0_inv (x\<lparr>db := s', logging := logging x @ [(batch, bytes)]\<rparr>)"
proof -
  let ?s = "db x"
  obtain r where r: "virtual_sst_registry ?s = Some r" "registry_inv r"
    "\<forall>f \<in> set (logging_files x). Lookup r (file_number f) = Some (vsst f)"
    "\<forall>f \<in> set (lost x). Lookup r (file_number f) = None"
    using assms(1) by (auto simp: l0_inv_def)
  let ?tb = "take_batch (if t then 1 else unat (virtual_l0_max_register_batch_files ?s))
      (target - virtual_l0_visible_bytes ?s) (virtual_l0_pending ?s) (virtual_l0_pending_bytes ?s) [] 0"
  obtain b0 y0 pend pb where tb0: "?tb = (b0, y0, pend, pb)" by (cases ?tb) auto
  have s': "batch = b0" "bytes = y0" "s' = (note_pressure p ?s)\<lparr>virtual_l0_pending := pend, virtual_l0_pending_bytes := pb,
       virtual_sst_registry := Some (register_batch batch r)\<rparr>"
    using assms(2) r(1) tb0 by (cases t; simp add: refill_begin_def Let_def)+
  have tb: "?tb = (batch, bytes, pend, pb)" using tb0 s'(1,2) by simp
  from take_batch_split [OF tb] have sp: "virtual_l0_pending ?s = batch @ pend" "bytes = bytes_of batch"
      "pb = virtual_l0_pending_bytes ?s - bytes_of batch" by auto
  have d: "distinct (map file_number ((batch @ pend) @ logging_files x @ admitted x @ lost x))"
    using l0_inv_files(2) [OF assms(1)] sp(1) by simp
  have db: "distinct (map file_number batch)" using d by simp
  have l1: "\<forall>f \<in> set (logging_files x @ batch). Lookup (register_batch batch r) (file_number f) = Some (vsst f)"
  proof
    fix f assume f: "f \<in> set (logging_files x @ batch)"
    show "Lookup (register_batch batch r) (file_number f) = Some (vsst f)"
    proof (cases "f \<in> set batch")
      case True
      then show ?thesis by (rule Lookup_register_batch(1) [OF r(2) db])
    next
      case False
      then have f': "f \<in> set (logging_files x)" using f by simp
      have "file_number f \<notin> file_number ` set batch" using d f' by auto
      then show ?thesis using Lookup_register_batch(2) [OF r(2) db] r(3) f' by simp
    qed
  qed
  have l2: "\<forall>f \<in> set (lost x). Lookup (register_batch batch r) (file_number f) = None"
  proof
    fix f assume f: "f \<in> set (lost x)"
    have "file_number f \<notin> file_number ` set batch" using d f by auto
    then show "Lookup (register_batch batch r) (file_number f) = None"
      using Lookup_register_batch(2) [OF r(2) db] r(4) f by simp
  qed
  have st: "queued_files (virtual_l0_window_stats s') = queued_files (virtual_l0_window_stats ?s)"
    "queued_bytes (virtual_l0_window_stats s') = queued_bytes (virtual_l0_window_stats ?s)"
    "registered_files (virtual_l0_window_stats s') = registered_files (virtual_l0_window_stats ?s)"
    "registered_bytes (virtual_l0_window_stats s') = registered_bytes (virtual_l0_window_stats ?s)"
    "consumed_files (virtual_l0_window_stats s') = consumed_files (virtual_l0_window_stats ?s)"
    "consumed_bytes (virtual_l0_window_stats s') = consumed_bytes (virtual_l0_window_stats ?s)"
    "virtual_l0_visible_files s' = virtual_l0_visible_files ?s" "virtual_l0_visible_bytes s' = virtual_l0_visible_bytes ?s"
    unfolding s'(3) by (auto simp: note_pressure_def Let_def split: Pressure.splits)
  have "l0_ledger (x\<lparr>db := s', logging := logging x @ [(batch, bytes)]\<rparr>)"
    using l0_inv_ledger [OF assms(1)] by (simp add: l0_ledger_def Let_def st)
  then show ?thesis
    using assms(1) sp l1 l2 registry_inv_batch(1) [OF r(2), of batch] st
    unfolding l0_inv_def logging_files_def
    by (simp add: s'(3) union_ac ball_Un)
qed

lemma logging_files_split:
  assumes "logging x = ls1 @ (batch, bytes) # ls2"
  shows "mset (logging_files x) = mset batch + mset (concat (map fst (ls1 @ ls2)))"
    and "set (concat (map fst (ls1 @ ls2))) \<subseteq> set (logging_files x)" "set batch \<subseteq> set (logging_files x)"
  using assms by (auto simp: logging_files_def union_ac)

lemma l0_inv_logged:
  assumes "l0_inv x" "logging x = ls1 @ (batch, bytes) # ls2"
  shows "l0_inv (x\<lparr>db := refill_commit batch bytes ((db x)\<lparr>versions := v\<rparr>), logging := ls1 @ ls2,
    admitted := admitted x @ batch\<rparr>)"
proof -
  note sp = logging_files_split [OF assms(2)]
  have "bytes = bytes_of batch" using assms by (auto simp: l0_inv_def)
  moreover have ledger: "l0_ledger (x\<lparr>db := refill_commit batch bytes ((db x)\<lparr>versions := v\<rparr>), logging := ls1 @ ls2,
      admitted := admitted x @ batch\<rparr>)"
    using l0_inv_ledger [OF assms(1)] by (auto simp: l0_ledger_def refill_commit_def Let_def algebra_simps)
  ultimately show ?thesis
    using assms(1) sp ledger
    unfolding l0_inv_def logging_files_def
    by (simp add: refill_commit_def Let_def assms(2) union_ac ball_Un) blast
qed

lemma l0_inv_failed:
  assumes "l0_inv x" "logging x = ls1 @ (batch, bytes) # ls2"
  shows "l0_inv (x\<lparr>db := refill_rollback batch ((db x)\<lparr>versions := v\<rparr>), logging := ls1 @ ls2,
    lost := lost x @ batch\<rparr>)"
proof -
  note sp = logging_files_split [OF assms(2)]
  obtain r where r: "virtual_sst_registry (db x) = Some r" "registry_inv r"
    "\<forall>f \<in> set (logging_files x). Lookup r (file_number f) = Some (vsst f)"
    "\<forall>f \<in> set (lost x). Lookup r (file_number f) = None"
    using assms(1) by (auto simp: l0_inv_def)
  let ?ls = "concat (map fst (ls1 @ ls2))"
  have "distinct (map file_number (logging_files x))" using l0_inv_files(2) [OF assms(1)] by simp
  moreover have "mset (map file_number (logging_files x)) = mset (map file_number (batch @ ?ls))"
    using sp(1) by (metis mset_append mset_map)
  ultimately have d: "distinct (map file_number (batch @ ?ls))" using mset_eq_imp_distinct_iff by blast
  have dj: "file_number ` set batch \<inter> file_number ` set ?ls = {}"
    using d by (simp only: map_append distinct_append set_map)
  have l1: "\<forall>f \<in> set ?ls. Lookup (unregister_batch batch r) (file_number f) = Some (vsst f)"
  proof
    fix f assume f: "f \<in> set ?ls"
    have "file_number f \<notin> file_number ` set batch" using dj imageI [OF f, of file_number] by blast
    then show "Lookup (unregister_batch batch r) (file_number f) = Some (vsst f)"
      using bspec [OF r(3) subsetD [OF sp(2) f]] by (simp add: Lookup_unregister_batch [OF r(2)])
  qed
  have ledger: "l0_ledger (x\<lparr>db := refill_rollback batch ((db x)\<lparr>versions := v\<rparr>), logging := ls1 @ ls2,
      lost := lost x @ batch\<rparr>)"
    using l0_inv_ledger [OF assms(1)] by (simp add: l0_ledger_def refill_rollback_def)
  have l2: "\<forall>f \<in> set (lost x @ batch). Lookup (unregister_batch batch r) (file_number f) = None"
    using r(4) by (auto simp: Lookup_unregister_batch [OF r(2)])
  show ?thesis
    using assms(1) sp(1) r(1) l1 l2 registry_inv_batch(2) [OF r(2), of batch] ledger
    unfolding l0_inv_def logging_files_def
    by (simp add: refill_rollback_def assms(2) union_ac ball_Un)
qed

lemma l0_inv_publish:
  assumes "l0_inv x" "set ins \<subseteq> file_number ` set (admitted x) \<union> compacted x" "distinct (map fst outs)"
    and "fst ` set outs \<inter> used_numbers x = {}"
  shows "l0_inv (x\<lparr>db := (db x)\<lparr>virtual_sst_registry :=
          map_option (fold Remove ins \<circ> fold (\<lambda>(f, v). Register f v) outs) (virtual_sst_registry (db x))\<rparr>,
        compacted := compacted x \<union> fst ` set outs\<rparr>)"
proof -
  obtain r where r: "virtual_sst_registry (db x) = Some r" "registry_inv r"
    "\<forall>f \<in> set (logging_files x). Lookup r (file_number f) = Some (vsst f)"
    "\<forall>f \<in> set (lost x). Lookup r (file_number f) = None"
    using assms(1) by (auto simp: l0_inv_def)
  define r1 where "r1 = fold (\<lambda>(f, v). Register f v) outs r"
  have inv: "registry_inv r1" "registry_inv (fold Remove ins r1)"
    using r(2) by (simp_all add: r1_def vf.inv_fold_register vf.inv_fold_remove)
  have keep: "Lookup (fold Remove ins r1) (file_number f) = Lookup r (file_number f)"
    if f: "f \<in> set (logging_files x) \<union> set (lost x)" for f
  proof -
    note fs = l0_inv_files [OF assms(1)]
    have "f \<in> set (queued x)" using fs(1) f by auto
    then have u: "file_number f \<in> used_numbers x" and nc: "file_number f \<notin> compacted x"
      using assms(1) by (auto simp: used_numbers_def l0_inv_def)
    have "file_number f \<notin> file_number ` set (admitted x)" using fs(2) f by auto
    then have "file_number f \<notin> set ins" using assms(2) nc by auto
    moreover have "map_of outs (file_number f) = None" using u assms(4) by (auto simp: map_of_eq_None_iff)
    ultimately show ?thesis
      by (simp add: r1_def vf.lookup_fold_remove [OF inv(1) [unfolded r1_def]] vf.lookup_fold_register [OF r(2) assms(3)])
  qed
  have "file_number ` set (queued x) \<inter> fst ` set outs = {}" using assms(4) by (auto simp: used_numbers_def)
  moreover have "\<forall>f \<in> set (logging_files x). Lookup (fold Remove ins r1) (file_number f) = Some (vsst f)"
      "\<forall>f \<in> set (lost x). Lookup (fold Remove ins r1) (file_number f) = None"
    using keep r(3,4) by simp_all
  moreover have "l0_ledger (x\<lparr>db := (db x)\<lparr>virtual_sst_registry :=
          map_option (fold Remove ins \<circ> fold (\<lambda>(f, v). Register f v) outs) (virtual_sst_registry (db x))\<rparr>,
        compacted := compacted x \<union> fst ` set outs\<rparr>)"
    using l0_inv_ledger [OF assms(1)] by (simp add: l0_ledger_def)
  ultimately show ?thesis
    using assms(1) r(1) inv(2) unfolding l0_inv_def logging_files_def
    by (simp add: r1_def Int_Un_distrib)
qed

lemma l0_inv_step:
  assumes "l0_inv x" "l0_step E x y"
  shows "l0_inv y"
  using assms(2)
proof cases
  case enqueue
  then show ?thesis using l0_inv_enqueue [OF assms(1)] by simp
next
  case configure
  then show ?thesis using assms(1) by (auto simp: l0_inv_def l0_ledger_def logging_files_def ConfigureVirtualL0Window_def Let_def)
next
  case account
  then show ?thesis using assms(1)
    by (auto simp: l0_inv_def l0_ledger_def logging_files_def AccountVirtualL0CompactionLocked_def Let_def algebra_simps)
next
  case start
  then show ?thesis using l0_inv_start [OF assms(1)] by simp
next
  case logged
  then show ?thesis using l0_inv_logged [OF assms(1)] by simp
next
  case failed
  then show ?thesis using l0_inv_failed [OF assms(1)] by simp
next
  case publish
  then show ?thesis using l0_inv_publish [OF assms(1)] by simp
qed

text \<open>
  C4: however refills, enqueues, accounting calls and compactions interleave while
  batches are being logged, every queued file is in exactly one place: waiting,
  being logged, visible or lost with a failed batch. The pending-byte counter is the
  sum over the queue, the queued and registered counters count the queued and the
  admitted files, the files being logged are registered with their descriptors, and
  no lost file is. As long as no call accounts for more than is visible, the visible
  and the consumed files and bytes add up to the registered ones and the outputs of
  compactions.
\<close>

theorem l0_window_invariant:
  assumes "(l0_step E)\<^sup>*\<^sup>* (l0_start s) x"
    and "virtual_sst_registry s = Some r" "registry_inv r"
    and "virtual_l0_pending s = []" "virtual_l0_pending_bytes s = 0" "virtual_l0_window_stats s = new_window_stats"
    and "virtual_l0_visible_files s = 0" "virtual_l0_visible_bytes s = 0"
  shows "l0_inv x"
  using assms(1)
proof (induction rule: rtranclp_induct)
  case base
  show ?case using assms(2-8)
    by (simp add: l0_inv_def l0_ledger_def l0_start_def logging_files_def new_window_stats_def)
next
  case (step y z)
  then show ?case by (blast intro: l0_inv_step)
qed

theorem l0_window_invariant_witness:
  "\<exists>x. (l0_step demo_env)\<^sup>*\<^sup>* (l0_start (demo_state\<lparr>virtual_l0_pending := [], virtual_l0_pending_bytes := 0\<rparr>)) x \<and>
     l0_inv x \<and> queued x = [demo_file 1, demo_file 2]"
proof -
  let ?s = "demo_state\<lparr>virtual_l0_pending := [], virtual_l0_pending_bytes := 0\<rparr>"
  let ?x = "(l0_start ?s)\<lparr>db := enqueue_files [demo_file 1, demo_file 2] (db (l0_start ?s)),
    queued := queued (l0_start ?s) @ [demo_file 1, demo_file 2]\<rparr>"
  have "l0_step demo_env (l0_start ?s) ?x"
    by (rule l0_step.enqueue) (simp_all add: demo_file_def used_numbers_def l0_start_def)
  then have run: "(l0_step demo_env)\<^sup>*\<^sup>* (l0_start ?s) ?x" by blast
  have "l0_inv ?x"
    by (rule l0_window_invariant [OF run, of new_registry]) (simp_all add: demo_state_def registry_inv_new)
  moreover have "queued ?x = [demo_file 1, demo_file 2]" by (simp add: l0_start_def)
  ultimately show ?thesis using run by blast
qed

end
