(* ===== verification/Cond_Var.thy ===== *)
theory Cond_Var
  imports Vc_Prelude
begin

text \<open>
  Condition variables: \<open>CondVar\<close> in \<open>port/port_posix.cc\<close>, and \<open>std::condition_variable\<close>
  where the tools use it. The state of one is the set of threads blocked in \<open>Wait\<close>.
  A thread enters the set in the critical section in which it tested its condition, and
  a thread that left it tests the condition again. Which thread \<open>Signal\<close> wakes is up to
  the scheduler, so it is a relation; a signal to an empty set is lost. Wake-ups without
  a signal are steps of the clients.
\<close>

definition Wait :: "'t \<Rightarrow> 't set \<Rightarrow> 't set" where
  "Wait i w = insert i w"

definition Signal :: "'t set \<Rightarrow> 't set \<Rightarrow> bool" where
  "Signal w w' \<longleftrightarrow> (if w = {} then w' = {} else \<exists>j \<in> w. w' = w - {j})"

definition SignalAll :: "'t set \<Rightarrow> 't set" where
  "SignalAll w = {}"

text \<open>What an operation tells the waiters: nothing, \<open>notify_one\<close> or \<open>notify_all\<close>.\<close>

datatype notification = Silent | NotifyOne | NotifyAll

fun deliver :: "notification \<Rightarrow> 't set \<Rightarrow> 't set \<Rightarrow> bool" where
  "deliver Silent w w' \<longleftrightarrow> w' = w"
| "deliver NotifyOne w w' \<longleftrightarrow> Signal w w'"
| "deliver NotifyAll w w' \<longleftrightarrow> w' = SignalAll w"

lemma Signal_subset: "Signal w w' \<Longrightarrow> w' \<subseteq> w"
  by (auto simp: Signal_def split: if_splits)

lemma Signal_wakes: "Signal w w' \<Longrightarrow> w \<noteq> {} \<Longrightarrow> w' \<noteq> w"
  by (auto simp: Signal_def)

lemma Signal_exists: "\<exists>w'. Signal w w'"
  by (cases "w = {}") (auto simp: Signal_def)

lemma Signal_one [simp]: "Signal {} w' \<longleftrightarrow> w' = {}" "Signal {j} w' \<longleftrightarrow> w' = {}"
  by (simp_all add: Signal_def)

lemma deliver_exists: "\<exists>w'. deliver n w w'"
  using Signal_exists by (cases n) auto

lemma deliver_subset: "deliver n w w' \<Longrightarrow> w' \<subseteq> w"
  using Signal_subset by (cases n) (auto simp: SignalAll_def)

lemma Signal_card: "Signal w w' \<Longrightarrow> finite w \<Longrightarrow> card w' = card w - 1"
  by (auto simp: Signal_def split: if_splits)

end
