(* ===== verification/Commit_Queue.thy ===== *)
theory Commit_Queue
  imports L0_Window Cond_Var
begin

text \<open>
  The group commit of virtual compactions, \<open>CommitVirtualCompactionEdit\<close> in
  \<open>db/db_impl/db_impl_compaction_flush.cc\<close>, with the counters of virtual
  compaction. A thread queues a request; the first becomes the leader and commits
  batches until the queue is empty, the others wait until their request is done.
  Requests live on the stacks of their threads, so the queue holds request
  identifiers and \<open>requests\<close> is the store they point into. The leader's round is
  one function, cut where \<open>LogAndApply\<close> releases the mutex; the step relation
  interleaves rounds with arriving threads and has the threads sleep on the condition
  variable.
\<close>

section \<open>State\<close>

record VirtualCompactionStats =
  jobs :: u64
  input_files :: u64
  output_files :: u64
  gather_us :: u64
  merge_us :: u64
  split_us :: u64
  mutex_wait_us :: u64
  edit_build_us :: u64
  vc_log_apply_us :: u64
  total_us :: u64
  commit_batches :: u64
  commit_jobs :: u64
  commit_queue_wait_us :: u64
  commit_leader_log_apply_us :: u64
  trivial_move_jobs :: u64
  trivial_move_files :: u64
  trivial_move_bytes :: u64
  trivial_move_log_apply_us :: u64
  trivial_move_total_us :: u64
  superversion_install_us :: u64
  obsolete_collect_us :: u64
  obsolete_purge_us :: u64

definition zero_stats :: VirtualCompactionStats where
  "zero_stats =
     \<lparr>jobs = 0, input_files = 0, output_files = 0, gather_us = 0, merge_us = 0, split_us = 0,
      mutex_wait_us = 0, edit_build_us = 0, vc_log_apply_us = 0, total_us = 0, commit_batches = 0,
      commit_jobs = 0, commit_queue_wait_us = 0, commit_leader_log_apply_us = 0,
      trivial_move_jobs = 0, trivial_move_files = 0, trivial_move_bytes = 0,
      trivial_move_log_apply_us = 0, trivial_move_total_us = 0, superversion_install_us = 0,
      obsolete_collect_us = 0, obsolete_purge_us = 0\<rparr>"

text \<open>
  A request. \<open>compaction_released\<close> is the flag the request points to, \<open>None\<close> for
  a null pointer.
\<close>

record VirtualCompactionCommitRequest =
  req_cfd :: u32
  req_edit :: VersionEdit
  pending_outputs :: "(u64 \<times> VirtualSST) list"
  input_file_numbers :: "u64 list"
  moved_virtuals :: "(u64 \<times> VirtualSST) list option"
  compaction_released :: "bool option"
  l0_input_files :: u64
  l0_input_bytes :: u64
  l0_output_files :: u64
  l0_output_bytes :: u64
  enqueue_us :: u64
  commit_start_us :: u64
  commit_done_us :: u64
  req_batch_size :: u64
  req_status :: status
  req_done :: bool

text \<open>\<open>released\<close> records the calls of \<open>ReleaseCompactionFiles\<close>.\<close>

record 'v CommitDB = "'v DBImpl" +
  vstats :: VirtualCompactionStats
  commit_queue :: "nat list"
  commit_in_progress :: bool
  requests :: "nat \<Rightarrow> VirtualCompactionCommitRequest"
  released :: "(nat \<times> status) list"

text \<open>
  \<open>CommitLog\<close> is \<open>LogAndApply\<close> with a manifest callback: it returns the status,
  whether the callback ran (it does not when the column family was dropped) and the
  new version set. \<open>FileIsCurrent\<close> is \<open>GetFileLocation(n).IsValid()\<close>.
\<close>

record 'v commit_env = "'v env" +
  CommitLog :: "VersionEdit list \<Rightarrow> 'v \<Rightarrow> status \<times> bool \<times> 'v"
  FileIsCurrent :: "'v \<Rightarrow> u32 \<Rightarrow> u64 \<Rightarrow> bool"

section \<open>Counters and configuration\<close>

definition ResetVirtualCompactionStats :: "'v CommitDB \<Rightarrow> 'v CommitDB" where
  "ResetVirtualCompactionStats s =
     s\<lparr>vstats := zero_stats, virtual_l0_pending := [], virtual_l0_pending_bytes := 0,
       virtual_l0_visible_files := 0, virtual_l0_visible_bytes := 0,
       virtual_l0_window_stats := new_window_stats
         \<lparr>target_visible_bytes := virtual_l0_target_visible_bytes s,
          max_register_batch_files := virtual_l0_max_register_batch_files s\<rparr>\<rparr>"

definition GetVirtualCompactionStats :: "'v CommitDB \<Rightarrow> VirtualCompactionStats" where
  "GetVirtualCompactionStats s = vstats s"

text \<open>
  \<open>strtoull\<close> with base ten: leading white space, a sign, digits; a value out of
  range is the largest one, a minus sign negates. It reports whether it consumed
  anything.
\<close>

definition is_space :: "char \<Rightarrow> bool" where
  "is_space c \<longleftrightarrow> (of_char c :: nat) = 32 \<or> 9 \<le> (of_char c :: nat) \<and> (of_char c :: nat) \<le> 13"

definition is_digit :: "char \<Rightarrow> bool" where
  "is_digit c \<longleftrightarrow> 48 \<le> (of_char c :: nat) \<and> (of_char c :: nat) \<le> 57"

definition digits_value :: "string \<Rightarrow> nat" where
  "digits_value ds = foldl (\<lambda>v c. 10 * v + (of_char c - 48)) 0 ds"

definition strtoull :: "string \<Rightarrow> u64 option" where
  "strtoull s =
     (let t = dropWhile is_space s;
          neg = (case t of c # _ \<Rightarrow> c = CHR ''-'' | [] \<Rightarrow> False);
          u = (case t of c # t' \<Rightarrow> if c = CHR ''-'' \<or> c = CHR ''+'' then t' else t | [] \<Rightarrow> []);
          ds = takeWhile is_digit u
      in if ds = [] then None
         else if digits_value ds \<ge> 2 ^ 64 then Some u64_max
         else Some (if neg then - of_nat (digits_value ds) else of_nat (digits_value ds)))"

definition GetVcompEnvUInt64 :: "string option \<Rightarrow> u64 \<Rightarrow> u64" where
  "GetVcompEnvUInt64 value default_value =
     (case value of
        None \<Rightarrow> default_value
      | Some v \<Rightarrow> if v = '''' then default_value
                  else case strtoull v of None \<Rightarrow> default_value | Some parsed \<Rightarrow> parsed)"

definition max_batch_size :: "string option \<Rightarrow> nat" where
  "max_batch_size batch_max = unat (max 1 (GetVcompEnvUInt64 batch_max 16))"

section \<open>One round of the leader\<close>

definition upd_req ::
    "nat \<Rightarrow> (VirtualCompactionCommitRequest \<Rightarrow> VirtualCompactionCommitRequest) \<Rightarrow> 'v CommitDB \<Rightarrow> 'v CommitDB" where
  "upd_req i f s = s\<lparr>requests := (requests s)(i := f (requests s i))\<rparr>"

definition release_request :: "nat \<Rightarrow> status \<Rightarrow> 'v CommitDB \<Rightarrow> 'v CommitDB" where
  "release_request i st s =
     (if compaction_released (requests s i) = Some False
      then upd_req i (\<lambda>r. r\<lparr>compaction_released := Some True\<rparr>) (s\<lparr>released := released s @ [(i, st)]\<rparr>)
      else s)"

definition mark_done :: "nat \<Rightarrow> status \<Rightarrow> u64 \<Rightarrow> u64 \<Rightarrow> nat \<Rightarrow> 'v CommitDB \<Rightarrow> 'v CommitDB" where
  "mark_done i st start_us done_us n s =
     upd_req i (\<lambda>r. r\<lparr>req_done := True\<rparr>)
       (release_request i st
         (upd_req i (\<lambda>r. r\<lparr>req_status := st, commit_start_us := start_us, commit_done_us := done_us,
            req_batch_size := of_nat n\<rparr>) s))"

text \<open>The requests at the head of the queue that share the first one's column family.\<close>

fun pop_batch :: "nat \<Rightarrow> (nat \<Rightarrow> u32) \<Rightarrow> u32 \<Rightarrow> nat list \<Rightarrow> nat list \<Rightarrow> nat list \<times> nat list" where
  "pop_batch cap cfd_of cfd batch [] = (batch, [])"
| "pop_batch cap cfd_of cfd batch (i # queue) =
     (if length batch < cap \<and> cfd_of i = cfd then pop_batch cap cfd_of cfd (batch @ [i]) queue
      else (batch, i # queue))"

definition is_current :: "'v commit_env \<Rightarrow> 'v CommitDB \<Rightarrow> nat \<Rightarrow> bool" where
  "is_current E s i =
     list_all (FileIsCurrent E (versions s) (req_cfd (requests s i))) (input_file_numbers (requests s i))"

text \<open>Requests with an input that is no longer current are answered at once.\<close>

fun screen_batch ::
    "'v commit_env \<Rightarrow> u64 \<Rightarrow> nat \<Rightarrow> nat list \<Rightarrow> nat list \<Rightarrow> 'v CommitDB \<Rightarrow> nat list \<times> 'v CommitDB" where
  "screen_batch E start_us n [] commit_batch s = (commit_batch, s)"
| "screen_batch E start_us n (i # batch) commit_batch s =
     (if is_current E s i then screen_batch E start_us n batch (commit_batch @ [i]) s
      else screen_batch E start_us n batch commit_batch (mark_done i OK start_us start_us n s))"

definition round_begin :: "'v commit_env \<Rightarrow> nat \<Rightarrow> 'v CommitDB \<Rightarrow> nat list \<times> nat list \<times> u64 \<times> 'v CommitDB" where
  "round_begin E cap s =
     (let cfd_of = (\<lambda>i. req_cfd (requests s i));
          (batch, queue) = pop_batch cap cfd_of (cfd_of (hd (commit_queue s))) [] (commit_queue s);
          (start_us, s1) = NowMicros E (s\<lparr>commit_queue := queue\<rparr>);
          (commit_batch, s2) = screen_batch E start_us (length batch) batch [] s1
      in (batch, commit_batch, start_us, s2))"

text \<open>The manifest callback for one request.\<close>

definition publish_request :: "VirtualCompactionCommitRequest \<Rightarrow> VirtualSSTRegistry \<Rightarrow> VirtualSSTRegistry" where
  "publish_request r reg =
     (case moved_virtuals r of
        Some moved \<Rightarrow> fold (\<lambda>(f, v). Register f v) moved reg
      | None \<Rightarrow> fold Remove (input_file_numbers r) (fold (\<lambda>(f, v). Register f v) (pending_outputs r) reg))"

definition commit_callback :: "status \<Rightarrow> nat \<Rightarrow> 'v CommitDB \<Rightarrow> 'v CommitDB" where
  "commit_callback st i s =
     release_request i st
       (if ok st then s\<lparr>virtual_sst_registry := map_option (publish_request (requests s i)) (virtual_sst_registry s)\<rparr>
        else s)"

definition account_request :: "nat \<Rightarrow> 'v CommitDB \<Rightarrow> 'v CommitDB" where
  "account_request i s =
     (let r = requests s i
      in AccountVirtualL0CompactionLocked (l0_input_files r) (l0_input_bytes r) (l0_output_files r)
           (l0_output_bytes r) s)"

text \<open>The call of \<open>LogAndApply\<close>, with the counters that follow it.\<close>

definition round_log :: "'v commit_env \<Rightarrow> nat list \<Rightarrow> 'v CommitDB \<Rightarrow> status \<times> 'v CommitDB" where
  "round_log E commit_batch s =
     (if commit_batch = [] then (OK, s)
      else let (log_t0, s1) = NowMicros E s;
               (st, called, v) = CommitLog E (map (\<lambda>i. req_edit (requests s1 i)) commit_batch) (versions s1);
               s2 = s1\<lparr>versions := v\<rparr>;
               s3 = (if called then fold (commit_callback st) commit_batch s2 else s2);
               (log_t1, s4) = NowMicros E s3;
               c = vstats s4
           in (st, s4\<lparr>vstats := c\<lparr>commit_batches := commit_batches c + 1,
                        commit_jobs := commit_jobs c + of_nat (length commit_batch),
                        commit_leader_log_apply_us := commit_leader_log_apply_us c + (log_t1 - log_t0)\<rparr>\<rparr>))"

definition round_account :: "'v commit_env \<Rightarrow> nat list \<Rightarrow> status \<times> 'v CommitDB \<Rightarrow> status \<times> 'v CommitDB" where
  "round_account E commit_batch res =
     (case res of (st, s) \<Rightarrow>
        if ok st
        then let (refill_status, _, s1) = RefillVirtualL0WindowLocked E None (fold account_request commit_batch s)
             in (if ok refill_status then st else refill_status, s1)
        else (st, s))"

definition finish_left ::  "u64 \<Rightarrow> u64 \<Rightarrow> nat \<Rightarrow> nat \<Rightarrow> 'v CommitDB \<Rightarrow> 'v CommitDB" where
  "finish_left start_us done_us n i s =
     (if req_done (requests s i) then s else mark_done i OK start_us done_us n s)"

definition round_finish ::
    "'v commit_env \<Rightarrow> nat list \<Rightarrow> nat list \<Rightarrow> u64 \<Rightarrow> status \<times> 'v CommitDB \<Rightarrow> 'v CommitDB" where
  "round_finish E batch commit_batch start_us res =
     (case res of (st, s) \<Rightarrow>
        let (done_us, s1) = NowMicros E s;
            s2 = fold (\<lambda>i. mark_done i st start_us done_us (length commit_batch)) commit_batch s1
        in fold (finish_left start_us done_us (length batch)) batch s2)"

definition round_end :: "'v commit_env \<Rightarrow> nat list \<Rightarrow> nat list \<Rightarrow> u64 \<Rightarrow> 'v CommitDB \<Rightarrow> 'v CommitDB" where
  "round_end E batch commit_batch start_us s =
     round_finish E batch commit_batch start_us (round_account E commit_batch (round_log E commit_batch s))"

definition commit_round :: "'v commit_env \<Rightarrow> nat \<Rightarrow> 'v CommitDB \<Rightarrow> 'v CommitDB" where
  "commit_round E cap s =
     (case round_begin E cap s of (batch, commit_batch, start_us, s1) \<Rightarrow>
        round_end E batch commit_batch start_us s1)"

lemma pop_batch_split:
  "pop_batch cap cfd_of cfd batch queue = (batch', queue') \<Longrightarrow>
    \<exists>t. batch' = batch @ t \<and> queue = t @ queue' \<and> (\<forall>i \<in> set t. cfd_of i = cfd) \<and>
      length batch' \<le> max cap (length batch)"
proof (induction cap cfd_of cfd batch queue rule: pop_batch.induct)
  case (2 cap cfd_of cfd batch i queue)
  show ?case
  proof (cases "length batch < cap \<and> cfd_of i = cfd")
    case True
    with 2 obtain t where "batch' = (batch @ [i]) @ t" "queue = t @ queue'" "\<forall>i \<in> set t. cfd_of i = cfd"
      "length batch' \<le> max cap (length (batch @ [i]))" by auto
    then show ?thesis using True by (intro exI [of _ "i # t"]) auto
  next
    case False
    then show ?thesis using "2.prems" by auto
  qed
qed simp

lemma pop_batch_head:
  assumes "0 < cap" "queue \<noteq> []" "pop_batch cap cfd_of (cfd_of (hd queue)) [] queue = (batch, queue')"
  shows "length queue' < length queue"
proof -
  obtain i q where q: "queue = i # q" using assms(2) by (cases queue) auto
  have "pop_batch cap cfd_of (cfd_of i) [i] q = (batch, queue')" using assms q by simp
  from pop_batch_split [OF this] show ?thesis using q by auto
qed

section \<open>Frames\<close>

text \<open>Refilling and accounting leave the fields of the commit queue alone.\<close>

lemma more_simps [simp]:
  "DBImpl.more (snd (NowMicros E s)) = DBImpl.more s"
  "DBImpl.more (note_pressure p s) = DBImpl.more s"
  "DBImpl.more (refill_commit batch bytes s) = DBImpl.more s"
  "DBImpl.more (refill_rollback batch s) = DBImpl.more s"
  "DBImpl.more (add_times a b c d s) = DBImpl.more s"
  "DBImpl.more (AccountVirtualL0CompactionLocked a b c d s) = DBImpl.more s"
  by (auto simp: NowMicros_def note_pressure_def refill_commit_def refill_rollback_def add_times_def
      AccountVirtualL0CompactionLocked_def Let_def split: Pressure.splits)

lemma more_refill_begin: "refill_begin target t s = (batch, bytes, s') \<Longrightarrow> DBImpl.more s' = DBImpl.more s"
  by (auto simp: refill_begin_def Let_def split: prod.splits)

lemma more_refill_iteration:
  assumes "refill_iteration E target stats s = (res, stats', s')"
  shows "DBImpl.more s' = DBImpl.more s"
proof (cases "pressure E s = kStop")
  case True
  then show ?thesis using assms by (auto simp: refill_iteration_def Let_def)
next
  case False
  obtain batch bytes s3 where b: "refill_begin target (pressure E s = kSlowdown)
      (snd (NowMicros E (note_pressure (pressure E s) s))) = (batch, bytes, s3)"
    by (cases "refill_begin target (pressure E s = kSlowdown) (snd (NowMicros E (note_pressure (pressure E s) s)))") auto
  have "DBImpl.more s3 = DBImpl.more s" using more_refill_begin [OF b] by simp
  moreover have "DBImpl.more s' = DBImpl.more s3"
    using assms b False
    by (auto simp: refill_iteration_def NowMicros_def Let_def split: if_splits prod.splits)
  ultimately show ?thesis by simp
qed

lemma more_refill_loop: "refill_loop E target t stats s = (st, stats', s') \<Longrightarrow> DBImpl.more s' = DBImpl.more s"
proof (induction E target t stats s rule: refill_loop.induct)
  case (1 E target t stats s)
  show ?case
  proof (cases "virtual_l0_pending s \<noteq> [] \<and> virtual_l0_visible_bytes s < target \<and> \<not> t")
    case False
    show ?thesis
      using "1.prems" unfolding refill_loop.simps [of E target t stats s] if_not_P [OF False] by simp
  next
    case True
    obtain res stats1 s1 where it: "refill_iteration E target stats s = (res, stats1, s1)"
      by (cases "refill_iteration E target stats s") auto
    show ?thesis
    proof (cases res)
      case (Inl st')
      then have "s' = s1" using "1.prems" True it by (subst (asm) refill_loop.simps) simp
      then show ?thesis using more_refill_iteration [OF it] by simp
    next
      case (Inr t')
      then have "refill_loop E target t' stats1 s1 = (st, stats', s')"
        using "1.prems" True it by (subst (asm) refill_loop.simps) simp
      with "1.IH" [OF True it [symmetric] Inr refl] more_refill_iteration [OF it] show ?thesis by simp
    qed
  qed
qed

lemma more_refill:
  "RefillVirtualL0WindowLocked E stats s = (st, stats', s') \<Longrightarrow> DBImpl.more s' = DBImpl.more s"
  by (auto simp: RefillVirtualL0WindowLocked_def Let_def split: if_splits list.splits dest: more_refill_loop)

lemma commit_fields:
  assumes "DBImpl.more s' = DBImpl.more (s :: 'v CommitDB)"
  shows "commit_queue s' = commit_queue s" "requests s' = requests s" "released s' = released s"
    "commit_in_progress s' = commit_in_progress s" "vstats s' = vstats s"
  using assms by (cases s; cases s'; simp)+

section \<open>What a round does to the requests\<close>

definition done_set :: "'v CommitDB \<Rightarrow> nat set" where
  "done_set s = {i. req_done (requests s i)}"

text \<open>Each compaction is released at most once, and a finished request was released.\<close>

definition release_inv :: "'v CommitDB \<Rightarrow> bool" where
  "release_inv s \<longleftrightarrow> distinct (map fst (released s)) \<and>
     (\<forall>i. compaction_released (requests s i) = Some True \<longleftrightarrow> i \<in> fst ` set (released s)) \<and>
     (\<forall>i. req_done (requests s i) \<longrightarrow> compaction_released (requests s i) \<noteq> Some False)"

lemma upd_req_simps [simp]:
  "commit_queue (upd_req i f s) = commit_queue s" "released (upd_req i f s) = released s"
  "commit_in_progress (upd_req i f s) = commit_in_progress s" "versions (upd_req i f s) = versions s"
  "requests (upd_req i f s) = (requests s)(i := f (requests s i))"
  by (simp_all add: upd_req_def)

lemma release_request_simps [simp]:
  "commit_queue (release_request i st s) = commit_queue s"
  "commit_in_progress (release_request i st s) = commit_in_progress s"
  "versions (release_request i st s) = versions s"
  "done_set (release_request i st s) = done_set s"
  by (auto simp: release_request_def done_set_def upd_req_def)

lemma release_request_fields [simp]:
  "input_file_numbers (requests (release_request i st s) j) = input_file_numbers (requests s j)"
  "req_cfd (requests (release_request i st s) j) = req_cfd (requests s j)"
  by (simp_all add: release_request_def)

lemma release_inv_release_request:
  assumes "release_inv s"
  shows "release_inv (release_request i st s)"
proof (cases "compaction_released (requests s i) = Some False")
  case True
  have "(compaction_released (requests s i) = Some True) = (i \<in> fst ` set (released s))"
    using assms unfolding release_inv_def by blast
  with True have "i \<notin> fst ` set (released s)" by simp
  with True show ?thesis using assms by (simp add: release_inv_def release_request_def)
next
  case False
  then show ?thesis using assms by (simp add: release_request_def)
qed

lemma mark_done_simps [simp]:
  "commit_queue (mark_done i st a b n s) = commit_queue s"
  "commit_in_progress (mark_done i st a b n s) = commit_in_progress s"
  "versions (mark_done i st a b n s) = versions s"
  "done_set (mark_done i st a b n s) = insert i (done_set s)"
  "input_file_numbers (requests (mark_done i st a b n s) j) = input_file_numbers (requests s j)"
  "req_cfd (requests (mark_done i st a b n s) j) = req_cfd (requests s j)"
  by (auto simp: mark_done_def done_set_def release_request_def upd_req_def)

lemma release_inv_mark_done:
  assumes "release_inv s"
  shows "release_inv (mark_done i st a b n s)"
proof -
  let ?s1 = "upd_req i (\<lambda>r. r\<lparr>req_status := st, commit_start_us := a, commit_done_us := b, req_batch_size := of_nat n\<rparr>) s"
  have "release_inv ?s1" using assms by (auto simp: release_inv_def)
  then have "release_inv (release_request i st ?s1)" by (rule release_inv_release_request)
  moreover have "compaction_released (requests (release_request i st ?s1) i) \<noteq> Some False"
    by (simp add: release_request_def)
  ultimately show ?thesis unfolding mark_done_def by (auto simp: release_inv_def)
qed

lemma is_current_mark_done [simp]: "is_current E (mark_done i st a b n s) j = is_current E s j"
  by (simp add: is_current_def)

lemma screen_batch_eq:
  "screen_batch E start n batch cb s =
     (cb @ filter (is_current E s) batch,
      fold (\<lambda>i. mark_done i OK start start n) (filter (\<lambda>i. \<not> is_current E s i) batch) s)"
  by (induction E start n batch cb s rule: screen_batch.induct) auto

lemma fold_mark_done:
  "commit_queue (fold (\<lambda>i. mark_done i st a b n) is s) = commit_queue s"
  "commit_in_progress (fold (\<lambda>i. mark_done i st a b n) is s) = commit_in_progress s"
  "done_set (fold (\<lambda>i. mark_done i st a b n) is s) = set is \<union> done_set s"
  "release_inv s \<Longrightarrow> release_inv (fold (\<lambda>i. mark_done i st a b n) is s)"
  by (induction "is" arbitrary: s) (auto simp: release_inv_mark_done)

lemma finish_left_simps:
  "commit_queue (finish_left a b n i s) = commit_queue s"
  "commit_in_progress (finish_left a b n i s) = commit_in_progress s"
  "done_set (finish_left a b n i s) = insert i (done_set s)"
  "release_inv s \<Longrightarrow> release_inv (finish_left a b n i s)"
proof -
  show "done_set (finish_left a b n i s) = insert i (done_set s)"
  proof (cases "i \<in> done_set s")
    case True
    then have "finish_left a b n i s = s" by (simp add: finish_left_def done_set_def)
    then show ?thesis using True by (simp add: insert_absorb)
  next
    case False
    then have "finish_left a b n i s = mark_done i OK a b n s" by (simp add: finish_left_def done_set_def)
    then show ?thesis by simp
  qed
qed (simp_all add: finish_left_def release_inv_mark_done)

lemma fold_finish_left:
  "commit_queue (fold (finish_left a b n) is s) = commit_queue s"
  "commit_in_progress (fold (finish_left a b n) is s) = commit_in_progress s"
  "done_set (fold (finish_left a b n) is s) = set is \<union> done_set s"
  "release_inv s \<Longrightarrow> release_inv (fold (finish_left a b n) is s)"
  by (induction "is" arbitrary: s) (auto simp: finish_left_simps)

lemma same_requests:
  assumes "requests s' = requests s" "released s' = released s"
  shows "done_set s' = done_set s" "release_inv s' = release_inv s"
  using assms by (simp_all add: done_set_def release_inv_def)

lemma commit_callback_simps [simp]:
  "commit_queue (commit_callback st i s) = commit_queue s"
  "commit_in_progress (commit_callback st i s) = commit_in_progress s"
  "done_set (commit_callback st i s) = done_set s"
  by (auto simp: commit_callback_def done_set_def release_request_def upd_req_def)

lemma release_inv_commit_callback: "release_inv s \<Longrightarrow> release_inv (commit_callback st i s)"
  unfolding commit_callback_def
  by (rule release_inv_release_request) (simp add: release_inv_def)

lemma fold_commit_callback:
  "commit_queue (fold (commit_callback st) is s) = commit_queue s"
  "commit_in_progress (fold (commit_callback st) is s) = commit_in_progress s"
  "done_set (fold (commit_callback st) is s) = done_set s"
  "release_inv s \<Longrightarrow> release_inv (fold (commit_callback st) is s)"
  by (induction "is" arbitrary: s) (auto simp: release_inv_commit_callback)

lemma now_fields [simp]:
  "commit_queue (snd (NowMicros E s)) = commit_queue s"
  "commit_in_progress (snd (NowMicros E s)) = commit_in_progress s"
  "requests (snd (NowMicros E s)) = requests s" "released (snd (NowMicros E s)) = released s"
  by (simp_all add: NowMicros_def)

text \<open>The part of the state the protocol is about.\<close>

definition protocol :: "'v CommitDB \<Rightarrow> nat list \<times> bool \<times> nat set" where
  "protocol s = (commit_queue s, commit_in_progress s, done_set s)"

lemma round_log_protocol:
  assumes "round_log E cb s = (st, s')"
  shows "protocol s' = protocol s" "release_inv s \<Longrightarrow> release_inv s'"
proof -
  have "protocol s' = protocol s \<and> (release_inv s \<longrightarrow> release_inv s')"
  proof (cases "cb = []")
    case True
    then show ?thesis using assms by (simp add: round_log_def)
  next
    case False
    obtain st' called v where l: "CommitLog E (map (\<lambda>i. req_edit (requests s i)) cb) (versions s) = (st', called, v)"
      using prod_cases3 by blast
    define s2 where "s2 = (snd (NowMicros E s))\<lparr>versions := v\<rparr>"
    define s3 where "s3 = (if called then fold (commit_callback st') cb s2 else s2)"
    have "requests s2 = requests s" "released s2 = released s" by (simp_all add: s2_def)
    note sr2 = same_requests [OF this]
    have s2: "protocol s2 = protocol s" "release_inv s2 = release_inv s"
      using sr2 by (simp_all add: protocol_def) (simp_all add: s2_def)
    have s3: "protocol s3 = protocol s2" "release_inv s2 \<Longrightarrow> release_inv s3"
      by (simp_all add: s3_def protocol_def fold_commit_callback)
    have f: "commit_queue s' = commit_queue s3" "commit_in_progress s' = commit_in_progress s3"
        "requests s' = requests s3" "released s' = released s3"
      using assms False l by (auto simp: round_log_def NowMicros_def s3_def s2_def Let_def)
    have "protocol s' = protocol s3" "release_inv s' = release_inv s3"
      using same_requests [OF f(3,4)] f(1,2) by (simp_all add: protocol_def)
    then show ?thesis using s2 s3 by simp
  qed
  then show "protocol s' = protocol s" "release_inv s \<Longrightarrow> release_inv s'" by auto
qed

lemma more_fold_account: "DBImpl.more (fold account_request cb s) = DBImpl.more (s :: 'v CommitDB)"
  by (induction cb arbitrary: s) (simp_all add: account_request_def Let_def)

lemma more_protocol:
  assumes "DBImpl.more s' = DBImpl.more (s :: 'v CommitDB)"
  shows "protocol s' = protocol s" "release_inv s' = release_inv s"
  using commit_fields [OF assms] by (simp_all add: protocol_def done_set_def release_inv_def)

lemma round_account_protocol:
  assumes "round_account E cb (st, s) = (st', s')"
  shows "protocol s' = protocol s" "release_inv s' = release_inv s"
proof -
  have "DBImpl.more s' = DBImpl.more s"
    using assms more_refill [of E None "fold account_request cb s"]
    by (auto simp: round_account_def more_fold_account Let_def split: if_splits prod.splits)
  then show "protocol s' = protocol s" "release_inv s' = release_inv s" by (rule more_protocol)+
qed

lemma round_end_protocol:
  "protocol (round_end E batch cb start s) =
     (commit_queue s, commit_in_progress s, set batch \<union> set cb \<union> done_set s)"
  "release_inv s \<Longrightarrow> release_inv (round_end E batch cb start s)"
proof -
  obtain st1 s1 where l: "round_log E cb s = (st1, s1)" by fastforce
  obtain st2 s2 where a: "round_account E cb (st1, s1) = (st2, s2)" by fastforce
  note p = round_log_protocol [OF l] round_account_protocol [OF a]
  have e: "round_end E batch cb start s = round_finish E batch cb start (st2, s2)"
    by (simp add: round_end_def l a)
  have q: "commit_queue s2 = commit_queue s" "commit_in_progress s2 = commit_in_progress s" "done_set s2 = done_set s"
    using p(1,3) by (simp_all add: protocol_def)
  let ?t = "fst (NowMicros E s2)" and ?s3 = "snd (NowMicros E s2)"
  have s3: "done_set ?s3 = done_set s2" "release_inv ?s3 = release_inv s2" by (rule same_requests; simp)+
  have f: "round_finish E batch cb start (st2, s2) =
      fold (finish_left start ?t (length batch)) batch (fold (\<lambda>i. mark_done i st2 start ?t (length cb)) cb ?s3)"
    by (simp add: round_finish_def Let_def case_prod_beta)
  show "protocol (round_end E batch cb start s) =
     (commit_queue s, commit_in_progress s, set batch \<union> set cb \<union> done_set s)"
    unfolding e f protocol_def by (simp add: fold_finish_left fold_mark_done s3 q Un_assoc)
  assume "release_inv s"
  then have "release_inv ?s3" using p(2,4) s3 by simp
  then show "release_inv (round_end E batch cb start s)"
    unfolding e f by (intro fold_finish_left fold_mark_done)
qed

lemma round_begin_protocol:
  assumes "round_begin E cap s = (batch, cb, start, s')" "0 < cap" "commit_queue s \<noteq> []"
  shows "commit_queue s = batch @ commit_queue s'" "length (commit_queue s') < length (commit_queue s)"
    "commit_in_progress s' = commit_in_progress s" "set cb \<subseteq> set batch"
    "done_set s' = (set batch - set cb) \<union> done_set s" "release_inv s \<Longrightarrow> release_inv s'"
proof -
  let ?c = "\<lambda>i. req_cfd (requests s i)"
  obtain b q where pb: "pop_batch cap ?c (?c (hd (commit_queue s))) [] (commit_queue s) = (b, q)" by fastforce
  define s1 where "s1 = snd (NowMicros E (s\<lparr>commit_queue := q\<rparr>))"
  have s1: "commit_queue s1 = q" "commit_in_progress s1 = commit_in_progress s" "done_set s1 = done_set s"
      "release_inv s1 = release_inv s"
    by (auto simp: s1_def NowMicros_def done_set_def release_inv_def)
  have r: "batch = b" "cb = filter (is_current E s1) b"
      "s' = fold (\<lambda>i. mark_done i OK start start (length b)) (filter (\<lambda>i. \<not> is_current E s1 i) b) s1"
    using assms(1) pb by (auto simp: round_begin_def s1_def screen_batch_eq NowMicros_def Let_def)
  show "commit_queue s = batch @ commit_queue s'"
    using pop_batch_split [OF pb] by (auto simp: r fold_mark_done s1)
  show "length (commit_queue s') < length (commit_queue s)"
    using pop_batch_head [OF assms(2,3) pb] by (simp add: r fold_mark_done s1)
  show "commit_in_progress s' = commit_in_progress s" by (simp add: r fold_mark_done s1)
  show "set cb \<subseteq> set batch" by (simp add: r)
  show "done_set s' = (set batch - set cb) \<union> done_set s" by (auto simp: r fold_mark_done s1)
  assume "release_inv s"
  then show "release_inv s'" unfolding r using s1 by (intro fold_mark_done) simp
qed

text \<open>A round releases the compactions of its own batch only.\<close>

definition rel_ids :: "'v CommitDB \<Rightarrow> nat set" where
  "rel_ids s = fst ` set (released s)"

lemma rel_ids_request: "rel_ids (release_request i st s) \<subseteq> insert i (rel_ids s)"
  by (auto simp: rel_ids_def release_request_def)

lemma rel_ids_mark_done: "rel_ids (mark_done i st a b n s) \<subseteq> insert i (rel_ids s)"
  using rel_ids_request [of i st "upd_req i (\<lambda>r. r\<lparr>req_status := st, commit_start_us := a, commit_done_us := b,
      req_batch_size := of_nat n\<rparr>) s"]
  by (simp add: mark_done_def rel_ids_def)

lemma rel_ids_fold:
  assumes "\<And>i s. rel_ids (f i s) \<subseteq> insert i (rel_ids s)"
  shows "rel_ids (fold f is s) \<subseteq> set is \<union> rel_ids s"
proof (induction "is" arbitrary: s)
  case (Cons i "is")
  have "rel_ids (fold f (i # is) s) \<subseteq> set is \<union> rel_ids (f i s)" using Cons.IH [of "f i s"] by simp
  also have "\<dots> \<subseteq> set (i # is) \<union> rel_ids s" using assms [of i s] by auto
  finally show ?case .
qed simp

lemma rel_ids_round_end: "rel_ids (round_end E batch cb start s) \<subseteq> set batch \<union> set cb \<union> rel_ids s"
proof -
  obtain st1 s1 where l: "round_log E cb s = (st1, s1)" by fastforce
  obtain st2 s2 where a: "round_account E cb (st1, s1) = (st2, s2)" by fastforce
  have r1: "rel_ids s1 \<subseteq> set cb \<union> rel_ids s"
  proof (cases "cb = []")
    case True
    then show ?thesis using l by (simp add: round_log_def)
  next
    case False
    obtain st' called v where c: "CommitLog E (map (\<lambda>i. req_edit (requests s i)) cb) (versions s) = (st', called, v)"
      using prod_cases3 by blast
    define s2 where "s2 = (snd (NowMicros E s))\<lparr>versions := v\<rparr>"
    have "released s1 = released (if called then fold (commit_callback st') cb s2 else s2)"
      using l False c by (auto simp: round_log_def NowMicros_def s2_def Let_def)
    moreover have "rel_ids (commit_callback st' i s) \<subseteq> insert i (rel_ids s)" for i and s :: "'a CommitDB"
      using rel_ids_request [of i st' "if ok st' then s\<lparr>virtual_sst_registry :=
          map_option (publish_request (requests s i)) (virtual_sst_registry s)\<rparr> else s"]
      by (simp add: commit_callback_def rel_ids_def split: if_splits)
    then have "rel_ids (fold (commit_callback st') cb s2) \<subseteq> set cb \<union> rel_ids s2" by (rule rel_ids_fold)
    moreover have "rel_ids s2 = rel_ids s" by (simp add: s2_def rel_ids_def)
    ultimately show ?thesis by (cases called) (auto simp: rel_ids_def)
  qed
  have "DBImpl.more s2 = DBImpl.more s1"
    using a more_refill [of E None "fold account_request cb s1"]
    by (auto simp: round_account_def more_fold_account Let_def split: if_splits prod.splits)
  from commit_fields(3) [OF this] have r2: "rel_ids s2 = rel_ids s1" by (simp add: rel_ids_def)
  let ?t = "fst (NowMicros E s2)" and ?s3 = "snd (NowMicros E s2)"
  let ?s4 = "fold (\<lambda>i. mark_done i st2 start ?t (length cb)) cb ?s3"
  have r4: "rel_ids ?s4 \<subseteq> set cb \<union> rel_ids s2"
    using rel_ids_fold [of "\<lambda>i. mark_done i st2 start ?t (length cb)" cb ?s3, OF rel_ids_mark_done] by (simp add: rel_ids_def)
  have fl: "rel_ids (finish_left start ?t n i s) \<subseteq> insert i (rel_ids s)" for n i and s :: "'a CommitDB"
    using rel_ids_mark_done [of i OK start ?t n s] by (auto simp: finish_left_def)
  have "round_end E batch cb start s = fold (finish_left start ?t (length batch)) batch ?s4"
    by (simp add: round_end_def l a round_finish_def Let_def case_prod_beta)
  then have "rel_ids (round_end E batch cb start s) \<subseteq> set batch \<union> rel_ids ?s4"
    using rel_ids_fold [of "finish_left start ?t (length batch)" batch ?s4, OF fl] by simp
  with r1 r2 r4 show ?thesis by auto
qed

lemma rel_ids_round_begin:
  assumes "round_begin E cap s = (batch, cb, start, s')"
  shows "rel_ids s' \<subseteq> set batch \<union> rel_ids s"
proof -
  let ?c = "\<lambda>i. req_cfd (requests s i)"
  obtain b q where pb: "pop_batch cap ?c (?c (hd (commit_queue s))) [] (commit_queue s) = (b, q)" by fastforce
  define s1 where "s1 = snd (NowMicros E (s\<lparr>commit_queue := q\<rparr>))"
  have "batch = b" and s': "s' = fold (\<lambda>i. mark_done i OK start start (length b)) (filter (\<lambda>i. \<not> is_current E s1 i) b) s1"
    using assms pb by (auto simp: round_begin_def s1_def screen_batch_eq NowMicros_def Let_def)
  moreover have "rel_ids s1 = rel_ids s" by (simp add: s1_def rel_ids_def)
  ultimately show ?thesis
    using rel_ids_fold [of "\<lambda>i. mark_done i OK start start (length b)" "filter (\<lambda>i. \<not> is_current E s1 i) b" s1,
        OF rel_ids_mark_done]
    by auto
qed

section \<open>Threads\<close>

text \<open>
  A thread is named by its request. \<open>submit_request\<close> is the part of the call up to
  the test of \<open>virtual_compaction_commit_in_progress_\<close>.
\<close>

definition submit_request ::
    "'v commit_env \<Rightarrow> nat \<Rightarrow> VirtualCompactionCommitRequest \<Rightarrow> 'v CommitDB \<Rightarrow> 'v CommitDB" where
  "submit_request E i r s =
     (let (t, s1) = NowMicros E s
      in s1\<lparr>requests := (requests s1)(i := r\<lparr>enqueue_us := t\<rparr>), commit_queue := commit_queue s1 @ [i]\<rparr>)"

text \<open>
  The leader's loop, and the whole call. Here nobody arrives while the leader sleeps
  or logs; the step relation below has the arrivals. \<open>others\<close> is what the other
  threads do to the state until \<open>req.done\<close> holds, for a thread that waits. The
  results are the status, \<open>*log_apply_us\<close>, \<open>*commit_queue_wait_us\<close> and
  \<open>*commit_batch_size\<close>.
\<close>

function leader_loop :: "'v commit_env \<Rightarrow> string option \<Rightarrow> 'v CommitDB \<Rightarrow> 'v CommitDB" where
  "leader_loop E batch_max s =
     (if commit_queue s = [] then s
      else leader_loop E batch_max (commit_round E (max_batch_size batch_max) s))"
  by pat_completeness auto

lemma max_batch_size_pos: "0 < max_batch_size batch_max"
proof -
  have "1 \<le> max 1 (GetVcompEnvUInt64 batch_max 16)" by simp
  then have "unat (1 :: u64) \<le> max_batch_size batch_max" unfolding max_batch_size_def by (simp only: word_le_nat_alt)
  then show ?thesis by simp
qed

lemma commit_round_queue:
  assumes "commit_queue s \<noteq> []" "0 < cap"
  shows "length (commit_queue (commit_round E cap s)) < length (commit_queue s)"
proof -
  obtain batch cb start s' where rb: "round_begin E cap s = (batch, cb, start, s')" using prod_cases4 by blast
  have "commit_queue (commit_round E cap s) = commit_queue s'"
    using round_end_protocol(1) [of E batch cb start s'] by (simp add: commit_round_def rb protocol_def)
  then show ?thesis using round_begin_protocol(2) [OF rb assms(2,1)] by simp
qed

termination leader_loop
  by (relation "measure (\<lambda>(_, _, s). length (commit_queue s))") (simp_all add: commit_round_queue max_batch_size_pos)

declare leader_loop.simps [simp del]

definition CommitVirtualCompactionEdit ::
    "'v commit_env \<Rightarrow> string option \<Rightarrow> ('v CommitDB \<Rightarrow> 'v CommitDB) \<Rightarrow> nat \<Rightarrow> VirtualCompactionCommitRequest \<Rightarrow>
     'v CommitDB \<Rightarrow> (status \<times> u64 \<times> u64 \<times> u64) \<times> 'v CommitDB" where
  "CommitVirtualCompactionEdit E batch_max others i r s =
     (let s1 = submit_request E i r s;
          s2 = (if commit_in_progress s1 then others s1
                else (leader_loop E batch_max (s1\<lparr>commit_in_progress := True\<rparr>))\<lparr>commit_in_progress := False\<rparr>);
          req = requests s2 i;
          queue_wait = (if commit_start_us req > enqueue_us req then commit_start_us req - enqueue_us req else 0);
          total_commit_us = (if commit_done_us req > enqueue_us req then commit_done_us req - enqueue_us req else 0)
      in ((req_status req, total_commit_us, queue_wait, req_batch_size req), s2))"

text \<open>
  The threads of the call. \<open>Waiting\<close> is the loop \<open>while (!req.done) Wait()\<close>, and the
  waiting threads in \<open>asleep\<close> are blocked in \<open>Wait\<close>. \<open>flight\<close> is the round whose edits
  are being logged.
\<close>

datatype pc = Waiting | Leading | Returned

record 'v commit_run =
  cdb :: "'v CommitDB"
  pcs :: "nat \<Rightarrow> pc option"
  flight :: "(nat list \<times> nat list \<times> u64) option"
  asleep :: "nat set"

text \<open>
  The steps of the threads that are inside the call. The end of a round and the end of
  the leader's loop wake everybody; a thread that is awake returns when its request is
  done and goes back to sleep otherwise. While the leader sleeps for the batch delay it is
  between two rounds.
\<close>

inductive commit_work :: "'v commit_env \<Rightarrow> nat \<Rightarrow> 'v commit_run \<Rightarrow> 'v commit_run \<Rightarrow> bool" for E cap where
  begin_round: "pcs x i = Some Leading \<Longrightarrow> flight x = None \<Longrightarrow> commit_queue (cdb x) \<noteq> [] \<Longrightarrow>
    round_begin E cap (cdb x) = (batch, cb, start_us, s') \<Longrightarrow>
    commit_work E cap x (x\<lparr>cdb := s', flight := Some (batch, cb, start_us)\<rparr>)"
| end_round: "flight x = Some (batch, cb, start_us) \<Longrightarrow>
    commit_work E cap x (x\<lparr>cdb := round_end E batch cb start_us (cdb x), flight := None,
                           asleep := SignalAll (asleep x)\<rparr>)"
| leave: "pcs x i = Some Leading \<Longrightarrow> flight x = None \<Longrightarrow> commit_queue (cdb x) = [] \<Longrightarrow>
    commit_work E cap x (x\<lparr>cdb := (cdb x)\<lparr>commit_in_progress := False\<rparr>, pcs := (pcs x)(i \<mapsto> Returned),
                           asleep := SignalAll (asleep x)\<rparr>)"
| wake: "pcs x i = Some Waiting \<Longrightarrow> i \<notin> asleep x \<Longrightarrow> req_done (requests (cdb x) i) \<Longrightarrow>
    commit_work E cap x (x\<lparr>pcs := (pcs x)(i \<mapsto> Returned)\<rparr>)"
| sleep: "pcs x i = Some Waiting \<Longrightarrow> i \<notin> asleep x \<Longrightarrow> \<not> req_done (requests (cdb x) i) \<Longrightarrow>
    commit_work E cap x (x\<lparr>asleep := Wait i (asleep x)\<rparr>)"

text \<open>
  A thread enters and signals once, other code changes the rest of the database state,
  or a thread wakes up without a signal. A follower finds its request not done and waits
  in the same critical section.
\<close>

inductive commit_arrive :: "'v commit_env \<Rightarrow> 'v commit_run \<Rightarrow> 'v commit_run \<Rightarrow> bool" for E where
  follow: "pcs x i = None \<Longrightarrow> \<not> req_done r \<Longrightarrow> compaction_released r \<noteq> Some True \<Longrightarrow>
    commit_in_progress (cdb x) \<Longrightarrow> Signal (asleep x) w \<Longrightarrow>
    commit_arrive E x (x\<lparr>cdb := submit_request E i r (cdb x), pcs := (pcs x)(i \<mapsto> Waiting), asleep := Wait i w\<rparr>)"
| lead: "pcs x i = None \<Longrightarrow> \<not> req_done r \<Longrightarrow> compaction_released r \<noteq> Some True \<Longrightarrow>
    \<not> commit_in_progress (cdb x) \<Longrightarrow> Signal (asleep x) w \<Longrightarrow>
    commit_arrive E x (x\<lparr>cdb := (submit_request E i r (cdb x))\<lparr>commit_in_progress := True\<rparr>,
                         pcs := (pcs x)(i \<mapsto> Leading), asleep := w\<rparr>)"
| interfere: "DBImpl.more s' = DBImpl.more (cdb x) \<Longrightarrow> commit_arrive E x (x\<lparr>cdb := s'\<rparr>)"
| spurious: "i \<in> asleep x \<Longrightarrow> commit_arrive E x (x\<lparr>asleep := asleep x - {i}\<rparr>)"

definition commit_step :: "'v commit_env \<Rightarrow> nat \<Rightarrow> 'v commit_run \<Rightarrow> 'v commit_run \<Rightarrow> bool" where
  "commit_step E cap x y \<longleftrightarrow> commit_work E cap x y \<or> commit_arrive E x y"

definition commit_start :: "'v CommitDB \<Rightarrow> 'v commit_run" where
  "commit_start s = \<lparr>cdb = s, pcs = (\<lambda>_. None), flight = None, asleep = {}\<rparr>"

text \<open>A run with the number of rounds that ended in it.\<close>

inductive commit_rounds :: "'v commit_env \<Rightarrow> nat \<Rightarrow> nat \<Rightarrow> 'v commit_run \<Rightarrow> 'v commit_run \<Rightarrow> bool" for E cap where
  none: "commit_rounds E cap 0 x x"
| next_step: "commit_rounds E cap n x y \<Longrightarrow> commit_step E cap y z \<Longrightarrow>
    commit_rounds E cap (if flight y \<noteq> None \<and> flight z = None then Suc n else n) x z"

definition idle_db :: "'v CommitDB \<Rightarrow> bool" where
  "idle_db s \<longleftrightarrow> commit_queue s = [] \<and> \<not> commit_in_progress s \<and> released s = [] \<and>
     (\<forall>i. compaction_released (requests s i) = None \<and> \<not> req_done (requests s i))"

text \<open>The threads inside the call, and the requests of the round being logged.\<close>

definition active :: "'v commit_run \<Rightarrow> nat set" where
  "active x = {i. pcs x i = Some Waiting \<or> pcs x i = Some Leading}"

definition logging_requests :: "'v commit_run \<Rightarrow> nat list" where
  "logging_requests x = (case flight x of None \<Rightarrow> [] | Some (_, cb, _) \<Rightarrow> cb)"

definition commit_inv :: "'v commit_run \<Rightarrow> bool" where
  "commit_inv x \<longleftrightarrow> finite (active x) \<and>
     (commit_in_progress (cdb x) \<longleftrightarrow> (\<exists>i. pcs x i = Some Leading)) \<and>
     (\<forall>i j. pcs x i = Some Leading \<longrightarrow> pcs x j = Some Leading \<longrightarrow> i = j) \<and>
     (flight x \<noteq> None \<longrightarrow> commit_in_progress (cdb x)) \<and>
     (\<not> commit_in_progress (cdb x) \<longrightarrow> commit_queue (cdb x) = []) \<and>
     (\<forall>batch cb t. flight x = Some (batch, cb, t) \<longrightarrow> set batch \<subseteq> set cb \<union> done_set (cdb x)) \<and>
     (\<forall>i. i \<in> set (commit_queue (cdb x)) \<union> set (logging_requests x) \<longleftrightarrow>
        i \<in> active x \<and> i \<notin> done_set (cdb x)) \<and>
     (\<forall>i. pcs x i = Some Returned \<longrightarrow> i \<in> done_set (cdb x)) \<and>
     (\<forall>i. pcs x i = None \<longrightarrow> i \<notin> done_set (cdb x) \<and> i \<notin> rel_ids (cdb x)) \<and>
     distinct (commit_queue (cdb x) @ logging_requests x) \<and>
     release_inv (cdb x)"

text \<open>The invariant does not look at who is asleep; sleepers have their own.\<close>

lemma commit_inv_asleep [simp]: "commit_inv (x\<lparr>asleep := w\<rparr>) = commit_inv x"
  by (simp add: commit_inv_def active_def logging_requests_def)

definition sleep_inv :: "'v commit_run \<Rightarrow> bool" where
  "sleep_inv x \<longleftrightarrow> (\<forall>i \<in> asleep x. pcs x i = Some Waiting) \<and>
     (flight x = None \<longrightarrow> asleep x \<inter> done_set (cdb x) = {})"

lemma commit_invD:
  assumes "commit_inv x"
  shows "finite (active x)"
    and "commit_in_progress (cdb x) \<longleftrightarrow> (\<exists>i. pcs x i = Some Leading)"
    and "pcs x i = Some Leading \<Longrightarrow> pcs x j = Some Leading \<Longrightarrow> i = j"
    and "flight x \<noteq> None \<Longrightarrow> commit_in_progress (cdb x)"
    and "\<not> commit_in_progress (cdb x) \<Longrightarrow> commit_queue (cdb x) = []"
    and "flight x = Some (batch, cb, t) \<Longrightarrow> set batch \<subseteq> set cb \<union> done_set (cdb x)"
    and "i \<in> set (commit_queue (cdb x)) \<union> set (logging_requests x) \<longleftrightarrow> i \<in> active x \<and> i \<notin> done_set (cdb x)"
    and "pcs x i = Some Returned \<Longrightarrow> i \<in> done_set (cdb x)"
    and "pcs x i = None \<Longrightarrow> i \<notin> done_set (cdb x) \<and> i \<notin> rel_ids (cdb x)"
    and "distinct (commit_queue (cdb x) @ logging_requests x)"
    and "release_inv (cdb x)"
  using assms unfolding commit_inv_def by blast+

lemma submit_fields:
  "commit_queue (submit_request E i r s) = commit_queue s @ [i]"
  "commit_in_progress (submit_request E i r s) = commit_in_progress s"
  "released (submit_request E i r s) = released s"
  "\<not> req_done r \<Longrightarrow> done_set (submit_request E i r s) = done_set s - {i}"
  by (auto simp: submit_request_def NowMicros_def done_set_def Let_def)

lemma release_inv_submit:
  assumes "release_inv s" "i \<notin> rel_ids s" "\<not> req_done r" "compaction_released r \<noteq> Some True"
  shows "release_inv (submit_request E i r s)"
  using assms by (auto simp: release_inv_def submit_request_def NowMicros_def rel_ids_def Let_def)

lemma commit_inv_submit:
  assumes inv: "commit_inv x" and i: "pcs x i = None" "\<not> req_done r" "compaction_released r \<noteq> Some True"
    and s': "s' = (submit_request E i r (cdb x))\<lparr>commit_in_progress := True\<rparr>"
    and p: "p = (if commit_in_progress (cdb x) then Waiting else Leading)"
  shows "commit_inv (x\<lparr>cdb := s', pcs := (pcs x)(i \<mapsto> p)\<rparr>)"
proof -
  let ?y = "x\<lparr>cdb := s', pcs := (pcs x)(i \<mapsto> p)\<rparr>"
  have nd: "i \<notin> done_set (cdb x)" "i \<notin> rel_ids (cdb x)" "i \<notin> active x"
    using inv i(1) by (auto simp: commit_inv_def active_def)
  have f: "commit_queue s' = commit_queue (cdb x) @ [i]" "commit_in_progress s'" "released s' = released (cdb x)"
      "done_set s' = done_set (cdb x)"
    using i(2) nd(1) by (auto simp: s' submit_request_def NowMicros_def done_set_def Let_def)
  have "release_inv (submit_request E i r (cdb x))"
    using inv nd(2) i(2,3) by (intro release_inv_submit) (simp_all add: commit_inv_def)
  then have ri: "release_inv s'" by (simp add: s' release_inv_def)
  have act: "active ?y = insert i (active x)" using p by (auto simp: active_def)
  have lr: "logging_requests ?y = logging_requests x" by (simp add: logging_requests_def)
  note D = commit_invD [OF inv]
  have lead: "(\<exists>j. ((pcs x)(i \<mapsto> p)) j = Some Leading)"
  proof (cases "commit_in_progress (cdb x)")
    case True
    then obtain j where "pcs x j = Some Leading" using inv unfolding commit_inv_def by blast
    moreover from this i(1) have "j \<noteq> i" by auto
    ultimately show ?thesis by (intro exI [of _ j]) simp
  next
    case False
    then show ?thesis using p by (intro exI [of _ i]) simp
  qed
  have uniq: "((pcs x)(i \<mapsto> p)) a = Some Leading \<Longrightarrow> ((pcs x)(i \<mapsto> p)) b = Some Leading \<Longrightarrow> a = b" for a b
    using D(3) [of a b] D(2) p by (auto split: if_splits)
  show ?thesis
    unfolding commit_inv_def act lr
  proof (intro conjI allI impI)
    fix batch cb t assume "flight ?y = Some (batch, cb, t)"
    then show "set batch \<subseteq> set cb \<union> done_set (cdb ?y)" using D(6) [of batch cb t] f by simp
  next
    fix j
    show "(j \<in> set (commit_queue (cdb ?y)) \<union> set (logging_requests x)) =
        (j \<in> insert i (active x) \<and> j \<notin> done_set (cdb ?y))"
      using D(7) [of j] f nd by auto
  next
    fix j assume "pcs ?y j = Some Returned"
    then show "j \<in> done_set (cdb ?y)" using D(8) [of j] f p by (auto split: if_splits)
  next
    fix j assume "pcs ?y j = None"
    then have "pcs x j = None" by (auto split: if_splits)
    then show "j \<notin> done_set (cdb ?y)" "j \<notin> rel_ids (cdb ?y)" using D(9) [of j] f by (auto simp: rel_ids_def)
  next
    show "distinct (commit_queue (cdb ?y) @ logging_requests x)"
      using D(10) D(7) [of i] nd(3) f by auto
  next
    fix a b assume "pcs ?y a = Some Leading" "pcs ?y b = Some Leading"
    then show "a = b" using uniq [of a b] by simp
  next
    show "commit_in_progress (cdb ?y) = (\<exists>i. pcs ?y i = Some Leading)" using f(2) lead by simp
  qed (use D(1) f ri in simp_all)
qed

lemma commit_inv_begin_round:
  assumes inv: "commit_inv x" and ld: "pcs x l = Some Leading" and "flight x = None" "commit_queue (cdb x) \<noteq> []" "0 < cap"
    and rb: "round_begin E cap (cdb x) = (batch, cb, start, s')"
  shows "commit_inv (x\<lparr>cdb := s', flight := Some (batch, cb, start)\<rparr>)"
proof -
  let ?y = "x\<lparr>cdb := s', flight := Some (batch, cb, start)\<rparr>"
  note D = commit_invD [OF inv]
  note r = round_begin_protocol [OF rb assms(5,4)]
  have lr: "logging_requests x = []" "logging_requests ?y = cb" using assms(3) by (simp_all add: logging_requests_def)
  have act: "active ?y = active x" by (simp add: active_def)
  have d: "distinct (batch @ commit_queue s')" using D(10) r(1) lr(1) by simp
  have mem: "i \<in> set batch \<union> set (commit_queue s') \<longleftrightarrow> i \<in> active x \<and> i \<notin> done_set (cdb x)" for i
    using D(7) [of i] r(1) lr(1) by simp
  have dcb: "distinct cb"
  proof -
    let ?c = "\<lambda>i. req_cfd (requests (cdb x) i)"
    obtain b q where "pop_batch cap ?c (?c (hd (commit_queue (cdb x)))) [] (commit_queue (cdb x)) = (b, q)" by fastforce
    then have "\<exists>P. cb = filter P batch" using rb by (auto simp: round_begin_def screen_batch_eq NowMicros_def Let_def)
    then show ?thesis using d by auto
  qed
  show ?thesis
    unfolding commit_inv_def act lr
  proof (intro conjI allI impI)
    fix i
    show "(i \<in> set (commit_queue (cdb ?y)) \<union> set cb) = (i \<in> active x \<and> i \<notin> done_set (cdb ?y))"
      using mem [of i] r(4,5) d by auto
  next
    fix i assume "pcs ?y i = None"
    then have n: "pcs x i = None" by simp
    then have "i \<notin> active x" by (simp add: active_def)
    then have "i \<notin> set batch" using mem [of i] by auto
    then show "i \<notin> done_set (cdb ?y)" "i \<notin> rel_ids (cdb ?y)"
      using D(9) [OF n] r(5) rel_ids_round_begin [OF rb] by auto
  next
    show "distinct (commit_queue (cdb ?y) @ cb)" using d dcb r(4) by auto
  next
    fix i assume "pcs ?y i = Some Returned"
    then show "i \<in> done_set (cdb ?y)" using D(8) [of i] r(5) by simp
  next
    fix b c t assume "flight ?y = Some (b, c, t)"
    then show "set b \<subseteq> set c \<union> done_set (cdb ?y)" using r(5) by auto
  next
    fix a b assume "pcs ?y a = Some Leading" "pcs ?y b = Some Leading"
    then show "a = b" using D(3) [of a b] by simp
  next
    show "commit_in_progress (cdb ?y) = (\<exists>i. pcs ?y i = Some Leading)" using D(2) r(3) by simp
  next
    assume "\<not> commit_in_progress (cdb ?y)"
    then show "commit_queue (cdb ?y) = []" using D(2) r(3) ld by auto
  qed (use D(1,2) r(3,6) ld D(11) in auto)
qed

lemma commit_inv_end_round:
  assumes inv: "commit_inv x" and fl: "flight x = Some (batch, cb, start)"
  shows "commit_inv (x\<lparr>cdb := round_end E batch cb start (cdb x), flight := None\<rparr>)"
proof -
  let ?s = "round_end E batch cb start (cdb x)"
  let ?y = "x\<lparr>cdb := ?s, flight := None\<rparr>"
  note D = commit_invD [OF inv]
  have r: "commit_queue ?s = commit_queue (cdb x)" "commit_in_progress ?s = commit_in_progress (cdb x)"
      "done_set ?s = set cb \<union> done_set (cdb x)"
    using round_end_protocol(1) [of E batch cb start "cdb x"] D(6) [OF fl] by (auto simp: protocol_def)
  have lr: "logging_requests x = cb" "logging_requests ?y = []" using fl by (simp_all add: logging_requests_def)
  have act: "active ?y = active x" by (simp add: active_def)
  show ?thesis
    unfolding commit_inv_def act lr
  proof (intro conjI allI impI)
    fix i
    have "i \<in> set (commit_queue (cdb x)) \<Longrightarrow> i \<notin> set cb" using D(10) lr(1) by auto
    then show "(i \<in> set (commit_queue (cdb ?y)) \<union> set []) = (i \<in> active x \<and> i \<notin> done_set (cdb ?y))"
      using D(7) [of i] r lr(1) by auto
  next
    fix i assume "pcs ?y i = None"
    then have n: "pcs x i = None" by simp
    then have na: "i \<notin> active x" by (simp add: active_def)
    then have "i \<notin> set cb" using D(7) [of i] lr(1) by auto
    moreover have "i \<notin> set batch" using D(6) [OF fl] D(9) [OF n] \<open>i \<notin> set cb\<close> by auto
    ultimately show "i \<notin> done_set (cdb ?y)" "i \<notin> rel_ids (cdb ?y)"
      using D(9) [OF n] r(3) rel_ids_round_end [of E batch cb start "cdb x"] by auto
  next
    show "distinct (commit_queue (cdb ?y) @ [])" using D(10) r(1) by simp
  next
    fix i assume "pcs ?y i = Some Returned"
    then show "i \<in> done_set (cdb ?y)" using D(8) [of i] r(3) by simp
  next
    fix a b assume "pcs ?y a = Some Leading" "pcs ?y b = Some Leading"
    then show "a = b" using D(3) [of a b] by simp
  next
    show "commit_in_progress (cdb ?y) = (\<exists>i. pcs ?y i = Some Leading)" using D(2) r(2) by simp
  next
    assume "\<not> commit_in_progress (cdb ?y)"
    then show "commit_queue (cdb ?y) = []" using D(5) r by simp
  next
    show "release_inv (cdb ?y)" using round_end_protocol(2) [OF D(11)] by simp
  qed (use D(1) in simp_all)
qed

lemma commit_inv_leave:
  assumes inv: "commit_inv x" and ld: "pcs x l = Some Leading" and fl: "flight x = None" and q: "commit_queue (cdb x) = []"
  shows "commit_inv (x\<lparr>cdb := (cdb x)\<lparr>commit_in_progress := False\<rparr>, pcs := (pcs x)(l \<mapsto> Returned)\<rparr>)"
proof -
  note D = commit_invD [OF inv]
  have lr: "logging_requests x = []" using fl by (simp add: logging_requests_def)
  have la: "l \<in> active x" using ld by (simp add: active_def)
  then have ldone: "l \<in> done_set (cdb x)" using D(7) [of l] q lr by simp
  have e: "i \<in> done_set (cdb x)" if "i \<in> active x" for i using D(7) [of i] q lr that by simp
  have no: "((pcs x)(l \<mapsto> Returned)) i \<noteq> Some Leading" for i using D(3) [OF ld, of i] by auto
  have act: "active (x\<lparr>cdb := (cdb x)\<lparr>commit_in_progress := False\<rparr>, pcs := (pcs x)(l \<mapsto> Returned)\<rparr>) = active x - {l}"
    by (auto simp: active_def)
  have sr: "done_set ((cdb x)\<lparr>commit_in_progress := False\<rparr>) = done_set (cdb x)"
    "release_inv ((cdb x)\<lparr>commit_in_progress := False\<rparr>) = release_inv (cdb x)" by (rule same_requests; simp)+
  show ?thesis
    unfolding commit_inv_def act
    using D(1,11) q fl lr no e D(8,9) ldone
    by (auto simp: sr logging_requests_def rel_ids_def split: if_splits)
qed

lemma commit_inv_wake:
  assumes inv: "commit_inv x" and w: "pcs x i = Some Waiting" and "req_done (requests (cdb x) i)"
  shows "commit_inv (x\<lparr>pcs := (pcs x)(i \<mapsto> Returned)\<rparr>)"
proof -
  let ?y = "x\<lparr>pcs := (pcs x)(i \<mapsto> Returned)\<rparr>"
  note D = commit_invD [OF inv]
  have dn: "i \<in> done_set (cdb x)" using assms(3) by (simp add: done_set_def)
  have act: "active ?y = active x - {i}" by (auto simp: active_def)
  have lr: "logging_requests ?y = logging_requests x" by (simp add: logging_requests_def)
  have ld: "(pcs ?y j = Some Leading) = (pcs x j = Some Leading)" for j using w by simp
  show ?thesis
    unfolding commit_inv_def act lr
  proof (intro conjI allI impI)
    show "commit_in_progress (cdb ?y) = (\<exists>j. pcs ?y j = Some Leading)" unfolding ld using D(2) by simp
  next
    fix a b assume "pcs ?y a = Some Leading" "pcs ?y b = Some Leading"
    then show "a = b" unfolding ld by (rule D(3))
  next
    fix b c t assume "flight ?y = Some (b, c, t)"
    then show "set b \<subseteq> set c \<union> done_set (cdb ?y)" using D(6) [of b c t] by simp
  next
    fix j
    show "(j \<in> set (commit_queue (cdb ?y)) \<union> set (logging_requests x)) =
        (j \<in> active x - {i} \<and> j \<notin> done_set (cdb ?y))" using D(7) [of j] dn by auto
  next
    fix j assume "pcs ?y j = Some Returned"
    then show "j \<in> done_set (cdb ?y)" using D(8) [of j] dn by (auto split: if_splits)
  next
    fix j assume "pcs ?y j = None"
    then have "pcs x j = None" by (auto split: if_splits)
    then show "j \<notin> done_set (cdb ?y)" "j \<notin> rel_ids (cdb ?y)" using D(9) [of j] by auto
  qed (use D(1,4,5,10,11) in simp_all)
qed

lemma commit_inv_interfere:
  assumes "commit_inv x" "DBImpl.more s' = DBImpl.more (cdb x)"
  shows "commit_inv (x\<lparr>cdb := s'\<rparr>)"
proof -
  have e: "active (x\<lparr>cdb := s'\<rparr>) = active x" "logging_requests (x\<lparr>cdb := s'\<rparr>) = logging_requests x"
    by (simp_all add: active_def logging_requests_def)
  have f: "done_set s' = done_set (cdb x)" "release_inv s' = release_inv (cdb x)" "rel_ids s' = rel_ids (cdb x)"
    using commit_fields [OF assms(2)] by (simp_all add: done_set_def release_inv_def rel_ids_def)
  have g: "cdb (x\<lparr>cdb := s'\<rparr>) = s'" "pcs (x\<lparr>cdb := s'\<rparr>) = pcs x" "flight (x\<lparr>cdb := s'\<rparr>) = flight x" by simp_all
  show ?thesis using assms(1) unfolding commit_inv_def e g f commit_fields [OF assms(2)] .
qed

lemma commit_inv_step:
  assumes "commit_inv x" "commit_step E cap x y" "0 < cap"
  shows "commit_inv y"
  using assms(2) unfolding commit_step_def
proof
  assume "commit_work E cap x y"
  then show ?thesis
  proof cases
    case begin_round
    then show ?thesis using commit_inv_begin_round [OF assms(1) _ _ _ assms(3)] by simp
  next
    case end_round
    then show ?thesis using commit_inv_end_round [OF assms(1)] by simp
  next
    case leave
    then show ?thesis using commit_inv_leave [OF assms(1)] by simp
  next
    case wake
    then show ?thesis using commit_inv_wake [OF assms(1)] by simp
  next
    case sleep
    then show ?thesis using assms(1) by simp
  qed
next
  assume "commit_arrive E x y"
  then show ?thesis
  proof cases
    case (follow i r)
    have "(submit_request E i r (cdb x))\<lparr>commit_in_progress := True\<rparr> = submit_request E i r (cdb x)"
      using follow(5) submit_fields(2) [of E i r "cdb x"] by simp
    then show ?thesis using commit_inv_submit [OF assms(1) follow(2,3,4) refl refl, of E] follow by simp
  next
    case (lead i r)
    then show ?thesis using commit_inv_submit [OF assms(1) lead(2,3,4) refl refl, of E] by simp
  next
    case interfere
    then show ?thesis using commit_inv_interfere [OF assms(1)] by simp
  next
    case spurious
    then show ?thesis using assms(1) by simp
  qed
qed

lemma sleep_inv_step:
  assumes "sleep_inv x" "commit_inv x" "commit_step E cap x y"
  shows "sleep_inv y"
  using assms(3) unfolding commit_step_def
proof
  assume "commit_work E cap x y"
  then show ?thesis
    using assms(1) by cases (auto simp: sleep_inv_def SignalAll_def Wait_def done_set_def)
next
  assume "commit_arrive E x y"
  then show ?thesis
  proof cases
    case (follow i r w)
    have "i \<notin> done_set (cdb x)" using commit_invD(9) [OF assms(2) follow(2)] by blast
    then have "done_set (submit_request E i r (cdb x)) = done_set (cdb x)"
      using submit_fields(4) [OF follow(3), of E i "cdb x"] by simp
    then show ?thesis
      using assms(1) follow \<open>i \<notin> done_set (cdb x)\<close> Signal_subset [OF follow(6)]
      by (auto simp: sleep_inv_def Wait_def)
  next
    case (lead i r w)
    have "i \<notin> done_set (cdb x)" using commit_invD(9) [OF assms(2) lead(2)] by blast
    then have "done_set ((submit_request E i r (cdb x))\<lparr>commit_in_progress := True\<rparr>) = done_set (cdb x)"
      using submit_fields(4) [OF lead(3), of E i "cdb x"] by (simp add: done_set_def)
    then show ?thesis using assms(1) lead Signal_subset [OF lead(6)] by (auto simp: sleep_inv_def)
  next
    case (interfere s')
    then have "done_set s' = done_set (cdb x)" using commit_fields(2) [OF interfere(2)] by (simp add: done_set_def)
    then show ?thesis using assms(1) interfere by (simp add: sleep_inv_def)
  next
    case spurious
    then show ?thesis using assms(1) by (auto simp: sleep_inv_def)
  qed
qed

section \<open>Every request is answered\<close>

text \<open>
  What is left to do: two steps for each queued request, one for a round being logged,
  one for the leader. After each of them every thread may be awake, test its request and
  sleep again.
\<close>

definition rounds_left :: "'v commit_run \<Rightarrow> nat" where
  "rounds_left x = 2 * length (commit_queue (cdb x)) + (if flight x = None then 0 else 1) +
     (if commit_in_progress (cdb x) then 1 else 0)"

definition awake :: "'v commit_run \<Rightarrow> nat set" where
  "awake x = active x - asleep x"

definition work_left :: "'v commit_run \<Rightarrow> nat" where
  "work_left x = rounds_left x * Suc (card (active x)) + card (active x) + card (awake x)"

lemma awake_le: "finite (active x) \<Longrightarrow> card (awake x) \<le> card (active x)"
  by (simp add: awake_def card_mono)

lemma work_left_round:
  assumes "rounds_left y < rounds_left x" "active y \<subseteq> active x" "finite (active x)"
  shows "work_left y < work_left x"
proof -
  have c: "card (active y) \<le> card (active x)" "card (awake y) \<le> card (active y)"
    using assms(2,3) awake_le [of y] by (auto intro: card_mono dest: finite_subset)
  have "work_left y \<le> rounds_left y * Suc (card (active x)) + card (active x) + card (active x)"
    unfolding work_left_def using c by (intro add_mono mult_le_mono) auto
  also have "\<dots> < Suc (rounds_left y) * Suc (card (active x)) + card (active x)" by simp
  also have "\<dots> \<le> rounds_left x * Suc (card (active x)) + card (active x)"
    using assms(1) by (intro add_mono mult_le_mono) auto
  finally show ?thesis by (simp add: work_left_def)
qed

lemma work_left_decreases:
  assumes inv: "commit_inv x" and st: "commit_work E cap x y" and "0 < cap"
  shows "work_left y < work_left x"
  using st
proof cases
  case (begin_round i batch cb start s')
  note r = round_begin_protocol(2,3) [OF begin_round(5) assms(3) begin_round(4)]
  then have "rounds_left y < rounds_left x" using begin_round by (simp add: rounds_left_def)
  then show ?thesis using commit_invD(1) [OF inv] begin_round(1) by (intro work_left_round) (simp_all add: active_def)
next
  case (end_round batch cb start)
  have "rounds_left y < rounds_left x"
    using round_end_protocol(1) [of E batch cb start "cdb x"] end_round by (simp add: protocol_def rounds_left_def)
  then show ?thesis using commit_invD(1) [OF inv] end_round(1) by (intro work_left_round) (simp_all add: active_def)
next
  case (leave i)
  have "commit_in_progress (cdb x)" using commit_invD(2) [OF inv] leave(2) by blast
  then have "rounds_left y < rounds_left x" using leave by (simp add: rounds_left_def)
  then show ?thesis using commit_invD(1) [OF inv] leave(1) by (intro work_left_round) (auto simp: active_def)
next
  case (wake i)
  have a: "active y = active x - {i}" "i \<in> active x" using wake by (auto simp: active_def)
  then have "card (active y) < card (active x)" using commit_invD(1) [OF inv] by (simp only: card_Diff1_less)
  moreover have "awake y \<subseteq> awake x" using a wake(1) by (auto simp: awake_def)
  then have "card (awake y) \<le> card (awake x)" using commit_invD(1) [OF inv] by (intro card_mono) (simp_all add: awake_def)
  moreover have "rounds_left y = rounds_left x" using wake(1) by (simp add: rounds_left_def)
  ultimately show ?thesis
    unfolding work_left_def by (intro add_less_le_mono add_le_less_mono mult_le_mono) auto
next
  case (sleep i)
  have a: "active y = active x" "rounds_left y = rounds_left x" using sleep(1) by (simp_all add: active_def rounds_left_def)
  have "awake y = awake x - {i}" "i \<in> awake x" using sleep by (auto simp: awake_def active_def Wait_def)
  then have "card (awake y) < card (awake x)"
    using commit_invD(1) [OF inv] by (simp only: card_Diff1_less awake_def finite_Diff)
  then show ?thesis using a by (simp add: work_left_def)
qed

lemma commit_work_enabled:
  assumes inv: "commit_inv x" "sleep_inv x" and "active x \<noteq> {}"
  shows "\<exists>y. commit_work E cap x y"
proof (cases "flight x")
  case (Some fl)
  then obtain batch cb start where "flight x = Some (batch, cb, start)" by (cases fl) auto
  from commit_work.end_round [OF this] show ?thesis by blast
next
  case None
  then have lr: "logging_requests x = []" by (simp add: logging_requests_def)
  show ?thesis
  proof (cases "commit_in_progress (cdb x)")
    case True
    then obtain l where l: "pcs x l = Some Leading" using commit_invD(2) [OF inv(1)] by blast
    obtain batch cb start s' where rb: "round_begin E cap (cdb x) = (batch, cb, start, s')" using prod_cases4 by blast
    show ?thesis
      using commit_work.leave [OF l None, of E cap] commit_work.begin_round [OF l None _ rb] by blast
  next
    case False
    obtain i where i: "i \<in> active x" using assms(3) by blast
    have "commit_queue (cdb x) = []" using commit_invD(5) [OF inv(1) False] .
    then have "i \<in> done_set (cdb x)" using commit_invD(7) [OF inv(1), of i] lr i by simp
    moreover from this have "i \<notin> asleep x" using inv(2) None by (auto simp: sleep_inv_def)
    moreover have "pcs x i = Some Waiting"
      using i False commit_invD(2) [OF inv(1)] by (auto simp: active_def)
    ultimately show ?thesis using commit_work.wake [of x i E cap] by (auto simp: done_set_def)
  qed
qed

lemma commit_inv_works:
  assumes "(commit_work E cap)\<^sup>*\<^sup>* x y" "commit_inv x" "sleep_inv x" "0 < cap"
  shows "commit_inv y" "sleep_inv y"
proof -
  have "commit_inv y \<and> sleep_inv y"
    using assms(1)
  proof (induction rule: rtranclp_induct)
    case (step y z)
    then have "commit_step E cap y z" by (simp add: commit_step_def)
    then show ?case using commit_inv_step [OF _ _ assms(4)] sleep_inv_step step.IH by blast
  qed (use assms(2,3) in blast)
  then show "commit_inv y" "sleep_inv y" by blast+
qed

lemma commit_pcs_works:
  assumes "(commit_work E cap)\<^sup>*\<^sup>* x y" "pcs x i \<noteq> None"
  shows "pcs y i \<noteq> None"
  using assms(1)
proof (induction rule: rtranclp_induct)
  case (step y z)
  from step.hyps(2) step.IH show ?case by cases auto
qed (rule assms(2))

lemma commit_inv_reachable:
  assumes "(commit_step E cap)\<^sup>*\<^sup>* (commit_start s) x" "idle_db s" "0 < cap"
  shows "commit_inv x" "sleep_inv x"
proof -
  have "commit_inv x \<and> sleep_inv x"
    using assms(1)
  proof (induction rule: rtranclp_induct)
    case base
    show ?case using assms(2)
      by (simp add: commit_inv_def commit_start_def idle_db_def active_def logging_requests_def done_set_def
          release_inv_def rel_ids_def sleep_inv_def)
  next
    case (step y z)
    then show ?case using commit_inv_step [OF _ step.hyps(2) assms(3)] sleep_inv_step [OF _ _ step.hyps(2)] by blast
  qed
  then show "commit_inv x" "sleep_inv x" by blast+
qed

lemma no_infinite_work:
  assumes "commit_inv x" "sleep_inv x" "0 < cap" "f 0 = x" "\<And>n. commit_work E cap (f n) (f (Suc n))"
  shows False
proof -
  have r: "(commit_work E cap)\<^sup>*\<^sup>* x (f n)" for n
    by (induction n) (use assms(4,5) in \<open>auto intro: rtranclp.rtrancl_into_rtrancl\<close>)
  have "work_left (f (Suc n)) < work_left (f n)" for n
    using work_left_decreases [OF commit_inv_works(1) [OF r assms(1,2,3)] assms(5) assms(3)] .
  then have b: "work_left (f n) + n \<le> work_left (f 0)" for n
  proof (induction n)
    case (Suc n)
    from Suc.prems [of n] Suc.IH [OF Suc.prems] show ?case by simp
  qed simp
  show False using b [of "Suc (work_left (f 0))"] by simp
qed

text \<open>When no step of the call is left, everybody who entered has returned.\<close>

lemma commit_stopped:
  assumes inv: "commit_inv y" "sleep_inv y" and stop: "\<nexists>z. commit_work E cap y z"
  shows "commit_queue (cdb y) = []" "\<not> commit_in_progress (cdb y)"
    "pcs y i \<noteq> None \<Longrightarrow> pcs y i = Some Returned \<and> req_done (requests (cdb y) i) \<and>
       compaction_released (requests (cdb y) i) \<noteq> Some False"
proof -
  have a: "active y = {}" using commit_work_enabled [OF inv, of E cap] stop by blast
  then show np: "\<not> commit_in_progress (cdb y)" using commit_invD(2) [OF inv(1)] by (auto simp: active_def)
  then show "commit_queue (cdb y) = []" by (rule commit_invD(5) [OF inv(1)])
  assume "pcs y i \<noteq> None"
  then obtain p where p: "pcs y i = Some p" by blast
  then have "pcs y i = Some Returned" using a by (cases p) (auto simp: active_def)
  then show "pcs y i = Some Returned \<and> req_done (requests (cdb y) i) \<and> compaction_released (requests (cdb y) i) \<noteq> Some False"
    using commit_invD(8,11) [OF inv(1)] by (simp add: done_set_def release_inv_def)
qed

section \<open>Bounded waiting\<close>

text \<open>
  The rounds that must still end before the request is done: the one being logged, and
  at most one for each request at or before it in the queue.
\<close>

definition rounds_to :: "nat \<Rightarrow> 'v commit_run \<Rightarrow> nat" where
  "rounds_to i x =
     (if i \<in> set (commit_queue (cdb x))
      then Suc (length (takeWhile (\<lambda>j. j \<noteq> i) (commit_queue (cdb x)))) + (if flight x = None then 0 else 1)
      else if i \<in> set (logging_requests x) then 1 else 0)"

lemma rounds_to_bound: "rounds_to i x \<le> Suc (length (commit_queue (cdb x)))"
proof -
  have "length (takeWhile (\<lambda>j. j \<noteq> i) xs) < length xs" if "i \<in> set xs" for xs
    using that by (induction xs) auto
  then show ?thesis using Suc_le_eq by (fastforce simp: rounds_to_def)
qed

lemma rounds_to_begin:
  assumes "flight x = None" "commit_queue (cdb x) \<noteq> []" "round_begin E cap (cdb x) = (batch, cb, start, s')" "0 < cap"
    and "distinct (commit_queue (cdb x))"
  shows "rounds_to i (x\<lparr>cdb := s', flight := Some (batch, cb, start)\<rparr>) \<le> rounds_to i x"
proof -
  let ?y = "x\<lparr>cdb := s', flight := Some (batch, cb, start)\<rparr>" and ?q = "commit_queue (cdb x)"
  note r = round_begin_protocol [OF assms(3,4,2)]
  have q: "?q = batch @ commit_queue s'" using r(1) by simp
  then have ne: "0 < length batch" using r(2) by simp
  have lr: "logging_requests ?y = cb" by (simp add: logging_requests_def)
  show ?thesis
  proof (cases "i \<in> set batch")
    case True
    then have "i \<notin> set (commit_queue s')" using assms(5) q by auto
    then show ?thesis using True lr q by (simp add: rounds_to_def)
  next
    case False
    then have "takeWhile (\<lambda>j. j \<noteq> i) ?q = batch @ takeWhile (\<lambda>j. j \<noteq> i) (commit_queue s')"
      unfolding q by (intro takeWhile_append2) auto
    moreover have "i \<notin> set cb" using False r(4) by auto
    ultimately show ?thesis using False lr q assms(1) ne by (simp add: rounds_to_def Suc_le_eq)
  qed
qed

lemma rounds_to_append:
  assumes "commit_queue (cdb y) = commit_queue (cdb x) @ [j]" "j \<noteq> i" "flight y = flight x"
  shows "rounds_to i y = rounds_to i x"
proof -
  have "logging_requests y = logging_requests x" using assms(3) by (simp add: logging_requests_def)
  moreover have "takeWhile (\<lambda>j. j \<noteq> i) (xs @ [j]) = takeWhile (\<lambda>j. j \<noteq> i) xs" if "i \<in> set xs" for xs
    using that by (intro takeWhile_append1) auto
  ultimately show ?thesis using assms by (auto simp: rounds_to_def)
qed

lemma rounds_to_same:
  "commit_queue (cdb y) = commit_queue (cdb x) \<Longrightarrow> flight y = flight x \<Longrightarrow> rounds_to i y = rounds_to i x"
  by (simp add: rounds_to_def logging_requests_def)

text \<open>No step adds to them, whoever arrives, and the end of a round takes one off.\<close>

lemma rounds_to_step:
  assumes inv: "commit_inv x" and i: "pcs x i \<noteq> None" and st: "commit_step E cap x y" and "0 < cap"
  shows "rounds_to i y = 0 \<or> rounds_to i y + (if flight x \<noteq> None \<and> flight y = None then 1 else 0) \<le> rounds_to i x"
  using st unfolding commit_step_def
proof
  assume "commit_work E cap x y"
  then show ?thesis
  proof cases
    case (begin_round l batch cb start s')
    have "distinct (commit_queue (cdb x))" using commit_invD(10) [OF inv] by simp
    from rounds_to_begin [OF begin_round(3,4,5) assms(4) this] begin_round show ?thesis by simp
  next
    case (end_round batch cb start)
    have "commit_queue (cdb y) = commit_queue (cdb x)"
      using round_end_protocol(1) [of E batch cb start "cdb x"] end_round(1) by (simp add: protocol_def)
    then show ?thesis using end_round by (simp add: rounds_to_def logging_requests_def)
  qed (auto simp: rounds_to_def logging_requests_def)
next
  assume "commit_arrive E x y"
  then have "rounds_to i y = rounds_to i x \<and> flight y = flight x"
  proof cases
    case (follow j r w)
    then show ?thesis using i by (intro conjI rounds_to_append [where j = j]) (auto simp: submit_fields)
  next
    case (lead j r w)
    then show ?thesis using i by (intro conjI rounds_to_append [where j = j]) (auto simp: submit_fields)
  next
    case (interfere s')
    then show ?thesis using commit_fields(1) [OF interfere(2)] by (intro conjI rounds_to_same) simp_all
  next
    case spurious
    then show ?thesis by (intro conjI rounds_to_same) simp_all
  qed
  then show ?thesis by auto
qed

lemma commit_pcs_step: "commit_step E cap x y \<Longrightarrow> pcs x i \<noteq> None \<Longrightarrow> pcs y i \<noteq> None"
  unfolding commit_step_def by (auto elim!: commit_work.cases commit_arrive.cases)

lemma rounds_to_run:
  assumes "commit_rounds E cap n x y" "commit_inv x" "pcs x i \<noteq> None" "0 < cap"
  shows "commit_inv y \<and> pcs y i \<noteq> None \<and> (rounds_to i y = 0 \<or> rounds_to i y + n \<le> rounds_to i x)"
  using assms(1-3)
proof (induction rule: commit_rounds.induct)
  case (next_step n x y z)
  then have y: "commit_inv y" "pcs y i \<noteq> None" "rounds_to i y = 0 \<or> rounds_to i y + n \<le> rounds_to i x" by auto
  from commit_inv_step [OF y(1) next_step.hyps(2) assms(4)] commit_pcs_step [OF next_step.hyps(2) y(2)]
    rounds_to_step [OF y(1,2) next_step.hyps(2) assms(4)] y(3) show ?case by auto
qed simp

lemma answered_after_rounds:
  assumes "commit_rounds E cap n x y" "commit_inv x" "pcs x i \<noteq> None" "0 < cap"
    and "length (commit_queue (cdb x)) < n"
  shows "req_done (requests (cdb y) i)"
proof -
  from rounds_to_run [OF assms(1-4)] have y: "commit_inv y" "pcs y i \<noteq> None"
    and "rounds_to i y = 0 \<or> rounds_to i y + n \<le> rounds_to i x" by blast+
  then have "rounds_to i y = 0" using rounds_to_bound [of i x] assms(5) by linarith
  then have n: "i \<notin> set (commit_queue (cdb y)) \<union> set (logging_requests y)" by (auto simp: rounds_to_def split: if_splits)
  have "i \<in> done_set (cdb y)"
  proof (cases "i \<in> active y")
    case True
    then show ?thesis using n commit_invD(7) [OF y(1), of i] by blast
  next
    case False
    obtain p where p: "pcs y i = Some p" using y(2) by blast
    with False have "pcs y i = Some Returned" by (cases p) (simp_all add: active_def)
    then show ?thesis by (rule commit_invD(8) [OF y(1)])
  qed
  then show ?thesis by (simp add: done_set_def)
qed

lemma commit_progress:
  assumes "idle_db s" "(commit_step E (max_batch_size batch_max))\<^sup>*\<^sup>* (commit_start s) x"
  shows "\<nexists>f. f 0 = x \<and> (\<forall>n. commit_work E (max_batch_size batch_max) (f n) (f (Suc n)))"
    and "\<forall>y. (commit_work E (max_batch_size batch_max))\<^sup>*\<^sup>* x y \<and> (\<nexists>z. commit_work E (max_batch_size batch_max) y z) \<longrightarrow>
           commit_queue (cdb y) = [] \<and> \<not> commit_in_progress (cdb y) \<and>
           (\<forall>i. pcs x i \<noteq> None \<longrightarrow> pcs y i = Some Returned \<and> req_done (requests (cdb y) i) \<and>
              compaction_released (requests (cdb y) i) \<noteq> Some False)"
    and "\<forall>n y i. commit_rounds E (max_batch_size batch_max) n x y \<and> length (commit_queue (cdb x)) < n \<and>
           pcs x i \<noteq> None \<longrightarrow> req_done (requests (cdb y) i)"
    and "\<forall>i \<in> asleep x. pcs x i = Some Waiting \<and> (req_done (requests (cdb x) i) \<longrightarrow> flight x \<noteq> None)"
    and "distinct (map fst (released (cdb x)))"
    and "\<forall>i j. pcs x i = Some Leading \<and> pcs x j = Some Leading \<longrightarrow> i = j"
proof -
  let ?cap = "max_batch_size batch_max"
  note cap = max_batch_size_pos [of batch_max]
  note inv = commit_inv_reachable [OF assms(2,1) cap]
  show "\<nexists>f. f 0 = x \<and> (\<forall>n. commit_work E ?cap (f n) (f (Suc n)))"
    using no_infinite_work [OF inv cap] by blast
  show "distinct (map fst (released (cdb x)))" using commit_invD(11) [OF inv(1)] by (simp add: release_inv_def)
  show "\<forall>i j. pcs x i = Some Leading \<and> pcs x j = Some Leading \<longrightarrow> i = j" using commit_invD(3) [OF inv(1)] by blast
  show "\<forall>n y i. commit_rounds E ?cap n x y \<and> length (commit_queue (cdb x)) < n \<and> pcs x i \<noteq> None \<longrightarrow>
      req_done (requests (cdb y) i)"
    using answered_after_rounds [OF _ inv(1) _ cap] by blast
  show "\<forall>i \<in> asleep x. pcs x i = Some Waiting \<and> (req_done (requests (cdb x) i) \<longrightarrow> flight x \<noteq> None)"
    using inv(2) by (auto simp: sleep_inv_def done_set_def)
  show "\<forall>y. (commit_work E ?cap)\<^sup>*\<^sup>* x y \<and> (\<nexists>z. commit_work E ?cap y z) \<longrightarrow>
           commit_queue (cdb y) = [] \<and> \<not> commit_in_progress (cdb y) \<and>
           (\<forall>i. pcs x i \<noteq> None \<longrightarrow> pcs y i = Some Returned \<and> req_done (requests (cdb y) i) \<and>
              compaction_released (requests (cdb y) i) \<noteq> Some False)"
  proof (intro allI impI, elim conjE)
    fix y assume w: "(commit_work E ?cap)\<^sup>*\<^sup>* x y" and stop: "\<nexists>z. commit_work E ?cap y z"
    note c = commit_stopped [OF commit_inv_works [OF w inv cap] stop]
    show "commit_queue (cdb y) = [] \<and> \<not> commit_in_progress (cdb y) \<and>
           (\<forall>i. pcs x i \<noteq> None \<longrightarrow> pcs y i = Some Returned \<and> req_done (requests (cdb y) i) \<and>
              compaction_released (requests (cdb y) i) \<noteq> Some False)"
      using c(1,2) c(3) [OF commit_pcs_works [OF w]] by blast
  qed
qed


definition demo_request :: "u64 \<Rightarrow> VirtualCompactionCommitRequest" where
  "demo_request n = \<lparr>req_cfd = 0, req_edit = new_edit, pending_outputs = [], input_file_numbers = [n],
     moved_virtuals = None, compaction_released = Some False, l0_input_files = 0, l0_input_bytes = 0,
     l0_output_files = 0, l0_output_bytes = 0, enqueue_us = 0, commit_start_us = 0, commit_done_us = 0,
     req_batch_size = 0, req_status = OK, req_done = False\<rparr>"

definition demo_commit_env :: "unit commit_env" where
  "demo_commit_env = env.extend demo_env \<lparr>CommitLog = (\<lambda>_ v. (OK, True, v)), FileIsCurrent = (\<lambda>_ _ n. n = 1)\<rparr>"

definition demo_commit_db :: "unit CommitDB" where
  "demo_commit_db = DBImpl.extend demo_state
     \<lparr>vstats = zero_stats, commit_queue = [], commit_in_progress = False,
      requests = (\<lambda>_. (demo_request 0)\<lparr>compaction_released := None\<rparr>), released = []\<rparr>"

lemma stops_somewhere:
  assumes "\<nexists>f. f 0 = x \<and> (\<forall>n. R (f n) (f (Suc n)))"
  shows "\<exists>y. R\<^sup>*\<^sup>* x y \<and> (\<nexists>z. R y z)"
proof (rule ccontr)
  assume "\<not> ?thesis"
  then have n: "\<exists>z. R y z" if "R\<^sup>*\<^sup>* x y" for y using that by blast
  have "\<exists>f. \<forall>n. (R\<^sup>*\<^sup>* x (f n) \<and> (n = 0 \<longrightarrow> f n = x)) \<and> R (f n) (f (Suc n))"
  proof (rule dependent_nat_choice)
    fix y and m :: nat assume "R\<^sup>*\<^sup>* x y \<and> (m = 0 \<longrightarrow> y = x)"
    then show "\<exists>z. (R\<^sup>*\<^sup>* x z \<and> (Suc m = 0 \<longrightarrow> z = x)) \<and> R y z"
      using n [of y] by (auto intro: rtranclp.rtrancl_into_rtrancl)
  qed auto
  then show False using assms by blast
qed

text \<open>Thread 0 leads with a current input, thread 1 has queued behind it with a stale one and sleeps.\<close>

lemma demo_commit_run:
  "\<exists>x. (commit_step demo_commit_env cap)\<^sup>*\<^sup>* (commit_start demo_commit_db) x \<and>
     pcs x 0 = Some Leading \<and> pcs x 1 = Some Waiting \<and> asleep x = {1} \<and> pcs x 2 = None \<and> flight x = None \<and>
     commit_queue (cdb x) = [0, 1] \<and> (\<forall>i \<in> {0, 1}. req_cfd (requests (cdb x) i) = 0) \<and>
     input_file_numbers (requests (cdb x) 0) = [1] \<and> input_file_numbers (requests (cdb x) 1) = [2] \<and>
     commit_in_progress (cdb x)"
proof -
  define E x0 where "E = demo_commit_env" and "x0 = commit_start demo_commit_db"
  define x1 where "x1 = x0\<lparr>cdb := (submit_request E 0 (demo_request 1) (cdb x0))\<lparr>commit_in_progress := True\<rparr>,
    pcs := (pcs x0)(0 \<mapsto> Leading), asleep := {}\<rparr>"
  define x2 where "x2 = x1\<lparr>cdb := submit_request E 1 (demo_request 2) (cdb x1), pcs := (pcs x1)(1 \<mapsto> Waiting),
    asleep := Wait 1 {}\<rparr>"
  have r: "\<not> req_done (demo_request n)" "compaction_released (demo_request n) \<noteq> Some True" for n
    by (simp_all add: demo_request_def)
  have x0: "pcs x0 = (\<lambda>_. None)" "\<not> commit_in_progress (cdb x0)" "asleep x0 = {}" "flight x0 = None"
      "commit_queue (cdb x0) = []"
    by (simp_all add: x0_def commit_start_def demo_commit_db_def DBImpl.defs)
  have "commit_arrive E x0 x1" unfolding x1_def using x0 r by (intro commit_arrive.lead) simp_all
  moreover have "commit_in_progress (cdb x1)" "pcs x1 1 = None" "asleep x1 = {}" by (simp_all add: x1_def x0)
  then have "commit_arrive E x1 x2" unfolding x2_def using r by (intro commit_arrive.follow) simp_all
  ultimately have "commit_step E cap x0 x1" "commit_step E cap x1 x2" by (simp_all add: commit_step_def)
  then have "(commit_step E cap)\<^sup>*\<^sup>* x0 x2" by (rule converse_rtranclp_into_rtranclp [OF _ r_into_rtranclp])
  moreover have "pcs x2 0 = Some Leading" "pcs x2 1 = Some Waiting" "asleep x2 = {1}" "pcs x2 2 = None" "flight x2 = None"
      "commit_queue (cdb x2) = [0, 1]" "\<forall>i \<in> {0, 1}. req_cfd (requests (cdb x2) i) = 0"
      "input_file_numbers (requests (cdb x2) 0) = [1]" "input_file_numbers (requests (cdb x2) 1) = [2]"
      "commit_in_progress (cdb x2)"
    by (simp_all add: x2_def x1_def x0 Wait_def submit_request_def NowMicros_def demo_request_def)
  ultimately show ?thesis unfolding E_def x0_def by blast
qed

text \<open>
  A request with a stale input is answered before its round is logged. A thread that
  arrives meanwhile signals, the answered thread wakes up and returns, and its request
  is gone with its stack frame, but the end of the round still reads \<open>done\<close> of every
  request of the batch.
\<close>

lemma answered_returns_early:
  "\<exists>x batch cb t i. (commit_step demo_commit_env (max_batch_size None))\<^sup>*\<^sup>* (commit_start demo_commit_db) x \<and>
     flight x = Some (batch, cb, t) \<and> i \<in> set batch \<and> pcs x i = Some Returned"
proof -
  let ?E = demo_commit_env
  have cap: "max_batch_size None = 16" by (simp add: max_batch_size_def GetVcompEnvUInt64_def)
  obtain x where x: "(commit_step ?E 16)\<^sup>*\<^sup>* (commit_start demo_commit_db) x"
      "pcs x 0 = Some Leading" "pcs x 1 = Some Waiting" "asleep x = {1}" "pcs x 2 = None" "flight x = None"
      "commit_queue (cdb x) = [0, 1]" "\<forall>i \<in> {0, 1}. req_cfd (requests (cdb x) i) = 0"
      "input_file_numbers (requests (cdb x) 0) = [1]" "input_file_numbers (requests (cdb x) 1) = [2]"
      "commit_in_progress (cdb x)"
    using demo_commit_run by blast
  obtain batch cb t s' where rb: "round_begin ?E 16 (cdb x) = (batch, cb, t, s')" using prod_cases4 by blast
  have FC: "FileIsCurrent ?E v c n \<longleftrightarrow> n = 1" for v c n by (simp add: demo_commit_env_def env.defs)
  have b: "batch = [0, 1]" "cb = [0]"
    using rb x(7-10) by (auto simp: round_begin_def NowMicros_def screen_batch_eq is_current_def FC)
  note p = round_begin_protocol(3,5) [OF rb] 
  have s': "commit_in_progress s'" "1 \<in> done_set s'" using p x(7,11) b by auto
  define y where "y = x\<lparr>cdb := s', flight := Some (batch, cb, t)\<rparr>"
  have "commit_work ?E 16 x y" unfolding y_def by (rule commit_work.begin_round [OF x(2,6) _ rb]) (simp add: x(7))
  moreover define z where "z = y\<lparr>cdb := submit_request ?E 2 (demo_request 2) (cdb y), pcs := (pcs y)(2 \<mapsto> Waiting),
    asleep := Wait 2 {}\<rparr>"
  have "commit_arrive ?E y z" unfolding z_def
    by (rule commit_arrive.follow) (use x(4,5) s' in \<open>simp_all add: y_def demo_request_def\<close>)
  moreover have "commit_work ?E 16 z (z\<lparr>pcs := (pcs z)(1 \<mapsto> Returned)\<rparr>)"
    by (rule commit_work.wake)
      (use x(3) s'(2) in \<open>simp_all add: z_def y_def Wait_def submit_request_def NowMicros_def done_set_def\<close>)
  ultimately have "(commit_step ?E 16)\<^sup>*\<^sup>* (commit_start demo_commit_db) (z\<lparr>pcs := (pcs z)(1 \<mapsto> Returned)\<rparr>)"
    using x(1) by (meson commit_step_def rtranclp.rtrancl_into_rtrancl)
  then show ?thesis unfolding cap using b by (intro exI [of _ "z\<lparr>pcs := (pcs z)(1 \<mapsto> Returned)\<rparr>"] exI) (auto simp: z_def y_def)
qed


end
