(* ===== verification/Run_Compaction.thy ===== *)
theory Run_Compaction
  imports Commit_Queue PLR_Merge Split_SSTs
begin

text \<open>
  A whole virtual compaction, \<open>RunVirtualCompaction\<close> in
  \<open>db/db_impl/db_impl_compaction_flush.cc\<close>: the inputs are looked up in the registry,
  merged, split at the grandparents' boundaries, numbered, written into the
  compaction's edit and handed to the group commit. The result is None where a
  conversion from double to integer would be undefined. Log lines are left out, and a
  status carries its first message only.
\<close>

section \<open>The compaction and its environment\<close>

text \<open>
  Input levels with their files, as \<open>inputs_\<close> has them. \<open>cmp_edit\<close> is \<open>c->edit()\<close>.
\<close>

record Compaction =
  cmp_cfd :: u32
  cmp_inputs :: "(int \<times> FileMetaData list) list"
  output_level :: int
  grandparents :: "FileMetaData list"
  cmp_edit :: VersionEdit

text \<open>
  \<open>FileExists\<close> is the existence of the table file of a number and path,
  \<open>Unlocked\<close> what other threads do while the mutex is released for the merge,
  \<open>Others\<close> what they do while the call waits in the commit queue. The four texts are
  the environment variables.
\<close>

record 'v run_env = "'v commit_env" +
  FileExists :: "u64 \<Rightarrow> u32 \<Rightarrow> bool"
  NewFileNumber :: "'v \<Rightarrow> u64 \<times> 'v"
  Unlocked :: "'v CommitDB \<Rightarrow> 'v CommitDB"
  Others :: "'v CommitDB \<Rightarrow> 'v CommitDB"
  batch_max_env :: "string option"
  kmv_samples_env :: "string option"
  kmv_buckets_env :: "string option"

definition commit_part :: "'v run_env \<Rightarrow> 'v commit_env" where
  "commit_part E = commit_env.truncate E"

text \<open>\<open>release_compaction\<close>: the flag is \<open>*compaction_released\<close>.\<close>

definition release_compaction ::
    "nat \<Rightarrow> status \<Rightarrow> bool option \<Rightarrow> 'v CommitDB \<Rightarrow> bool option \<times> 'v CommitDB" where
  "release_compaction i st flag s =
     (if flag = Some False then (Some True, s\<lparr>released := released s @ [(i, st)]\<rparr>) else (flag, s))"

section \<open>Gathering the inputs\<close>

definition input_list :: "Compaction \<Rightarrow> (int \<times> FileMetaData) list" where
  "input_list c = concat (map (\<lambda>(lvl, fs). map (Pair lvl) fs) (cmp_inputs c))"

definition cmp_input_numbers :: "Compaction \<Rightarrow> u64 list" where
  "cmp_input_numbers c = map (\<lambda>(lvl, f). GetNumber (fd f)) (input_list c)"

record gathered =
  input_vssts :: "VirtualSST list"
  input_bytes :: u64
  g_l0_files :: u64
  g_l0_bytes :: u64

text \<open>A file without a descriptor ends the compaction: stale, lost or physical.\<close>

definition missing_input :: "'v run_env \<Rightarrow> 'v \<Rightarrow> u32 \<Rightarrow> FileMetaData \<Rightarrow> status" where
  "missing_input E v cfd fmd =
     (if \<not> FileIsCurrent E v cfd (GetNumber (fd fmd)) then OK
      else if \<not> FileExists E (GetNumber (fd fmd)) (GetPathId (fd fmd))
      then Corruption ''current virtual SST missing from registry''
      else NotSupported ''mixed physical/virtual compaction input'')"

fun gather_inputs ::
    "'v run_env \<Rightarrow> 'v \<Rightarrow> u32 \<Rightarrow> ((int \<times> FileMetaData) \<times> VirtualSST option) list \<Rightarrow> gathered \<Rightarrow> status + gathered" where
  "gather_inputs E v cfd [] g = Inr g"
| "gather_inputs E v cfd (((lvl, fmd), handle) # rest) g =
     (case handle of
        None \<Rightarrow> Inl (missing_input E v cfd fmd)
      | Some d \<Rightarrow>
          gather_inputs E v cfd rest
            \<lparr>input_vssts = input_vssts g @ [d],
             input_bytes = input_bytes g + fd_file_size (fd fmd),
             g_l0_files = (if lvl = 0 then g_l0_files g + 1 else g_l0_files g),
             g_l0_bytes = (if lvl = 0 then g_l0_bytes g + fd_file_size (fd fmd) else g_l0_bytes g)\<rparr>)"

definition run_gather :: "'v run_env \<Rightarrow> Compaction \<Rightarrow> VirtualSSTRegistry \<Rightarrow> 'v \<Rightarrow> status + gathered" where
  "run_gather E c r v =
     gather_inputs E v (cmp_cfd c) (zip (input_list c) (LookupMany r (cmp_input_numbers c)))
       \<lparr>input_vssts = [], input_bytes = 0, g_l0_files = 0, g_l0_bytes = 0\<rparr>"

section \<open>Merging and splitting\<close>

text \<open>The number of input entries, guarded, with the key range.\<close>

fun naive_range :: "VirtualSST list \<Rightarrow> u64 \<Rightarrow> u64 \<Rightarrow> u64 \<Rightarrow> (u64 \<times> u64 \<times> u64) option" where
  "naive_range [] naive gmin gmax = Some (naive, gmin, gmax)"
| "naive_range (v # vs) naive gmin gmax =
     (if num_entries v > u64_max - naive then None
      else naive_range vs (naive + num_entries v) (min gmin (key_min v)) (max gmax (key_max v)))"

definition merge_status :: "u64 \<Rightarrow> status \<times> PLRModel \<times> u64 \<Rightarrow> status + PLRModel \<times> u64" where
  "merge_status naive res =
     (case res of (st, merged, entries) \<Rightarrow>
        if \<not> ok st then Inl st
        else if 0 < naive \<and> Empty merged then Inl (Corruption ''empty virtual merge result'')
        else Inr (merged, entries))"

definition cap_total :: "u64 \<Rightarrow> PLRModel \<times> u64 \<Rightarrow> PLRModel \<times> u64" where
  "cap_total naive m =
     (case m of (merged, entries) \<Rightarrow>
        if entries > naive \<and> 0 < entries
        then (ScalePLRPositions merged (ddiv (du64 naive) (du64 entries)), naive)
        else (merged, entries))"

text \<open>The first eight bytes of a user key, big-endian; None for a key without a footer.\<close>

definition extract_key :: "Slice \<Rightarrow> u64 option" where
  "extract_key ik =
     map_option (\<lambda>user_key. if length user_key \<ge> 8
                            then foldl (\<lambda>k b. push_bit 8 k OR ucast b) 0 (take 8 user_key) else 0)
       (ExtractUserKey ik)"

definition file_bounds :: "FileMetaData \<Rightarrow> (u64 \<times> u64) option" where
  "file_bounds fmd =
     (case (extract_key (smallest fmd), extract_key (largest fmd)) of
        (Some a, Some b) \<Rightarrow> Some (if b < a then (b, a) else (a, b))
      | _ \<Rightarrow> None)"

fun push_bounds :: "FileMetaData list \<Rightarrow> u64 list option" where
  "push_bounds [] = Some []"
| "push_bounds (f # fs) =
     (case (file_bounds f, push_bounds fs) of
        (Some (a, b), Some bs) \<Rightarrow> Some (a # b # bs)
      | _ \<Rightarrow> None)"

definition gp_boundaries :: "FileMetaData list \<Rightarrow> u64 list option" where
  "gp_boundaries gps = map_option (remdups_adj \<circ> sort) (push_bounds gps)"

section \<open>The edit\<close>

definition AddInputDeletions :: "Compaction \<Rightarrow> VersionEdit \<Rightarrow> VersionEdit" where
  "AddInputDeletions c e =
     fold (\<lambda>(lvl, fs). fold (\<lambda>f. DeleteFile lvl (GetNumber (fd f))) fs) (cmp_inputs c) e"

definition output_meta :: "VirtualSSTRegistry \<Rightarrow> u64 \<Rightarrow> VirtualSST \<Rightarrow> FileMetaData" where
  "output_meta r fnum v =
     \<lparr>fd = make_fd fnum 0 (size_bytes v) 0 0,
      smallest = InternalKey (EncodeUserKey r (key_min v)) kMaxSequenceNumber kTypeValue,
      largest = InternalKey (EncodeUserKey r (key_max v)) 0 kTypeValue,
      marked_for_compaction = False, temperature = 0, oldest_blob_file_number = 0,
      oldest_ancester_time = 0, file_creation_time = 0, epoch_number = fnum,
      file_checksum = '''', file_checksum_func_name = '''', unique_id = (0, 0),
      compensated_range_deletion_size = 0, tail_size = 0, user_defined_timestamps_persisted = True\<rparr>"

fun number_outputs :: "'v run_env \<Rightarrow> VirtualSST list \<Rightarrow> 'v \<Rightarrow> (u64 \<times> VirtualSST) list \<times> 'v" where
  "number_outputs E [] v = ([], v)"
| "number_outputs E (o1 # os) v =
     (let (fnum, v1) = NewFileNumber E v; (ps, v2) = number_outputs E os v1 in ((fnum, o1) # ps, v2))"

definition output_edit :: "VirtualSSTRegistry \<Rightarrow> Compaction \<Rightarrow> (u64 \<times> VirtualSST) list \<Rightarrow> VersionEdit" where
  "output_edit r c pending =
     fold (\<lambda>(fnum, v). AddFile (output_level c) (output_meta r fnum v)) pending (AddInputDeletions c (cmp_edit c))"

definition make_request ::
    "VirtualSSTRegistry \<Rightarrow> Compaction \<Rightarrow> bool option \<Rightarrow> gathered \<Rightarrow> (u64 \<times> VirtualSST) list \<Rightarrow> VirtualCompactionCommitRequest" where
  "make_request r c flag g pending =
     \<lparr>req_cfd = cmp_cfd c, req_edit = output_edit r c pending, pending_outputs = pending,
      input_file_numbers = cmp_input_numbers c, moved_virtuals = None, compaction_released = flag,
      l0_input_files = g_l0_files g, l0_input_bytes = g_l0_bytes g,
      l0_output_files = (if output_level c = 0 then of_nat (length pending) else 0),
      l0_output_bytes = (if output_level c = 0 then sum_list (map (size_bytes \<circ> snd) pending) else 0),
      enqueue_us = 0, commit_start_us = 0, commit_done_us = 0, req_batch_size = 0, req_status = OK, req_done = False\<rparr>"

section \<open>The whole call\<close>

text \<open>Merge and split, with the clock readings of the phases.\<close>

definition run_merge ::
    "'v run_env \<Rightarrow> Compaction \<Rightarrow> VirtualSSTRegistry \<Rightarrow> gathered \<Rightarrow> 'v CommitDB \<Rightarrow>
     ((status + VirtualSST list \<times> u64 \<times> u64) \<times> 'v CommitDB) option" where
  "run_merge E c r g s =
     (case naive_range (input_vssts g) 0 u64_max 0 of
        None \<Rightarrow> Some (Inl (InvalidArgument ''virtual input count overflow''), s)
      | Some (naive, gmin, gmax) \<Rightarrow>
          let (merge_t0, s1) = NowMicros E s; inputs = map Some (input_vssts g)
          in case NWayMergeKMVRangeAware inputs of
               None \<Rightarrow> None
             | Some res \<Rightarrow>
                 (case merge_status naive res of
                    Inl st \<Rightarrow> Some (Inl st, s1)
                  | Inr m \<Rightarrow>
                      let (merge_t1, s2) = NowMicros E s1;
                          (split_t0, s3) = NowMicros E s2;
                          (merged, entries) = cap_total naive m
                      in case gp_boundaries (grandparents c) of
                           None \<Rightarrow> None
                         | Some bs \<Rightarrow>
                             (case SplitIntoSSTs (kmv_samples_env E) (kmv_buckets_env E) merged entries
                                     (target_sst_size r) (avg_entry_size r) gmin gmax (output_level c) bs
                                     (Some inputs) 0 (Some (size_model r)) of
                                None \<Rightarrow> None
                              | Some outs \<Rightarrow>
                                  let (split_t1, s4) = NowMicros E s3
                                  in Some (Inr (outs, merge_t1 - merge_t0, split_t1 - split_t0), s4))))"

definition run_commit ::
    "'v run_env \<Rightarrow> Compaction \<Rightarrow> nat \<Rightarrow> bool option \<Rightarrow> gathered \<Rightarrow> VirtualSST list \<Rightarrow> VirtualSSTRegistry \<Rightarrow>
     'v CommitDB \<Rightarrow> ((status \<times> u64 \<times> u64 \<times> u64) \<times> u64 \<times> 'v CommitDB)" where
  "run_commit E c i flag g outs r s =
     (let (edit_t0, s1) = NowMicros E s;
          (pending, v) = number_outputs E outs (versions s1);
          (edit_t1, s2) = NowMicros E (s1\<lparr>versions := v\<rparr>);
          (res, s3) = CommitVirtualCompactionEdit (commit_part E) (batch_max_env E) (Others E) i
                        (make_request r c flag g pending) s2
      in (res, edit_t1 - edit_t0, s3))"

definition count_job ::
    "Compaction \<Rightarrow> VirtualSST list \<Rightarrow> u64 \<Rightarrow> u64 \<Rightarrow> u64 \<Rightarrow> u64 \<Rightarrow> u64 \<Rightarrow> u64 \<Rightarrow> u64 \<Rightarrow> u64 \<Rightarrow> 'v CommitDB \<Rightarrow> 'v CommitDB" where
  "count_job c outs gather merge split mutex_wait edit log_apply total_time queue_wait s =
     (let x = vstats s
      in s\<lparr>vstats := x\<lparr>jobs := jobs x + 1,
            input_files := input_files x + of_nat (length (cmp_input_numbers c)),
            output_files := output_files x + of_nat (length outs),
            gather_us := gather_us x + gather, merge_us := merge_us x + merge, split_us := split_us x + split,
            mutex_wait_us := mutex_wait_us x + mutex_wait, edit_build_us := edit_build_us x + edit,
            vc_log_apply_us := vc_log_apply_us x + log_apply, total_us := total_us x + total_time,
            commit_queue_wait_us := commit_queue_wait_us x + queue_wait\<rparr>\<rparr>)"

text \<open>\<open>i\<close> names the thread's request. The flag is read back from the request the commit worked on.\<close>

definition RunVirtualCompaction ::
    "'v run_env \<Rightarrow> Compaction \<Rightarrow> nat \<Rightarrow> bool option \<Rightarrow> 'v CommitDB \<Rightarrow> (status \<times> bool option \<times> 'v CommitDB) option" where
  "RunVirtualCompaction E c i flag s =
     (case virtual_sst_registry s of None \<Rightarrow> None
      | Some r \<Rightarrow>
     (let (total_t0, s0) = NowMicros E s in
      case run_gather E c r (versions s0) of
        Inl st \<Rightarrow> (let (flag', s') = release_compaction i st flag s0 in Some (st, flag', s'))
      | Inr g \<Rightarrow>
     (let (gather_t1, s1) = NowMicros E s0 in
      if input_vssts g = []
      then (let (flag', s') = release_compaction i OK flag s1 in Some (OK, flag', s'))
      else case run_merge E c r g s1 of
        None \<Rightarrow> None
      | Some (Inl st, s2) \<Rightarrow> (let (flag', s') = release_compaction i st flag (Unlocked E s2) in Some (st, flag', s'))
      | Some (Inr (outs, merge_time, split_time), s2) \<Rightarrow>
     (let (mutex_t0, s3) = NowMicros E s2;
          (mutex_t1, s4) = NowMicros E (Unlocked E s3)
      in case virtual_sst_registry s4 of None \<Rightarrow> None
      | Some r' \<Rightarrow>
     (let ((st, log_apply, queue_wait, _), edit_time, s5) = run_commit E c i flag g outs r' s4;
          (flag', s6) = release_compaction i st (compaction_released (requests s5 i)) s5;
          (total_t1, s7) = NowMicros E s6
      in Some (st, flag', count_job c outs (gather_t1 - total_t0) merge_time split_time (mutex_t1 - mutex_t0)
                 edit_time log_apply (total_t1 - total_t0) queue_wait s7))))))"

section \<open>A commit with nobody else in the queue\<close>

lemma refill_nothing: "virtual_l0_pending s = [] \<Longrightarrow> RefillVirtualL0WindowLocked E stats s = (OK, stats, s)"
  by (simp add: RefillVirtualL0WindowLocked_def)

lemma account_fields [simp]:
  "virtual_l0_pending (account_request i s) = virtual_l0_pending s"
  "virtual_sst_registry (account_request i s) = virtual_sst_registry s"
  "versions (account_request i s) = versions s"
  "requests (account_request i s) = requests s" "released (account_request i s) = released s"
  "commit_queue (account_request i s) = commit_queue s"
  "commit_in_progress (account_request i s) = commit_in_progress s"
  by (simp_all add: account_request_def AccountVirtualL0CompactionLocked_def Let_def)

lemma commit_round_alone:
  assumes "commit_queue s = [i]" "virtual_l0_pending s = []" "virtual_sst_registry s = Some r"
    and "compaction_released (requests s i) = Some False" "0 < cap"
    and "is_current E s i" "CommitLog E [req_edit (requests s i)] (versions s) = (st, called, v)" "called \<or> \<not> ok st"
  defines "s' \<equiv> commit_round E cap s"
  shows "commit_queue s' = []" "released s' = released s @ [(i, st)]" "req_status (requests s' i) = st"
    "compaction_released (requests s' i) = Some True" "versions s' = v"
    "virtual_sst_registry s' = Some (if ok st then publish_request (requests s i) r else r)"
proof -
  have cur: "is_current E (s\<lparr>commit_queue := [], ticks := n\<rparr>) i" for n using assms(6) by (simp add: is_current_def)
  have e: "s' = round_end E [i] [i] (clock E (ticks s)) (s\<lparr>commit_queue := [], ticks := Suc (ticks s)\<rparr>)"
    using assms(1,5) cur by (simp add: s'_def commit_round_def round_begin_def NowMicros_def Let_def)
  show "commit_queue s' = []" "released s' = released s @ [(i, st)]" "req_status (requests s' i) = st"
    "compaction_released (requests s' i) = Some True" "versions s' = v"
    "virtual_sst_registry s' = Some (if ok st then publish_request (requests s i) r else r)"
    unfolding e using assms(2,3,4,7,8)
    by (cases called; simp add: round_end_def round_log_def round_account_def round_finish_def NowMicros_def Let_def
        commit_callback_def mark_done_def finish_left_def release_request_def upd_req_def refill_nothing)+
qed

lemma commit_alone:
  assumes "commit_queue s = []" "\<not> commit_in_progress s" "virtual_l0_pending s = []" "virtual_sst_registry s = Some r"
    and "compaction_released q = Some False"
    and "list_all (FileIsCurrent E (versions s) (req_cfd q)) (input_file_numbers q)"
    and "CommitLog E [req_edit q] (versions s) = (st, called, v)" "called \<or> \<not> ok st"
    and run: "CommitVirtualCompactionEdit E batch_max others i q s = (res, s')"
  shows "fst res = st" "released s' = released s @ [(i, st)]" "compaction_released (requests s' i) = Some True"
    "virtual_sst_registry s' = Some (if ok st then publish_request q r else r)" "versions s' = v"
proof -
  define s1 where "s1 = (submit_request E i q s)\<lparr>commit_in_progress := True\<rparr>"
  define s2 where "s2 = commit_round E (max_batch_size batch_max) s1"
  have s1: "commit_queue s1 = [i]" "virtual_l0_pending s1 = []" "virtual_sst_registry s1 = Some r"
      "compaction_released (requests s1 i) = Some False" "is_current E s1 i" "released s1 = released s"
      "CommitLog E [req_edit (requests s1 i)] (versions s1) = (st, called, v)"
      "publish_request (requests s1 i) r = publish_request q r"
    using assms(1-7) by (simp_all add: s1_def submit_request_def NowMicros_def is_current_def publish_request_def split: option.split)
  note r = commit_round_alone [OF s1(1-4) max_batch_size_pos s1(5,7) assms(8), of batch_max, folded s2_def]
  have "leader_loop E batch_max s1 = s2" using s1(1) r(1) by (simp add: leader_loop.simps s2_def [symmetric])
  then have s': "s' = s2\<lparr>commit_in_progress := False\<rparr>" "fst res = req_status (requests s2 i)"
    using run assms(2)
    by (auto simp: CommitVirtualCompactionEdit_def s1_def Let_def submit_fields)
  show "fst res = st" "released s' = released s @ [(i, st)]" "compaction_released (requests s' i) = Some True"
    "virtual_sst_registry s' = Some (if ok st then publish_request q r else r)" "versions s' = v"
    using s' r s1(6,8) by simp_all
qed

section \<open>The edit and the merge\<close>

lemma deleted_AddInputDeletions:
  "deleted_files (AddInputDeletions c e) =
     deleted_files e \<union> (\<lambda>(lvl, f). (lvl, GetNumber (fd f))) ` set (input_list c)"
  "new_files (AddInputDeletions c e) = new_files e"
proof -
  have lvl: "deleted_files (fold (\<lambda>f. DeleteFile l (GetNumber (fd f))) fs e) =
      deleted_files e \<union> (\<lambda>f. (l, GetNumber (fd f))) ` set fs \<and>
    new_files (fold (\<lambda>f. DeleteFile l (GetNumber (fd f))) fs e) = new_files e" for l fs and e :: VersionEdit
    by (induction fs arbitrary: e) (auto simp: DeleteFile_def)
  have del: "deleted_files (fold (\<lambda>(lvl, fs). fold (\<lambda>f. DeleteFile lvl (GetNumber (fd f))) fs) ls e) =
      deleted_files e \<union> (\<lambda>(lvl, f). (lvl, GetNumber (fd f))) ` set (concat (map (\<lambda>(lvl, fs). map (Pair lvl) fs) ls)) \<and>
    new_files (fold (\<lambda>(lvl, fs). fold (\<lambda>f. DeleteFile lvl (GetNumber (fd f))) fs) ls e) = new_files e" for ls and e :: VersionEdit
  proof (induction ls arbitrary: e)
    case (Cons l ls)
    obtain k fs where l: "l = (k, fs)" by fastforce
    show ?case unfolding l using lvl [of k fs e] Cons.IH [of "fold (\<lambda>f. DeleteFile k (GetNumber (fd f))) fs e"]
      by (auto simp: image_Un image_image)
  qed simp
  show "deleted_files (AddInputDeletions c e) =
     deleted_files e \<union> (\<lambda>(lvl, f). (lvl, GetNumber (fd f))) ` set (input_list c)"
    unfolding AddInputDeletions_def input_list_def by (rule conjunct1 [OF del])
  show "new_files (AddInputDeletions c e) = new_files e"
    unfolding AddInputDeletions_def by (rule conjunct2 [OF del])
qed

lemma output_edit_files:
  "deleted_files (output_edit r c ps) =
     deleted_files (cmp_edit c) \<union> (\<lambda>(lvl, f). (lvl, GetNumber (fd f))) ` set (input_list c)"
  "new_files (output_edit r c ps) =
     new_files (cmp_edit c) @ map (\<lambda>(n, v). (output_level c, output_meta r n v)) ps"
proof -
  have "deleted_files (fold (\<lambda>(n, v). AddFile (output_level c) (output_meta r n v)) ps e) = deleted_files e \<and>
    new_files (fold (\<lambda>(n, v). AddFile (output_level c) (output_meta r n v)) ps e) =
      new_files e @ map (\<lambda>(n, v). (output_level c, output_meta r n v)) ps" for e :: VersionEdit
    by (induction ps arbitrary: e) auto
  then show "deleted_files (output_edit r c ps) =
     deleted_files (cmp_edit c) \<union> (\<lambda>(lvl, f). (lvl, GetNumber (fd f))) ` set (input_list c)"
    "new_files (output_edit r c ps) =
     new_files (cmp_edit c) @ map (\<lambda>(n, v). (output_level c, output_meta r n v)) ps"
    by (simp_all add: output_edit_def deleted_AddInputDeletions)
qed

lemma number_outputs_snd: "number_outputs E outs v = (ps, v') \<Longrightarrow> map snd ps = outs"
  by (induction outs arbitrary: v ps v') (auto simp: Let_def split: prod.splits)

text \<open>A counter hands out consecutive numbers.\<close>

lemma number_outputs_fst:
  assumes "\<And>v. fst (NewFileNumber E v) = next_file v \<and> next_file (snd (NewFileNumber E v)) = next_file v + 1"
  shows "number_outputs E outs v = (ps, v') \<Longrightarrow> map fst ps = map (\<lambda>k. next_file v + of_nat k) [0 ..< length outs]"
proof (induction outs arbitrary: v ps v')
  case (Cons o1 os)
  obtain n v1 where n: "NewFileNumber E v = (n, v1)" by fastforce
  obtain ps' v2 where ps: "number_outputs E os v1 = (ps', v2)" by fastforce
  have nv: "n = next_file v" "next_file v1 = next_file v + 1" using assms [of v] n by simp_all
  have "map fst ps = n # map (\<lambda>k. next_file v1 + of_nat k) [0 ..< length os]"
    using Cons.prems n ps Cons.IH [OF ps] by (auto simp: Let_def)
  also have "\<dots> = map (\<lambda>k. next_file v + of_nat k) (0 # map Suc [0 ..< length os])"
    by (simp add: nv add.assoc)
  also have "0 # map Suc [0 ..< length os] = [0 ..< length (o1 # os)]"
    by (simp add: map_Suc_upt upt_conv_Cons del: upt_Suc)
  finally show ?case .
qed simp

lemma consecutive_distinct: "n \<le> 2 ^ 64 \<Longrightarrow> distinct (map (\<lambda>k. (a :: u64) + of_nat k) [0 ..< n])"
proof -
  assume n: "n \<le> 2 ^ 64"
  have "j = k" if "(of_nat j :: u64) = of_nat k" "j < n" "k < n" for j k
  proof -
    have "unat (of_nat j :: u64) = unat (of_nat k :: u64)" using that(1) by simp
    then show ?thesis using that(2,3) n by (simp add: unat_of_nat)
  qed
  then show ?thesis by (auto simp: distinct_map inj_on_def)
qed

lemma number_outputs_current:
  assumes "\<And>v. FileIsCurrent E (snd (NewFileNumber E v)) = FileIsCurrent E v"
  shows "number_outputs E outs v = (ps, v') \<Longrightarrow> FileIsCurrent E v' = FileIsCurrent E v"
proof (induction outs arbitrary: v ps v')
  case (Cons o1 os)
  obtain n v1 where n: "NewFileNumber E v = (n, v1)" by fastforce
  obtain ps' v2 where "number_outputs E os v1 = (ps', v2)" by fastforce
  with Cons n assms [of v] show ?case by (auto simp: Let_def)
qed simp

lemma NWayMerge_any:
  assumes "vs \<noteq> []" "0 < total_entries (map Some vs)" "total_entries (map Some vs) < 2 ^ 63"
  obtains m t where "NWayMergeKMVRangeAware (map Some vs) = Some (OK, m, t)" "\<not> Empty m"
    "1 \<le> uint t" "uint t \<le> total_entries (map Some vs)"
proof (cases "2 \<le> card (key_points (map Some vs))")
  case True
  from NWayMerge_result [OF assms(2,3) this] obtain m t where
    m: "NWayMergeKMVRangeAware (map Some vs) = Some (OK, m, t)" "1 \<le> uint t" "uint t \<le> total_entries (map Some vs)"
      "tiled (Min (key_points (map Some vs))) (Max (key_points (map Some vs))) (segments m)" by blast
  let ?K = "key_points (map Some vs)"
  have fin: "finite ?K" by (auto simp: key_points_eq)
  then obtain x y where xy: "x \<in> ?K" "y \<in> ?K" "x \<noteq> y"
    using True card_le_Suc0_iff_eq [OF fin] by (auto simp: not_le)
  have "Min ?K \<noteq> Max ?K"
  proof
    assume "Min ?K = Max ?K"
    then have "z = Max ?K" if "z \<in> ?K" for z using Min_le [OF fin that] Max_ge [OF fin that] by simp
    with xy show False by metis
  qed
  then have "\<not> Empty m" using m(4) by (auto simp: Empty_def)
  with m that show thesis by blast
next
  case False
  let ?in = "map Some vs" and ?n = "of_int (total_entries (map Some vs)) :: u64"
  have n: "naive_sum ?in 0 = Some ?n" "uint ?n = total_entries ?in"
    using naive_sum_spec [of ?in 0] assms(2,3) uint_u64_of_int [of "total_entries ?in"] by simp_all
  have "?n \<noteq> 0" "uint ?n < 2 ^ 63" using n(2) assms(2,3) by auto
  from EstimateKMVUnion_bounded [OF this] obtain t
    where t: "EstimateKMVUnionEntries ?in ?n = Some t" "1 \<le> t" "t \<le> ?n" by blast
  let ?b = "breakpoints ?in"
  have kp: "key_points ?in = set ?b" by (simp add: key_points_eq breakpoints_set)
  have "?b \<noteq> []" using assms(1) kp by (cases vs) (auto simp: key_points_eq input_breakpoints_def)
  moreover have "card (set ?b) = length ?b"
    using breakpoints_strict [of ?in] by (simp add: distinct_card strict_sorted_iff)
  ultimately have "length ?b = 1" using False kp by (cases ?b) (auto simp: Suc_le_eq)
  then have "NWayMergeKMVRangeAware ?in = Some (OK, \<lparr>segments = [\<lparr>key_start = hd ?b, key_end = hd ?b, slope = Fin 0,
      intercept = ddiv (du64 t) (Fin 2)\<rparr>]\<rparr>, t)"
    using assms(1) n(1) t(1) \<open>?b \<noteq> []\<close> by (simp add: NWayMergeKMVRangeAware_def Let_def)
  then show thesis using that t(2,3) n(2) by (simp add: Empty_def word_le_def)
qed

section \<open>Splits that return\<close>

text \<open>A descriptor with entries and a key range.\<close>

definition wf_vsst :: "VirtualSST \<Rightarrow> bool" where
  "wf_vsst v \<longleftrightarrow> num_entries v \<noteq> 0 \<and> key_min v \<le> key_max v"

lemma add_run_returns:
  assumes "add_run es eb plr bytes ki ks ntotal gmin gmax first is_last pos_start pos_end later = Some fs"
    and "pos_start < pos_end" "pos_start < ntotal"
  obtains v fs' where "fs = v # fs'" "later = Some fs'" "file_of_run bytes (pos_end - pos_start) v"
  using assms
  by (auto simp: add_run_def build_output_def Let_def file_of_run_def not_less not_le split: option.splits if_splits)

lemma build_outputs_return:
  assumes "gaps_ok k ntotal prev cs" "build_outputs es eb plr bytes ki ks ntotal gmin gmax first prev cs = Some fs"
  shows "list_all2 (file_of_run bytes) (runs ntotal prev cs) fs"
  using assms
proof (induction cs arbitrary: prev first fs)
  case Nil
  then have p: "prev < ntotal" by simp
  have "add_run es eb plr bytes ki ks ntotal gmin gmax first True prev ntotal (Some []) = Some fs" using Nil.prems(2) by simp
  from add_run_returns [OF this p p] show ?case by (metis list_all2_Cons list_all2_Nil option.inject runs.simps(1))
next
  case (Cons c cs)
  then have c: "prev < c" "gaps_ok k ntotal c cs" by auto
  have p: "prev < ntotal" using c(1) gaps_ok_less [OF c(2)] by (rule less_trans)
  have "add_run es eb plr bytes ki ks ntotal gmin gmax first False prev c
      (build_outputs es eb plr bytes ki ks ntotal gmin gmax False c cs) = Some fs" using Cons.prems(2) by simp
  from add_run_returns [OF this c(1) p] obtain v fs' where
    "fs = v # fs'" "build_outputs es eb plr bytes ki ks ntotal gmin gmax False c cs = Some fs'" "file_of_run bytes (c - prev) v"
    by blast
  then show ?case using Cons.IH [OF c(2)] by simp
qed

text \<open>Whenever the split returns, it keeps every entry and its files are well-formed.\<close>

lemma SplitIntoSSTs_returns:
  assumes sp: "SplitIntoSSTs es eb plr ntotal target avg gmin gmax lvl bs ki ks (Some sm) = Some fs"
    and "ntotal \<noteq> 0" "\<not> Empty plr" "avg \<noteq> 0" "Valid sm" "gmin \<le> gmax"
  shows "sum_list (map (unat \<circ> num_entries) fs) = unat ntotal"
    "\<forall>v \<in> set fs. wf_vsst v \<and> size_bytes v = Estimate sm (num_entries v)"
proof -
  have "sum_list (map (unat \<circ> num_entries) fs) = unat ntotal \<and>
    (\<forall>v \<in> set fs. wf_vsst v \<and> size_bytes v = Estimate sm (num_entries v))"
  proof (cases "lvl = 0")
    case True
    with sp assms(2-6) show ?thesis by (auto simp: SplitIntoSSTs_def Let_def wf_vsst_def)
  next
    case False
    define k where "k = entry_limit sm (max_output_size target lvl bs)"
    obtain gps cuts where c: "split_loop (Estimate sm) target k ntotal gps 0 k 0 [] = Some cuts"
        "build_outputs es eb plr sm ki ks ntotal gmin gmax True 0 cuts = Some fs"
      using sp assms(2-5) False by (auto simp: SplitIntoSSTs_def Let_def k_def split: option.splits)
    have "k \<noteq> 0" by (simp add: k_def entry_limit_pos)
    from split_loop_cuts [OF this cut_inv_initial [OF this assms(2)], of "Estimate sm" target gps 0 "[]"] c(1)
    have g: "gaps_ok k ntotal 0 cuts" by auto
    note f = files_of_runs [OF build_outputs_return [OF g c(2)]]
    have "sum_list (map unat (map num_entries fs)) = unat ntotal" using f runs_sum [OF g] by simp
    then have "sum_list (map (unat \<circ> num_entries) fs) = unat ntotal" by (simp only: map_map)
    moreover have "num_entries v \<noteq> 0" if "v \<in> set fs" for v
      using runs_bounds [OF g, of "num_entries v"] that f by (metis image_eqI list.set_map)
    ultimately show ?thesis using f by (simp add: wf_vsst_def)
  qed
  then show "sum_list (map (unat \<circ> num_entries) fs) = unat ntotal"
    "\<forall>v \<in> set fs. wf_vsst v \<and> size_bytes v = Estimate sm (num_entries v)" by blast+
qed

section \<open>The phases\<close>

lemma LookupMany_map: "LookupMany r ns = map (Lookup r) ns"
  by (simp add: LookupMany_def Lookup_def)

lemma gather_inputs_all:
  assumes "\<forall>(x, h) \<in> set xs. h \<noteq> None"
  shows "\<exists>g'. gather_inputs E v cfd xs g = Inr g' \<and> input_vssts g' = input_vssts g @ map (the \<circ> snd) xs"
  using assms
proof (induction E v cfd xs g rule: gather_inputs.induct)
  case (2 E v cfd lvl fmd handle rest g)
  then obtain d where "handle = Some d" by auto
  with 2 show ?case by auto
qed simp

lemma run_gather_all:
  assumes "\<forall>n \<in> set (cmp_input_numbers c). Lookup r n \<noteq> None"
  obtains g where "run_gather E c r v = Inr g" "input_vssts g = map (the \<circ> Lookup r) (cmp_input_numbers c)"
proof -
  let ?z = "zip (input_list c) (LookupMany r (cmp_input_numbers c))"
  have len: "length (input_list c) = length (LookupMany r (cmp_input_numbers c))"
    by (simp add: LookupMany_map cmp_input_numbers_def)
  have "\<forall>(x, h) \<in> set ?z. h \<noteq> None"
    using assms by (auto simp: LookupMany_map dest!: set_zip_rightD)
  from gather_inputs_all [OF this] obtain g where
    g: "run_gather E c r v = Inr g" "input_vssts g = map (the \<circ> snd) ?z"
    unfolding run_gather_def by fastforce
  have "map (the \<circ> snd) ?z = map the (map snd ?z)" by simp
  also have "\<dots> = map (the \<circ> Lookup r) (cmp_input_numbers c)" using len by (simp add: LookupMany_map)
  finally show thesis using that g by simp
qed

definition entries_of :: "VirtualSST list \<Rightarrow> nat" where
  "entries_of vs = sum_list (map (unat \<circ> num_entries) vs)"

lemma entries_of_Cons: "entries_of (v # vs) = unat (num_entries v) + entries_of vs"
  by (simp add: entries_of_def)

lemma total_entries_of: "total_entries (map Some vs) = int (entries_of vs)"
  by (induction vs) (simp_all add: total_entries_def entries_of_def)

lemma naive_range_bounds:
  "naive_range vs naive gmin gmax = Some (n, a, b) \<Longrightarrow>
    a \<le> gmin \<and> gmax \<le> b \<and> (\<forall>v \<in> set vs. a \<le> key_min v \<and> key_max v \<le> b)"
  by (induction vs arbitrary: naive gmin gmax) (fastforce split: if_splits)+

lemma naive_range_count:
  assumes "unat naive + entries_of vs < 2 ^ 64"
  shows "\<exists>a b. naive_range vs naive gmin gmax = Some (of_nat (unat naive + entries_of vs), a, b)"
  using assms
proof (induction vs arbitrary: naive gmin gmax)
  case Nil
  then show ?case by (simp add: entries_of_def)
next
  case (Cons v vs)
  have le: "unat naive + unat (num_entries v) < 2 ^ 64" using Cons.prems by (simp add: entries_of_Cons)
  then have u: "unat (naive + num_entries v) = unat naive + unat (num_entries v)" by (simp add: unat_add_u64)
  have "\<not> num_entries v > u64_max - naive"
    using le by (simp add: word_less_nat_alt unat_sub_u64 unat_u64_max)
  then show ?case
    using Cons.IH [of "naive + num_entries v" "min gmin (key_min v)" "max gmax (key_max v)"] Cons.prems u
    by (simp add: entries_of_Cons add.assoc)
qed

lemma length_le_entries: "\<forall>v \<in> set vs. wf_vsst v \<Longrightarrow> length vs \<le> entries_of vs"
proof (induction vs)
  case (Cons v vs)
  then have "0 < unat (num_entries v)" by (simp add: wf_vsst_def unat_gt_0)
  then show ?case using Cons by (simp add: entries_of_Cons)
qed simp

lemma entries_of_pos: "vs \<noteq> [] \<Longrightarrow> \<forall>v \<in> set vs. wf_vsst v \<Longrightarrow> 0 < entries_of vs"
  by (cases vs) (auto simp: entries_of_Cons wf_vsst_def unat_gt_0)

lemma run_merge_Inr:
  assumes "run_merge E c r g s = Some (Inr (outs, mt, st), s')"
  obtains naive gmin gmax merged entries bs n where
    "naive_range (input_vssts g) 0 u64_max 0 = Some (naive, gmin, gmax)"
    "NWayMergeKMVRangeAware (map Some (input_vssts g)) = Some (OK, merged, entries)"
    "0 < naive \<Longrightarrow> \<not> Empty merged" "s' = s\<lparr>ticks := n\<rparr>"
    "SplitIntoSSTs (kmv_samples_env E) (kmv_buckets_env E) (fst (cap_total naive (merged, entries)))
       (snd (cap_total naive (merged, entries))) (target_sst_size r) (avg_entry_size r) gmin gmax (output_level c) bs
       (Some (map Some (input_vssts g))) 0 (Some (size_model r)) = Some outs"
proof -
  let ?in = "map Some (input_vssts g)"
  obtain naive gmin gmax where nr: "naive_range (input_vssts g) 0 u64_max 0 = Some (naive, gmin, gmax)"
    using assms by (auto simp: run_merge_def split: option.splits)
  have "NWayMergeKMVRangeAware ?in \<noteq> None" using assms by (intro notI) (simp add: run_merge_def nr NowMicros_def Let_def)
  then obtain st0 merged entries where me: "NWayMergeKMVRangeAware ?in = Some (st0, merged, entries)" by auto
  have ms: "merge_status naive (st0, merged, entries) = Inr (merged, entries)" "ok st0" "0 < naive \<Longrightarrow> \<not> Empty merged"
    using assms by (auto simp: run_merge_def nr me NowMicros_def merge_status_def split: if_splits)
  have "gp_boundaries (grandparents c) \<noteq> None"
    using assms by (intro notI) (simp add: run_merge_def nr me ms NowMicros_def Let_def case_prod_beta)
  then obtain bs where bs: "gp_boundaries (grandparents c) = Some bs" by blast
  let ?ct = "cap_total naive (merged, entries)"
  obtain fs where sp: "SplitIntoSSTs (kmv_samples_env E) (kmv_buckets_env E) (fst ?ct) (snd ?ct) (target_sst_size r)
      (avg_entry_size r) gmin gmax (output_level c) bs (Some ?in) 0 (Some (size_model r)) = Some fs"
    using assms by (auto simp: run_merge_def nr me ms bs NowMicros_def Let_def case_prod_beta split: option.splits)
  have "outs = fs" "s' = s\<lparr>ticks := Suc (Suc (Suc (Suc (ticks s))))\<rparr>"
    using assms by (simp_all add: run_merge_def nr me ms bs sp NowMicros_def Let_def case_prod_beta)
  moreover have "NWayMergeKMVRangeAware ?in = Some (OK, merged, entries)" using me ms(2) by (simp add: ok_def)
  ultimately show thesis using that [OF nr _ ms(3)] sp by blast
qed

lemma run_merge_Inl:
  assumes "run_merge E c r g s = Some (Inl st, s')"
  obtains n where "s' = s\<lparr>ticks := n\<rparr>"
proof (cases "naive_range (input_vssts g) 0 u64_max 0")
  case None
  then have "s' = s" using assms by (simp add: run_merge_def)
  then show thesis using that [of "ticks s"] by simp
next
  case (Some ngg)
  obtain naive gmin gmax where ngg: "ngg = (naive, gmin, gmax)" using prod_cases3 by blast
  have "NWayMergeKMVRangeAware (map Some (input_vssts g)) \<noteq> None"
    using assms by (intro notI) (simp add: run_merge_def Some ngg NowMicros_def Let_def)
  then obtain res where me: "NWayMergeKMVRangeAware (map Some (input_vssts g)) = Some res" by blast
  have "s' = s\<lparr>ticks := Suc (ticks s)\<rparr>"
  proof (cases "merge_status naive res")
    case (Inl st1)
    then show ?thesis using assms by (simp add: run_merge_def Some ngg me NowMicros_def)
  next
    case (Inr m)
    then show ?thesis using assms
      by (auto simp: run_merge_def Some ngg me NowMicros_def Let_def case_prod_beta split: option.splits)
  qed
  then show thesis using that by blast
qed

text \<open>The files of a merge are well-formed.\<close>

lemma SplitIntoSSTs_wf:
  assumes "SplitIntoSSTs es eb plr ntotal target avg gmin gmax lvl bs ki ks (Some sm) = Some fs" "gmin \<le> gmax"
  shows "\<forall>v \<in> set fs. wf_vsst v"
proof (cases "ntotal = 0 \<or> Empty plr \<or> avg = 0 \<or> \<not> Valid sm")
  case True
  then have "SplitIntoSSTs es eb plr ntotal target avg gmin gmax lvl bs ki ks (Some sm) = Some []"
    by (elim disjE) (simp_all add: SplitIntoSSTs_def)
  then show ?thesis using assms(1) by simp
next
  case False
  then show ?thesis using SplitIntoSSTs_returns(2) [OF assms(1)] assms(2) by blast
qed

lemma run_merge_wf:
  assumes "run_merge E c r g s = Some (Inr (outs, mt, st), s')"
    and "\<forall>v \<in> set (input_vssts g). wf_vsst v" "input_vssts g \<noteq> []"
  shows "\<forall>v \<in> set outs. wf_vsst v"
  using assms(1)
proof (rule run_merge_Inr)
  fix naive gmin gmax merged entries bs n
  assume nr: "naive_range (input_vssts g) 0 u64_max 0 = Some (naive, gmin, gmax)"
    and sp: "SplitIntoSSTs (kmv_samples_env E) (kmv_buckets_env E) (fst (cap_total naive (merged, entries)))
       (snd (cap_total naive (merged, entries))) (target_sst_size r) (avg_entry_size r) gmin gmax (output_level c) bs
       (Some (map Some (input_vssts g))) 0 (Some (size_model r)) = Some outs"
  obtain v where v: "v \<in> set (input_vssts g)" using assms(3) by (cases "input_vssts g") auto
  then have "gmin \<le> key_min v" "key_min v \<le> key_max v" "key_max v \<le> gmax"
    using naive_range_bounds [OF nr] assms(2) by (auto simp: wf_vsst_def)
  then have "gmin \<le> gmax" by (meson order_trans)
  then show ?thesis using SplitIntoSSTs_wf [OF sp] by blast
qed

text \<open>A merge of fewer than \<open>2 ^ 63\<close> entries that returns keeps between one and all of them.\<close>

lemma run_merge_counts:
  assumes "run_merge E c r g s = Some (res, s')"
    and "\<forall>v \<in> set (input_vssts g). wf_vsst v" "input_vssts g \<noteq> []" "entries_of (input_vssts g) < 2 ^ 63"
    and "avg_entry_size r \<noteq> 0" "Valid (size_model r)"
  obtains outs mt st where "res = Inr (outs, mt, st)" "1 \<le> entries_of outs"
    "entries_of outs \<le> entries_of (input_vssts g)"
    "\<forall>v \<in> set outs. size_bytes v = Estimate (size_model r) (num_entries v)"
proof -
  let ?vs = "input_vssts g"
  obtain gmin gmax where nr: "naive_range ?vs 0 u64_max 0 = Some (of_nat (entries_of ?vs), gmin, gmax)"
    using naive_range_count [of 0 ?vs u64_max 0] assms(4) by auto
  have pos: "0 < entries_of ?vs" using entries_of_pos assms(2,3) by blast
  have un: "unat (of_nat (entries_of ?vs) :: u64) = entries_of ?vs" using assms(4) by (simp add: unat_of_nat)
  obtain m t where m: "NWayMergeKMVRangeAware (map Some ?vs) = Some (OK, m, t)" "\<not> Empty m" "1 \<le> uint t"
      "uint t \<le> int (entries_of ?vs)"
    using NWayMerge_any [OF assms(3)] pos assms(4) by (auto simp: total_entries_of)
  have "int (unat t) \<le> int (entries_of ?vs)" using m(4) by (simp only: uint_nat [symmetric])
  then have t: "unat t \<le> entries_of ?vs" "t \<noteq> 0" using m(3) by (simp_all only: of_nat_le_iff) auto
  then have ct: "cap_total (of_nat (entries_of ?vs)) (m, t) = (m, t)"
    by (simp add: cap_total_def word_less_nat_alt un)
  have notInl: "res \<noteq> Inl st" for st
    using assms(1) m(1,2)
    by (auto simp: run_merge_def nr merge_status_def NowMicros_def Let_def case_prod_beta split: option.splits)
  then obtain outs mt st where res: "res = Inr (outs, mt, st)" by (cases res) auto
  from assms(1) [unfolded res] obtain bs where
    sp: "SplitIntoSSTs (kmv_samples_env E) (kmv_buckets_env E) m t (target_sst_size r) (avg_entry_size r) gmin gmax
       (output_level c) bs (Some (map Some ?vs)) 0 (Some (size_model r)) = Some outs"
    by (rule run_merge_Inr) (use nr m(1) ct in auto)
  obtain v where v: "v \<in> set ?vs" using assms(3) by (cases ?vs) auto
  then have "gmin \<le> key_min v" "key_min v \<le> key_max v" "key_max v \<le> gmax"
    using naive_range_bounds [OF nr] assms(2) by (auto simp: wf_vsst_def)
  then have "gmin \<le> gmax" by (meson order_trans)
  note r = SplitIntoSSTs_returns [OF sp t(2) m(2) assms(5,6) this]
  have "entries_of outs = unat t" using r(1) by (simp add: entries_of_def)
  moreover have "1 \<le> unat t" using t(2) by (simp add: Suc_le_eq unat_gt_0)
  ultimately show thesis using that [OF res] r(2) t(1) by simp
qed

section \<open>The whole call\<close>

lemma release_compaction_fields:
  assumes "release_compaction i st flag s = (flag', s')"
  shows "virtual_sst_registry s' = virtual_sst_registry s" "versions s' = versions s"
    "flag = Some False \<Longrightarrow> flag' = Some True \<and> released s' = released s @ [(i, st)]"
    "flag = Some True \<Longrightarrow> flag' = Some True \<and> released s' = released s"
    "virtual_l0_pending s' = virtual_l0_pending s" "commit_queue s' = commit_queue s" "requests s' = requests s"
  using assms by (auto simp: release_compaction_def split: if_splits)

lemma count_job_fields [simp]:
  "virtual_sst_registry (count_job c outs a b d e f g h j s) = virtual_sst_registry s"
  "versions (count_job c outs a b d e f g h j s) = versions s"
  "released (count_job c outs a b d e f g h j s) = released s"
  "virtual_l0_pending (count_job c outs a b d e f g h j s) = virtual_l0_pending s"
  "commit_queue (count_job c outs a b d e f g h j s) = commit_queue s"
  "requests (count_job c outs a b d e f g h j s) = requests s"
  by (simp_all add: count_job_def Let_def)

lemma RunVirtualCompaction_phases:
  assumes run: "RunVirtualCompaction E c i flag s = Some (st, flag', s')"
    and reg: "virtual_sst_registry s = Some r" and gat: "run_gather E c r (versions s) = Inr g"
    and ne: "input_vssts g \<noteq> []"
  obtains (failed) a b where "run_merge E c r g (s\<lparr>ticks := a\<rparr>) = Some (Inl st, s\<lparr>ticks := b\<rparr>)"
      "release_compaction i st flag (Unlocked E (s\<lparr>ticks := b\<rparr>)) = (flag', s')"
  | (committed) a b n outs mt sp r' res et s5 s6 where
      "run_merge E c r g (s\<lparr>ticks := a\<rparr>) = Some (Inr (outs, mt, sp), s\<lparr>ticks := b\<rparr>)"
      "virtual_sst_registry (Unlocked E (s\<lparr>ticks := Suc b\<rparr>)) = Some r'"
      "run_commit E c i flag g outs r' ((Unlocked E (s\<lparr>ticks := Suc b\<rparr>))\<lparr>ticks := n\<rparr>) = (res, et, s5)" "fst res = st"
      "release_compaction i st (compaction_released (requests s5 i)) s5 = (flag', s6)"
      "virtual_sst_registry s' = virtual_sst_registry s6" "versions s' = versions s6" "released s' = released s6"
      "virtual_l0_pending s' = virtual_l0_pending s6" "commit_queue s' = commit_queue s6" "requests s' = requests s6"
proof -
  let ?s1 = "s\<lparr>ticks := Suc (Suc (ticks s))\<rparr>"
  define r0 where "r0 = run_merge E c r g ?s1"
  have "r0 \<noteq> None" using run reg gat ne by (intro notI) (simp add: RunVirtualCompaction_def NowMicros_def r0_def)
  then obtain x s2 where x: "run_merge E c r g ?s1 = Some (x, s2)" by (auto simp: r0_def)
  show thesis
  proof (cases x)
    case (Inl st1)
    obtain b where b: "s2 = ?s1\<lparr>ticks := b\<rparr>" using run_merge_Inl [OF x [unfolded Inl]] by blast
    then have "st1 = st" "release_compaction i st flag (Unlocked E (s\<lparr>ticks := b\<rparr>)) = (flag', s')"
      using run by (auto simp: RunVirtualCompaction_def NowMicros_def reg gat ne x Inl split: prod.splits)
    then show thesis using failed x Inl b by simp
  next
    case (Inr y)
    obtain outs mt sp where y: "y = (outs, mt, sp)" using prod_cases3 by blast
    obtain b where b: "s2 = ?s1\<lparr>ticks := b\<rparr>" using run_merge_Inr [OF x [unfolded Inr y]] by blast
    define u where "u = Unlocked E (s\<lparr>ticks := Suc b\<rparr>)"
    have "virtual_sst_registry u \<noteq> None"
      using run by (intro notI) (simp add: RunVirtualCompaction_def NowMicros_def reg gat ne x Inr y b u_def)
    then obtain r' where r': "virtual_sst_registry u = Some r'" by blast
    obtain st1 la qw bs et s5 where rc: "run_commit E c i flag g outs r' (u\<lparr>ticks := Suc (ticks u)\<rparr>) = ((st1, la, qw, bs), et, s5)"
      by (metis prod.exhaust)
    obtain flag1 s6 where rl: "release_compaction i st1 (compaction_released (requests s5 i)) s5 = (flag1, s6)" by fastforce
    have "st1 = st" "flag1 = flag'" "virtual_sst_registry s' = virtual_sst_registry s6" "versions s' = versions s6"
        "released s' = released s6" "virtual_l0_pending s' = virtual_l0_pending s6" "commit_queue s' = commit_queue s6"
        "requests s' = requests s6"
      using run by (auto simp: RunVirtualCompaction_def NowMicros_def reg gat ne x Inr y b u_def [symmetric] r' rc rl)
    then show thesis using committed [OF _ r' [unfolded u_def] rc [unfolded u_def]] x Inr y b rl by simp
  qed
qed

definition ready_to_commit :: "'v run_env \<Rightarrow> Compaction \<Rightarrow> VirtualSSTRegistry \<Rightarrow> 'v CommitDB \<Rightarrow> bool" where
  "ready_to_commit E c r s \<longleftrightarrow> commit_queue s = [] \<and> \<not> commit_in_progress s \<and> virtual_l0_pending s = [] \<and>
     virtual_sst_registry s = Some r \<and>
     list_all (FileIsCurrent E (versions s) (cmp_cfd c)) (cmp_input_numbers c)"

lemma run_commit_alone:
  assumes "ready_to_commit E c r s"
    and "\<And>v. FileIsCurrent E (snd (NewFileNumber E v)) = FileIsCurrent E v"
    and "\<And>es v st called v'. CommitLog E es v = (st, called, v') \<Longrightarrow> called \<or> \<not> ok st"
    and "run_commit E c i (Some False) g outs r s = (res, et, s')"
  obtains pending v0 called where "number_outputs E outs (versions s) = (pending, v0)"
    "CommitLog E [output_edit r c pending] v0 = (fst res, called, versions s')"
    "released s' = released s @ [(i, fst res)]" "compaction_released (requests s' i) = Some True"
    "virtual_sst_registry s' = Some (if ok (fst res)
       then fold Remove (cmp_input_numbers c) (fold (\<lambda>(n, v). Register n v) pending r) else r)"
proof -
  obtain pending v0 where no: "number_outputs E outs (versions s) = (pending, v0)" by fastforce
  define q where "q = make_request r c (Some False) g pending"
  define s1 where "s1 = s\<lparr>versions := v0, ticks := Suc (Suc (ticks s))\<rparr>"
  have run: "CommitVirtualCompactionEdit (commit_part E) (batch_max_env E) (Others E) i q s1 = (res, s')"
    using assms(4) no by (auto simp: run_commit_def NowMicros_def q_def s1_def split: prod.splits)
  obtain st called v where lg: "CommitLog E [output_edit r c pending] v0 = (st, called, v)" using prod_cases3 by blast
  have part: "CommitLog (commit_part E) = CommitLog E" "FileIsCurrent (commit_part E) = FileIsCurrent E"
    by (simp_all add: commit_part_def commit_env.truncate_def)
  have s1: "commit_queue s1 = []" "\<not> commit_in_progress s1" "virtual_l0_pending s1 = []" "virtual_sst_registry s1 = Some r"
      "released s1 = released s" "versions s1 = v0"
    using assms(1) by (simp_all add: s1_def ready_to_commit_def)
  have cur: "list_all (FileIsCurrent (commit_part E) (versions s1) (req_cfd q)) (input_file_numbers q)"
    using assms(1) number_outputs_current [OF assms(2) no]
    by (simp add: part s1(6) q_def make_request_def ready_to_commit_def)
  have "CommitLog (commit_part E) [req_edit q] (versions s1) = (st, called, v)"
    using lg by (simp add: part s1(6) q_def make_request_def)
  note r = commit_alone [OF s1(1-4) _ cur this assms(3) [OF lg] run]
  have "compaction_released q = Some False" by (simp add: q_def make_request_def)
  note r = r [OF this]
  have pub: "publish_request q r = fold Remove (cmp_input_numbers c) (fold (\<lambda>(n, v). Register n v) pending r)"
    by (simp add: publish_request_def q_def make_request_def)
  show thesis
    by (rule that [OF no, of called]) (use r lg s1(5) pub in simp_all)
qed

section \<open>Properties\<close>

text \<open>
  C1: What a virtual compaction does when it commits alone. Its inputs are registered
  with well-formed descriptors of fewer than \<open>2 ^ 63\<close> entries, and when the mutex is
  taken again nobody else commits, the L0 window has no backlog and the inputs are
  still current (the registry may have changed to \<open>r'\<close> meanwhile). File numbers come
  from a counter. If the call returns, it has numbered the outputs consecutively from
  the counter and sent one edit to the manifest that deletes exactly the inputs and
  adds exactly the output files under these numbers; the outputs are well-formed, sized
  by the size model, and hold at least one and at most all of the input entries; the
  compaction is released once, with the status of the manifest write, which is also the
  result. The registry drops the inputs and gains the outputs, each under its own
  number, if the write succeeded and is untouched otherwise.
\<close>

theorem RunVirtualCompaction_effect:
  assumes "RunVirtualCompaction E c i (Some False) s = Some (st, flag, s')"
    and "virtual_sst_registry s = Some r" "cmp_input_numbers c \<noteq> []"
    and "\<forall>n \<in> set (cmp_input_numbers c). \<exists>v. Lookup r n = Some v \<and> wf_vsst v"
    and "entries_of (map (the \<circ> Lookup r) (cmp_input_numbers c)) < 2 ^ 63"
    and "avg_entry_size r \<noteq> 0" "Valid (size_model r)"
    and "\<forall>n. ready_to_commit E c r' (Unlocked E (s\<lparr>ticks := n\<rparr>))" "registry_inv r'"
    and "\<forall>v. FileIsCurrent E (snd (NewFileNumber E v)) = FileIsCurrent E v"
    and "\<forall>es v st called v'. CommitLog E es v = (st, called, v') \<longrightarrow> called \<or> \<not> ok st"
    and "\<forall>v. fst (NewFileNumber E v) = next_file v \<and> next_file (snd (NewFileNumber E v)) = next_file v + 1"
  shows "\<exists>pending v0 called e r'' t. CommitLog E [e] v0 = (st, called, versions s') \<and>
    deleted_files e = deleted_files (cmp_edit c) \<union> (\<lambda>(lvl, f). (lvl, GetNumber (fd f))) ` set (input_list c) \<and>
    new_files e = new_files (cmp_edit c) @ map (\<lambda>(n, v). (output_level c, output_meta r' n v)) pending \<and>
    map fst pending =
      map (\<lambda>k. next_file (versions (Unlocked E (s\<lparr>ticks := t\<rparr>))) + of_nat k) [0 ..< length pending] \<and>
    distinct (map fst pending) \<and>
    (\<forall>v \<in> snd ` set pending. wf_vsst v \<and> size_bytes v = Estimate (size_model r) (num_entries v)) \<and>
    1 \<le> entries_of (map snd pending) \<and>
    entries_of (map snd pending) \<le> entries_of (map (the \<circ> Lookup r) (cmp_input_numbers c)) \<and>
    flag = Some True \<and> released s' = released (Unlocked E (s\<lparr>ticks := t\<rparr>)) @ [(i, st)] \<and>
    virtual_sst_registry s' = Some r'' \<and> registry_inv r'' \<and>
    (\<not> ok st \<longrightarrow> r'' = r') \<and>
    (ok st \<longrightarrow>
       (\<forall>n. Lookup r'' n = (if n \<in> set (cmp_input_numbers c) then None
                          else case map_of pending n of Some v \<Rightarrow> Some v | None \<Rightarrow> Lookup r' n)))"
proof -
  have "\<forall>n \<in> set (cmp_input_numbers c). Lookup r n \<noteq> None" using assms(4) by auto
  then obtain g where g: "run_gather E c r (versions s) = Inr g"
      "input_vssts g = map (the \<circ> Lookup r) (cmp_input_numbers c)" by (rule run_gather_all)
  have wf: "\<forall>v \<in> set (input_vssts g). wf_vsst v" using assms(4) by (auto simp: g(2))
  have ne: "input_vssts g \<noteq> []" using assms(3) by (simp add: g(2))
  note cnt = run_merge_counts [OF _ wf ne assms(5) [folded g(2)] assms(6,7)]
  show ?thesis
    using assms(1,2) g(1) ne
  proof (cases rule: RunVirtualCompaction_phases)
    case (failed a b)
    then show ?thesis using cnt [OF failed(1)] by auto
  next
    case (committed a b n outs mt sp r1 res et s5 s6)
    let ?u = "Unlocked E (s\<lparr>ticks := Suc b\<rparr>)"
    have r1: "r1 = r'" using committed(2) assms(8) by (auto simp: ready_to_commit_def)
    have rdy: "ready_to_commit E c r' (?u\<lparr>ticks := n\<rparr>)" using assms(8) by (simp add: ready_to_commit_def)
    have nf: "FileIsCurrent E (snd (NewFileNumber E v)) = FileIsCurrent E v" for v using assms(10) by blast
    have lg: "called \<or> \<not> ok st" if "CommitLog E es v = (st, called, v')" for es v st called v' using assms(11) that by blast
    have nx: "fst (NewFileNumber E v) = next_file v \<and> next_file (snd (NewFileNumber E v)) = next_file v + 1" for v
      using assms(12) by blast
    obtain pending v0 called where no: "number_outputs E outs (versions (?u\<lparr>ticks := n\<rparr>)) = (pending, v0)" and p:
      "CommitLog E [output_edit r' c pending] v0 = (fst res, called, versions s5)"
      "released s5 = released (?u\<lparr>ticks := n\<rparr>) @ [(i, fst res)]" "compaction_released (requests s5 i) = Some True"
      "virtual_sst_registry s5 = Some (if ok (fst res)
         then fold Remove (cmp_input_numbers c) (fold (\<lambda>(n, v). Register n v) pending r') else r')"
      by (rule run_commit_alone [OF rdy nf lg committed(3) [unfolded r1]])
    have po: "map snd pending = outs" by (rule number_outputs_snd [OF no])
    then have len: "length pending = length outs" by (metis length_map)
    have fst: "map fst pending = map (\<lambda>k. next_file (versions ?u) + of_nat k) [0 ..< length pending]"
      using number_outputs_fst [OF nx no] by (simp add: len)
    note rel = release_compaction_fields [OF committed(5)]
    define r'' where "r'' = (if ok st then fold Remove (cmp_input_numbers c) (fold (\<lambda>(n, v). Register n v) pending r') else r')"
    have inv: "registry_inv (fold (\<lambda>(n, v). Register n v) pending r')" by (rule vf.inv_fold_register [OF assms(9)])
    have lk: "Lookup r'' n = (if n \<in> set (cmp_input_numbers c) then None
        else case map_of pending n of Some v \<Rightarrow> Some v | None \<Rightarrow> Lookup r' n)" if "ok st" "distinct (map fst pending)" for n
      using that by (simp add: r''_def vf.lookup_fold_remove [OF inv] vf.lookup_fold_register [OF assms(9)])
    have outs: "1 \<le> entries_of outs" "entries_of outs \<le> entries_of (input_vssts g)"
        "\<forall>v \<in> set outs. size_bytes v = Estimate (size_model r) (num_entries v)"
      using cnt [OF committed(1)] by auto
    have out_wf: "\<forall>v \<in> set outs. wf_vsst v" by (rule run_merge_wf [OF committed(1) wf ne])
    have so: "snd ` set pending = set outs" using po by (metis list.set_map)
    have "length pending \<le> 2 ^ 64"
      using len length_le_entries [OF out_wf] outs(2) assms(5) [folded g(2)] by simp
    then have dist: "distinct (map fst pending)" unfolding fst by (rule consecutive_distinct)
    show ?thesis
    proof (intro exI conjI)
      show "CommitLog E [output_edit r' c pending] v0 = (st, called, versions s')"
        using p(1) rel(2) committed(4,7) by simp
      show "\<forall>v \<in> snd ` set pending. wf_vsst v \<and> size_bytes v = Estimate (size_model r) (num_entries v)"
        unfolding so using outs(3) out_wf by blast
      show "map fst pending = map (\<lambda>k. next_file (versions ?u) + of_nat k) [0 ..< length pending]"
        "distinct (map fst pending)" by (rule fst, rule dist)
      show "1 \<le> entries_of (map snd pending)"
        "entries_of (map snd pending) \<le> entries_of (map (the \<circ> Lookup r) (cmp_input_numbers c))"
        using outs(1,2) unfolding po g(2) .
      show "flag = Some True" "released s' = released ?u @ [(i, st)]"
        using rel(4) [OF p(3)] p(2) committed(4,8) by simp_all
      show "virtual_sst_registry s' = Some r''" using p(4) rel(1) committed(4,6) by (simp add: r''_def)
      show "registry_inv r''" using inv assms(9) vf.inv_fold_remove by (simp add: r''_def)
      show "\<not> ok st \<longrightarrow> r'' = r'" by (simp add: r''_def)
      show "ok st \<longrightarrow> (\<forall>n. Lookup r'' n = (if n \<in> set (cmp_input_numbers c) then None
          else case map_of pending n of Some v \<Rightarrow> Some v | None \<Rightarrow> Lookup r' n))"
        using lk [OF _ dist] by blast
    qed (rule output_edit_files)+
  qed
qed

text \<open>An output at level 0 without grandparents needs no conversion, so the call returns.\<close>

lemma run_merge_level0:
  assumes "output_level c = 0" "grandparents c = []"
    and "\<forall>v \<in> set (input_vssts g). wf_vsst v" "input_vssts g \<noteq> []" "entries_of (input_vssts g) < 2 ^ 63"
  shows "run_merge E c r g s \<noteq> None"
proof -
  let ?vs = "input_vssts g"
  obtain gmin gmax where nr: "naive_range ?vs 0 u64_max 0 = Some (of_nat (entries_of ?vs), gmin, gmax)"
    using naive_range_count [of 0 ?vs u64_max 0] assms(5) by auto
  have pos: "0 < entries_of ?vs" using entries_of_pos assms(3,4) by blast
  have "0 < total_entries (map Some ?vs)" "total_entries (map Some ?vs) < 2 ^ 63"
    using pos assms(5) by (simp_all add: total_entries_of)
  then obtain m t where m: "NWayMergeKMVRangeAware (map Some ?vs) = Some (OK, m, t)" "\<not> Empty m"
    by (rule NWayMerge_any [OF assms(4)])
  obtain m' t' where ct: "cap_total (of_nat (entries_of ?vs)) (m, t) = (m', t')" by fastforce
  have "\<exists>fs. SplitIntoSSTs es eb m' t' tg avg gmin gmax 0 [] ki 0 sm = Some fs" for es eb tg avg ki sm
    using output_ranges_total [of es eb ki 0 gmin gmax t'] by (auto simp: SplitIntoSSTs_def Let_def)
  then obtain fs where "SplitIntoSSTs (kmv_samples_env E) (kmv_buckets_env E) m' t' (target_sst_size r) (avg_entry_size r)
      gmin gmax 0 [] (Some (map Some ?vs)) 0 (Some (size_model r)) = Some fs" by blast
  then show ?thesis
    using m assms(1,2) by (simp add: run_merge_def nr merge_status_def NowMicros_def Let_def ct gp_boundaries_def)
qed

definition demo_compaction :: Compaction where
  "demo_compaction =
     \<lparr>cmp_cfd = 0, cmp_inputs = [(0, [output_meta new_registry 1 (single_vsst 7)])], output_level = 0,
      grandparents = [], cmp_edit = new_edit\<rparr>"

text \<open>The version set is its file number counter; every write succeeds and file 1 is current.\<close>

definition demo_run_env :: "u64 run_env" where
  "demo_run_env =
     \<lparr>LogAndApply = (\<lambda>_ v. (OK, v)), NumLevelFiles = (\<lambda>_ _. 0), estimated_compaction_needed_bytes = (\<lambda>_. 0),
      level0_stop_writes_trigger = (\<lambda>_. 0), hard_pending_compaction_bytes_limit = (\<lambda>_. 0),
      level0_slowdown_writes_trigger = (\<lambda>_. 0), soft_pending_compaction_bytes_limit = (\<lambda>_. 0), clock = of_nat,
      CommitLog = (\<lambda>_ v. (OK, True, v)), FileIsCurrent = (\<lambda>_ _ n. n = 1),
      FileExists = (\<lambda>_ _. False), NewFileNumber = (\<lambda>v. (v, v + 1)), Unlocked = (\<lambda>t. t), Others = (\<lambda>t. t),
      batch_max_env = None, kmv_samples_env = None, kmv_buckets_env = None\<rparr>"

definition demo_run_db :: "u64 CommitDB" where
  "demo_run_db =
     \<lparr>use_virtual_compaction = True, virtual_sst_registry = Some (Register 1 (single_vsst 7) new_registry),
      virtual_l0_pending = [], virtual_l0_pending_bytes = 0, virtual_l0_visible_files = 0, virtual_l0_visible_bytes = 0,
      virtual_l0_target_visible_bytes = 10, virtual_l0_max_register_batch_files = 2, virtual_l0_backpressure = False,
      virtual_l0_window_stats = new_window_stats, versions = 2, ticks = 0, vstats = zero_stats, commit_queue = [],
      commit_in_progress = False, requests = (\<lambda>_. (demo_request 0)\<lparr>compaction_released := None\<rparr>), released = []\<rparr>"

lemma demo_run_env_simps:
  "Unlocked demo_run_env = (\<lambda>t. t)" "NewFileNumber demo_run_env = (\<lambda>v. (v, v + 1))" "Others demo_run_env = (\<lambda>t. t)"
  "CommitLog demo_run_env = (\<lambda>_ v. (OK, True, v))" "FileIsCurrent demo_run_env = (\<lambda>_ _ n. n = 1)"
  by (simp_all add: demo_run_env_def)

lemma demo_run_input:
  "cmp_input_numbers demo_compaction = [1]" "Lookup (Register 1 (single_vsst 7) new_registry) 1 = Some (single_vsst 7)"
  "wf_vsst (single_vsst 7)" "registry_inv (Register 1 (single_vsst 7) new_registry)"
proof -
  have num: "GetNumber (fd (output_meta new_registry 1 (single_vsst 7))) = 1"
    by (simp add: output_meta_def kFileNumberMask_def)
  show "cmp_input_numbers demo_compaction = [1]"
    by (simp add: cmp_input_numbers_def input_list_def demo_compaction_def num)
  show "Lookup (Register 1 (single_vsst 7) new_registry) 1 = Some (single_vsst 7)"
    using vf.lookup_register [OF registry_inv_new] by simp
  show "wf_vsst (single_vsst 7)" by (simp add: wf_vsst_def single_vsst_def)
  show "registry_inv (Register 1 (single_vsst 7) new_registry)" by (rule registry_inv_Register [OF registry_inv_new])
qed

lemma demo_run_returns:
  obtains st flag s' where "RunVirtualCompaction demo_run_env demo_compaction 0 (Some False) demo_run_db = Some (st, flag, s')"
proof -
  let ?E = demo_run_env and ?c = demo_compaction and ?s = demo_run_db
  let ?r = "Register 1 (single_vsst 7) new_registry"
  note ins = demo_run_input
  have reg: "virtual_sst_registry ?s = Some ?r" by (simp add: demo_run_db_def)
  have "\<forall>n \<in> set (cmp_input_numbers ?c). Lookup ?r n \<noteq> None" by (simp add: ins)
  then obtain g where g: "run_gather ?E ?c ?r (versions ?s) = Inr g"
      "input_vssts g = map (the \<circ> Lookup ?r) (cmp_input_numbers ?c)" by (rule run_gather_all)
  have lvl: "output_level ?c = 0" "grandparents ?c = []" by (simp_all add: demo_compaction_def)
  have "entries_of [single_vsst 7] < 2 ^ 63" by (simp add: entries_of_def) (simp add: single_vsst_def)
  then have "run_merge ?E ?c ?r g t \<noteq> None" for t
    by (intro run_merge_level0 [OF lvl]) (use ins in \<open>simp_all add: g(2)\<close>)
  moreover have "virtual_sst_registry s2 = virtual_sst_registry t" if "run_merge ?E ?c ?r g t = Some (Inr (a, b, d), s2)" for a b d t s2
    using run_merge_Inr [OF that] by (metis DBImpl.ext_inject DBImpl.surjective DBImpl.update_convs(12))
  ultimately have "RunVirtualCompaction ?E ?c 0 (Some False) ?s \<noteq> None"
    using g reg
    by (fastforce simp: RunVirtualCompaction_def NowMicros_def demo_run_env_simps ins split: option.splits prod.splits sum.splits)
  then show thesis using that by auto
qed

theorem RunVirtualCompaction_effect_witness:
  "\<exists>s' r'' v. RunVirtualCompaction demo_run_env demo_compaction 0 (Some False) demo_run_db = Some (OK, Some True, s') \<and>
     released s' = [(0, OK)] \<and> virtual_sst_registry s' = Some r'' \<and> registry_inv r'' \<and>
     Lookup r'' 1 = None \<and> Lookup r'' 2 = Some v \<and> wf_vsst v"
proof -
  let ?E = demo_run_env and ?c = demo_compaction and ?s = demo_run_db
  let ?r = "Register 1 (single_vsst 7) new_registry"
  note ins = demo_run_input and env = demo_run_env_simps
  have reg: "virtual_sst_registry ?s = Some ?r" by (simp add: demo_run_db_def)
  have rdy: "\<forall>n. ready_to_commit ?E ?c ?r (Unlocked ?E (?s\<lparr>ticks := n\<rparr>))"
    by (simp add: ready_to_commit_def env ins demo_run_db_def)
  have cfg: "avg_entry_size ?r \<noteq> 0" "Valid (size_model ?r)"
    by (simp_all add: Register_def new_registry_def Valid_def Logical_def)
  have ent: "entries_of (map (the \<circ> Lookup ?r) (cmp_input_numbers ?c)) < 2 ^ 63"
    by (simp add: ins entries_of_def) (simp add: single_vsst_def)
  obtain st flag s' where run: "RunVirtualCompaction ?E ?c 0 (Some False) ?s = Some (st, flag, s')"
    by (rule demo_run_returns)
  have "cmp_input_numbers ?c \<noteq> []" "\<forall>n \<in> set (cmp_input_numbers ?c). \<exists>v. Lookup ?r n = Some v \<and> wf_vsst v"
      "\<forall>v. FileIsCurrent ?E (snd (NewFileNumber ?E v)) = FileIsCurrent ?E v"
      "\<forall>es v st called v'. CommitLog ?E es v = (st, called, v') \<longrightarrow> called \<or> \<not> ok st"
      "\<forall>v. fst (NewFileNumber ?E v) = id v \<and> id (snd (NewFileNumber ?E v)) = id v + 1"
    using ins by (simp_all add: env)
  note A = RunVirtualCompaction_effect [OF run reg this(1,2) ent cfg rdy ins(4) this(3,4,5)]
  then show ?thesis
  proof (elim exE conjE)
    fix pending :: "(u64 \<times> VirtualSST) list" and v0 called e r'' t
    assume a: "CommitLog ?E [e] v0 = (st, called, versions s')" "flag = Some True"
      "released s' = released (Unlocked ?E (?s\<lparr>ticks := t\<rparr>)) @ [(0, st)]"
      "virtual_sst_registry s' = Some r''" "registry_inv r''" "1 \<le> entries_of (map snd pending)"
      "map fst pending = map (\<lambda>k. id (versions (Unlocked ?E (?s\<lparr>ticks := t\<rparr>))) + of_nat k) [0 ..< length pending]"
      "\<forall>v \<in> snd ` set pending. wf_vsst v \<and> size_bytes v = Estimate (size_model ?r) (num_entries v)"
      "ok st \<longrightarrow> (\<forall>n. Lookup r'' n = (if n \<in> set (cmp_input_numbers ?c) then None
         else case map_of pending n of Some v \<Rightarrow> Some v | None \<Rightarrow> Lookup ?r n))"
    have st: "st = OK" "released s' = [(0, OK)]" using a(1,3) by (simp_all add: env demo_run_db_def)
    obtain n v ps where p: "pending = (n, v) # ps" using a(6) by (cases pending) (auto simp: entries_of_def)
    then have "n = 2" using a(7) by (simp add: env demo_run_db_def upt_conv_Cons del: upt_Suc)
    then have "Lookup r'' 1 = None" "Lookup r'' 2 = Some v" "wf_vsst v" using a(8,9) st(1) p by (simp_all add: ins ok_def)
    then show ?thesis using run st a(2,4,5) by blast
  qed
qed

section \<open>Grandparent boundaries\<close>

lemma be_value_foldl:
  "foldl (\<lambda>k b. push_bit 8 k OR ucast b) (of_nat m :: u64) bs = of_nat (m * 256 ^ length bs + be_value bs)"
proof (induction bs arbitrary: m)
  case (Cons b bs)
  have "push_bit 8 (of_nat m :: u64) OR ucast b = of_nat (256 * m + unat b)"
  proof -
    have "push_bit 8 (of_nat m :: u64) AND ucast b = 0"
      by (rule bit_word_eqI) (auto simp: bit_simps dest: bit_imp_le_length)
    then have "push_bit 8 (of_nat m :: u64) OR ucast b = push_bit 8 (of_nat m) + ucast b" by (rule disjunctive_add_eq_or [symmetric])
    then show ?thesis by (simp add: push_bit_eq_mult)
  qed
  then show ?case using Cons.IH [of "256 * m + unat b"] by (simp add: algebra_simps)
qed simp

text \<open>
  The boundaries the split aligns to are the key ranges of the grandparents: reading
  the key back from a file's metadata gives the number that was encoded, for keys of
  at least eight bytes. Shorter keys all read as zero.
\<close>

lemma extract_key_output:
  assumes "8 \<le> key_size r" "key_size r < 2 ^ 31"
  shows "file_bounds (output_meta r n v) =
    Some (if key_max v < key_min v then (key_max v, key_min v) else (key_min v, key_max v))"
proof -
  have "extract_key (InternalKey (EncodeUserKey r k) q t) = Some k" for k q t
    using be_value_foldl [of 0 "rev (EncodeFixed64 k)"] be_value_rev_EncodeFixed64 [of k]
    by (simp add: extract_key_def InternalKey_def EncodeUserKey_eq [OF assms])
  then show ?thesis by (simp add: file_bounds_def output_meta_def)
qed

lemma extract_key_short:
  "length u < 8 \<Longrightarrow> extract_key (InternalKey u q t) = Some 0"
  by (simp add: extract_key_def InternalKey_def)

section \<open>Well-formed registries\<close>

definition typed_registry :: "VirtualSSTRegistry \<Rightarrow> bool" where
  "typed_registry r \<longleftrightarrow> registry_inv r \<and> (\<forall>n v. Lookup r n = Some v \<longrightarrow> wf_vsst v)"

lemma typed_fold_Register:
  "typed_registry r \<Longrightarrow> \<forall>v \<in> snd ` set ps. wf_vsst v \<Longrightarrow> typed_registry (fold (\<lambda>(n, v). Register n v) ps r)"
proof (induction ps arbitrary: r)
  case (Cons p ps)
  obtain n v where p: "p = (n, v)" by fastforce
  have "typed_registry (Register n v r)"
    using Cons.prems by (auto simp: p typed_registry_def vf.inv_register vf.lookup_register)
  then show ?case using Cons.IH Cons.prems(2) by (simp add: p)
qed simp

lemma typed_fold_Remove: "typed_registry r \<Longrightarrow> typed_registry (fold Remove ns r)"
  by (auto simp: typed_registry_def vf.inv_fold_remove vf.lookup_fold_remove split: if_splits)

lemma gather_inputs_from:
  "gather_inputs E v cfd xs g = Inr g' \<Longrightarrow> set (input_vssts g') \<subseteq> set (input_vssts g) \<union> {d. Some d \<in> snd ` set xs}"
  by (induction E v cfd xs g rule: gather_inputs.induct) (force split: option.splits)+

lemma run_gather_wf:
  assumes "run_gather E c r v = Inr g" "typed_registry r"
  shows "\<forall>d \<in> set (input_vssts g). wf_vsst d"
proof
  fix d assume "d \<in> set (input_vssts g)"
  then have "Some d \<in> snd ` set (zip (input_list c) (LookupMany r (cmp_input_numbers c)))"
    using gather_inputs_from [OF assms(1) [unfolded run_gather_def]] by auto
  then have "Some d \<in> set (LookupMany r (cmp_input_numbers c))" by (auto dest: set_zip_rightD)
  then show "wf_vsst d" using assms(2) by (auto simp: LookupMany_map typed_registry_def)
qed

text \<open>
  What the commit queue and the L0 window may still register: the outputs and moved
  descriptors of the requests, and the files waiting for the window.
\<close>

definition wf_request :: "VirtualCompactionCommitRequest \<Rightarrow> bool" where
  "wf_request q \<longleftrightarrow> list_all (wf_vsst \<circ> snd) (pending_outputs q) \<and>
     (case moved_virtuals q of None \<Rightarrow> True | Some moved \<Rightarrow> list_all (wf_vsst \<circ> snd) moved)"

definition typed_window :: "('v, 'd) DBImpl_scheme \<Rightarrow> bool" where
  "typed_window s \<longleftrightarrow> (\<forall>r. virtual_sst_registry s = Some r \<longrightarrow> typed_registry r) \<and>
     (\<forall>f \<in> set (virtual_l0_pending s). wf_vsst (vsst f))"

definition typed_db :: "'v CommitDB \<Rightarrow> bool" where
  "typed_db s \<longleftrightarrow> typed_window s \<and> (\<forall>i \<in> set (commit_queue s). wf_request (requests s i))"

lemma typed_publish: "typed_registry r \<Longrightarrow> wf_request q \<Longrightarrow> typed_registry (publish_request q r)"
  by (auto simp: publish_request_def wf_request_def list_all_iff intro!: typed_fold_Register typed_fold_Remove split: option.splits)

lemma typed_window_cong:
  "virtual_sst_registry s' = virtual_sst_registry s \<Longrightarrow> virtual_l0_pending s' = virtual_l0_pending s \<Longrightarrow>
    typed_window s' = typed_window s"
  by (simp add: typed_window_def)

lemma typed_window_simps [simp]:
  "typed_window (s\<lparr>ticks := n\<rparr>) = typed_window s" "typed_window (s\<lparr>versions := v\<rparr>) = typed_window s"
  "typed_window (note_pressure p s) = typed_window s" "typed_window (add_times a b c d s) = typed_window s"
  "typed_window (refill_commit batch bytes s) = typed_window s"
  "typed_window (AccountVirtualL0CompactionLocked a b c d s) = typed_window s"
  by (auto simp: typed_window_def note_pressure_def add_times_def refill_commit_def AccountVirtualL0CompactionLocked_def
      Let_def split: Pressure.splits)

section \<open>The L0 window keeps the types\<close>

lemma typed_refill_begin:
  assumes "typed_window s" "refill_begin target t s = (batch, bytes, s')"
  shows "typed_window s'"
proof -
  obtain pend pb where tb: "take_batch (if t then 1 else unat (virtual_l0_max_register_batch_files s))
      (target - virtual_l0_visible_bytes s) (virtual_l0_pending s) (virtual_l0_pending_bytes s) [] 0 = (batch, bytes, pend, pb)"
    and s': "s' = s\<lparr>virtual_l0_pending := pend, virtual_l0_pending_bytes := pb,
      virtual_sst_registry := map_option (register_batch batch) (virtual_sst_registry s)\<rparr>"
    using assms(2) by (auto simp: refill_begin_def Let_def split: prod.splits)
  have sp: "virtual_l0_pending s = batch @ pend" using take_batch_split [OF tb] by auto
  have "typed_registry (register_batch batch r)" if "typed_registry r" for r
    using that assms(1) sp unfolding register_batch_files
    by (intro typed_fold_Register) (auto simp: typed_window_def)
  then show ?thesis using assms(1) sp by (auto simp: s' typed_window_def)
qed

lemma typed_refill_rollback: "typed_window s \<Longrightarrow> typed_window (refill_rollback batch s)"
  by (auto simp: refill_rollback_def typed_window_def unregister_batch_files typed_fold_Remove)

lemma typed_refill_iteration:
  assumes "refill_iteration E target stats s = (res, stats', s')" "typed_window s"
  shows "typed_window s'"
proof (cases "pressure E s = kStop")
  case True
  then show ?thesis using assms by (auto simp: refill_iteration_def Let_def)
next
  case False
  let ?s2 = "snd (NowMicros E (note_pressure (pressure E s) s))"
  obtain batch bytes s3 where b: "refill_begin target (pressure E s = kSlowdown) ?s2 = (batch, bytes, s3)"
    by (cases "refill_begin target (pressure E s = kSlowdown) ?s2") auto
  have "typed_window s3" by (rule typed_refill_begin [OF _ b]) (simp add: NowMicros_def assms(2))
  then show ?thesis
    using assms(1) b False
    by (auto simp: refill_iteration_def NowMicros_def Let_def intro!: typed_refill_rollback split: if_splits prod.splits)
qed

lemma typed_refill_loop:
  "refill_loop E target t stats s = (st, stats', s') \<Longrightarrow> typed_window s \<Longrightarrow> typed_window s'"
proof (induction E target t stats s rule: refill_loop.induct)
  case (1 E target t stats s)
  show ?case
  proof (cases "virtual_l0_pending s \<noteq> [] \<and> virtual_l0_visible_bytes s < target \<and> \<not> t")
    case False
    show ?thesis
      using "1.prems" unfolding refill_loop.simps [of E target t stats s] if_not_P [OF False] by simp
  next
    case True
    obtain res stats1 s1 where it: "refill_iteration E target stats s = (res, stats1, s1)"
      by (cases "refill_iteration E target stats s") auto
    note t1 = typed_refill_iteration [OF it "1.prems"(2)]
    show ?thesis
    proof (cases res)
      case (Inl st')
      then have "s' = s1" using "1.prems"(1) True it by (subst (asm) refill_loop.simps) simp
      then show ?thesis using t1 by simp
    next
      case (Inr t')
      then have "refill_loop E target t' stats1 s1 = (st, stats', s')"
        using "1.prems"(1) True it by (subst (asm) refill_loop.simps) simp
      then show ?thesis using "1.IH" [OF True it [symmetric] Inr refl] t1 by simp
    qed
  qed
qed

lemma typed_refill: "RefillVirtualL0WindowLocked E stats s = (st, stats', s') \<Longrightarrow> typed_window s \<Longrightarrow> typed_window s'"
  by (auto simp: RefillVirtualL0WindowLocked_def Let_def split: if_splits list.splits dest: typed_refill_loop)

section \<open>The group commit keeps the types\<close>

lemma typed_window_upd_req [simp]: "typed_window (upd_req i f s) = typed_window s"
  by (rule typed_window_cong) (simp_all add: upd_req_def)

lemma typed_window_release [simp]: "typed_window (release_request i st s) = typed_window s"
  by (rule typed_window_cong) (simp_all add: release_request_def upd_req_def)

lemma typed_window_requests [simp]:
  "typed_window (mark_done i st a b n s) = typed_window s" "typed_window (finish_left a b n i s) = typed_window s"
  "typed_window (account_request i s) = typed_window s"
  by (simp_all add: mark_done_def finish_left_def account_request_def Let_def)

lemma wf_request_simps [simp]:
  "wf_request (q\<lparr>req_status := st\<rparr>) = wf_request q" "wf_request (q\<lparr>commit_start_us := t\<rparr>) = wf_request q"
  "wf_request (q\<lparr>commit_done_us := t\<rparr>) = wf_request q" "wf_request (q\<lparr>req_batch_size := t\<rparr>) = wf_request q"
  "wf_request (q\<lparr>compaction_released := fl\<rparr>) = wf_request q" "wf_request (q\<lparr>req_done := d\<rparr>) = wf_request q"
  "wf_request (q\<lparr>enqueue_us := t\<rparr>) = wf_request q"
  by (simp_all add: wf_request_def)

lemma wf_request_release [simp]: "wf_request (requests (release_request i st s) j) = wf_request (requests s j)"
  by (simp add: release_request_def)

lemma wf_request_kept [simp]:
  "wf_request (requests (mark_done i st a b n s) j) = wf_request (requests s j)"
  "wf_request (requests (finish_left a b n i s) j) = wf_request (requests s j)"
  by (simp_all add: mark_done_def finish_left_def)

lemma typed_commit_callback:
  assumes "typed_window s" "wf_request (requests s i)"
  shows "typed_window (commit_callback st i s)"
proof -
  have "typed_window (s\<lparr>virtual_sst_registry := map_option (publish_request (requests s i)) (virtual_sst_registry s)\<rparr>)"
    using assms typed_publish by (auto simp: typed_window_def)
  then show ?thesis using assms(1) by (simp add: commit_callback_def)
qed

lemma wf_commit_callback [simp]: "wf_request (requests (commit_callback st i s) j) = wf_request (requests s j)"
  by (simp add: commit_callback_def)

text \<open>The state of a round: the window is typed and so are the requests of a set.\<close>

definition typed_on :: "nat set \<Rightarrow> 'v CommitDB \<Rightarrow> bool" where
  "typed_on I s \<longleftrightarrow> typed_window s \<and> (\<forall>i \<in> I. wf_request (requests s i))"

lemma typed_on_fold:
  assumes "\<And>i s. i \<in> set is \<Longrightarrow> typed_on I s \<Longrightarrow> typed_on I (f i s)"
  shows "typed_on I s \<Longrightarrow> typed_on I (fold f is s)"
  using assms by (induction "is" arbitrary: s) auto

lemma typed_on_cong:
  "virtual_sst_registry s' = virtual_sst_registry s \<Longrightarrow> virtual_l0_pending s' = virtual_l0_pending s \<Longrightarrow>
    requests s' = requests s \<Longrightarrow> typed_on I s' = typed_on I s"
  by (simp add: typed_on_def typed_window_def)

lemma typed_round_log:
  assumes "typed_on I s" "set cb \<subseteq> I" "round_log E cb s = (st, s')"
  shows "typed_on I s'"
proof (cases "cb = []")
  case True
  then show ?thesis using assms by (simp add: round_log_def)
next
  case False
  obtain st1 called v where lg: "CommitLog E (map (\<lambda>i. req_edit (requests s i)) cb) (versions s) = (st1, called, v)"
    using prod_cases3 by blast
  define s2 where "s2 = s\<lparr>ticks := Suc (ticks s), versions := v\<rparr>"
  define s3 where "s3 = (if called then fold (commit_callback st1) cb s2 else s2)"
  have s2: "typed_on I s2" using assms(1) by (simp add: s2_def typed_on_def)
  have "typed_on I (fold (commit_callback st1) cb s2)"
    by (rule typed_on_fold [OF _ s2]) (use assms(2) in \<open>auto simp: typed_on_def typed_commit_callback\<close>)
  then have s3: "typed_on I s3" using s2 by (simp add: s3_def)
  have "virtual_sst_registry s' = virtual_sst_registry s3" "virtual_l0_pending s' = virtual_l0_pending s3"
      "requests s' = requests s3"
    using assms(3) False lg by (auto simp: round_log_def NowMicros_def Let_def s3_def s2_def)
  then show ?thesis using s3 typed_on_cong by blast
qed

lemma typed_round_account:
  assumes "typed_on I s" "round_account E cb (st, s) = (st', s')"
  shows "typed_on I s'"
proof (cases "ok st")
  case True
  define s1 where "s1 = fold account_request cb s"
  have s1: "typed_on I s1" unfolding s1_def
    by (rule typed_on_fold [OF _ assms(1)]) (simp add: typed_on_def)
  obtain rs stats s2 where rf: "RefillVirtualL0WindowLocked E None s1 = (rs, stats, s2)" using prod_cases3 by blast
  have "s' = s2" using assms(2) True rf by (simp add: round_account_def s1_def Let_def)
  then show ?thesis
    using typed_refill [OF rf] commit_fields(2) [OF more_refill [OF rf]] s1 by (simp add: typed_on_def)
next
  case False
  then show ?thesis using assms by (simp add: round_account_def)
qed

lemma typed_round_finish:
  assumes "typed_on I s"
  shows "typed_on I (round_finish E batch cb start (st, s))"
proof -
  have "typed_on I (s\<lparr>ticks := Suc (ticks s)\<rparr>)" using assms by (simp add: typed_on_def)
  then have "typed_on I (fold (\<lambda>i. mark_done i st start d (length cb)) cb (s\<lparr>ticks := Suc (ticks s)\<rparr>))" for d
    by (rule typed_on_fold [rotated]) (simp add: typed_on_def)
  then have "typed_on I (fold (finish_left start d (length batch)) batch
      (fold (\<lambda>i. mark_done i st start d (length cb)) cb (s\<lparr>ticks := Suc (ticks s)\<rparr>)))" for d
    by (rule typed_on_fold [rotated]) (simp add: typed_on_def)
  then show ?thesis by (simp add: round_finish_def NowMicros_def)
qed

lemma typed_round_begin:
  assumes "round_begin E cap s = (batch, cb, start, s')" "typed_on I s"
  shows "typed_on I s'"
proof -
  let ?c = "\<lambda>i. req_cfd (requests s i)"
  obtain b q where pb: "pop_batch cap ?c (?c (hd (commit_queue s))) [] (commit_queue s) = (b, q)" by fastforce
  define s1 where "s1 = s\<lparr>commit_queue := q, ticks := Suc (ticks s)\<rparr>"
  have s1: "typed_on I s1" using assms(2) typed_on_cong [of s1 s] by (simp add: s1_def)
  have s': "s' = fold (\<lambda>i. mark_done i OK start start (length b)) (filter (\<lambda>i. \<not> is_current E s1 i) b) s1"
    using assms(1) pb by (auto simp: round_begin_def s1_def screen_batch_eq NowMicros_def Let_def)
  show ?thesis unfolding s' by (rule typed_on_fold [OF _ s1]) (simp add: typed_on_def)
qed

lemma typed_commit_round:
  assumes "typed_db s" "commit_queue s \<noteq> []" "0 < cap"
  shows "typed_db (commit_round E cap s)"
proof -
  let ?I = "set (commit_queue s)"
  obtain batch cb start s1 where rb: "round_begin E cap s = (batch, cb, start, s1)" using prod_cases4 by blast
  note r = round_begin_protocol [OF rb assms(3,2)]
  have "typed_on ?I s" using assms(1) by (simp add: typed_db_def typed_on_def)
  then have s1: "typed_on ?I s1" by (rule typed_round_begin [OF rb])
  obtain st s2 where lg: "round_log E cb s1 = (st, s2)" by fastforce
  obtain st' s3 where ac: "round_account E cb (st, s2) = (st', s3)" by fastforce
  have "set cb \<subseteq> ?I" using r(1,4) by auto
  from typed_round_account [OF typed_round_log [OF s1 this lg] ac]
  have "typed_on ?I (round_finish E batch cb start (st', s3))" by (rule typed_round_finish)
  then have t: "typed_on ?I (commit_round E cap s)" by (simp add: commit_round_def rb round_end_def lg ac)
  have "commit_queue (commit_round E cap s) = commit_queue s1"
    using round_end_protocol(1) [of E batch cb start s1] by (simp add: commit_round_def rb protocol_def)
  then have "set (commit_queue (commit_round E cap s)) \<subseteq> ?I" using r(1) by auto
  then show ?thesis using t by (auto simp: typed_db_def typed_on_def)
qed

lemma typed_leader_loop: "typed_db s \<Longrightarrow> typed_db (leader_loop E batch_max s)"
proof (induction E batch_max s rule: leader_loop.induct)
  case (1 E batch_max s)
  then show ?case
    using typed_commit_round [OF "1.prems" _ max_batch_size_pos [of batch_max]]
    by (cases "commit_queue s = []") (simp_all add: leader_loop.simps [of E batch_max s])
qed

lemma typed_CommitVirtualCompactionEdit:
  assumes "typed_db s" "wf_request q" "\<And>t. typed_db t \<Longrightarrow> typed_db (others t)"
    and "CommitVirtualCompactionEdit E batch_max others i q s = (res, s')"
  shows "typed_db s'"
proof -
  let ?s1 = "submit_request E i q s"
  have s1: "typed_db (?s1\<lparr>commit_in_progress := b\<rparr>)" for b
  proof -
    have "typed_window (?s1\<lparr>commit_in_progress := b\<rparr>) = typed_window s"
      by (rule typed_window_cong) (simp_all add: submit_request_def NowMicros_def)
    then show ?thesis using assms(1,2) by (simp add: typed_db_def submit_request_def NowMicros_def)
  qed
  have b: "typed_db (t\<lparr>commit_in_progress := b\<rparr>) = typed_db t" for b and t :: "'a CommitDB"
    using typed_window_cong [of "t\<lparr>commit_in_progress := b\<rparr>" t] by (simp add: typed_db_def)
  show ?thesis
  proof (cases "commit_in_progress ?s1")
    case True
    then have "s' = others ?s1" using assms(4) by (simp add: CommitVirtualCompactionEdit_def Let_def)
    then show ?thesis using assms(3) s1 b by simp
  next
    case False
    then have "s' = (leader_loop E batch_max (?s1\<lparr>commit_in_progress := True\<rparr>))\<lparr>commit_in_progress := False\<rparr>"
      using assms(4) by (simp add: CommitVirtualCompactionEdit_def Let_def)
    then show ?thesis using typed_leader_loop [OF s1] b by simp
  qed
qed

lemma typed_run_commit:
  assumes "typed_db s" "\<forall>v \<in> set outs. wf_vsst v" "\<And>t. typed_db t \<Longrightarrow> typed_db (Others E t)"
    and "run_commit E c i flag g outs r s = (res, et, s')"
  shows "typed_db s'"
proof -
  obtain pending v0 where no: "number_outputs E outs (versions s) = (pending, v0)" by fastforce
  define s1 where "s1 = s\<lparr>versions := v0, ticks := Suc (Suc (ticks s))\<rparr>"
  have s1: "typed_db s1" using assms(1) by (simp add: s1_def typed_db_def)
  have "snd ` set pending = set outs" using number_outputs_snd [OF no] by (metis list.set_map)
  then have wf: "wf_request (make_request r c flag g pending)"
    using assms(2) by (force simp: wf_request_def make_request_def list_all_iff)
  have run: "CommitVirtualCompactionEdit (commit_part E) (batch_max_env E) (Others E) i (make_request r c flag g pending) s1 =
      (res, s')"
    using assms(4) no by (auto simp: run_commit_def NowMicros_def s1_def split: prod.splits)
  show ?thesis by (rule typed_CommitVirtualCompactionEdit [OF s1 wf _ run]) (rule assms(3))
qed



end
