(* ===== verification/Trivial_Move.thy ===== *)
theory Trivial_Move
  imports Run_Compaction
begin

text \<open>
  The trivial move of virtual files, the part of \<open>PerformTrivialMove\<close> in
  \<open>db/db_impl/db_impl_compaction_flush.cc\<close> that handles them, and the test by which
  \<open>BackgroundCompaction\<close> chooses the virtual path. A move that has no virtual input
  continues with the code for table files, which is not modelled.
\<close>

section \<open>Dispatch\<close>

definition is_virtual_compaction :: "'v run_env \<Rightarrow> Compaction \<Rightarrow> ('v, 'd) DBImpl_scheme \<Rightarrow> bool" where
  "is_virtual_compaction E c s \<longleftrightarrow> use_virtual_compaction s \<and>
     (case virtual_sst_registry s of
        None \<Rightarrow> False
      | Some r \<Rightarrow> list_ex (\<lambda>(lvl, f). IsVirtual r (GetNumber (fd f)) \<or>
                                       \<not> FileExists E (GetNumber (fd f)) (GetPathId (fd f))) (input_list c))"

section \<open>The move\<close>

text \<open>The input levels that move, and their files.\<close>

definition moving_levels :: "Compaction \<Rightarrow> (int \<times> FileMetaData list) list" where
  "moving_levels c = filter (\<lambda>(lvl, fs). lvl \<noteq> output_level c) (cmp_inputs c)"

definition moving_files :: "Compaction \<Rightarrow> (int \<times> FileMetaData) list" where
  "moving_files c = concat (map (\<lambda>(lvl, fs). map (Pair lvl) fs) (moving_levels c))"

text \<open>
  The first loop: the descriptors of the virtual inputs, and whether a table file was
  met; a file that is neither registered nor on disk ends the move.
\<close>

fun scan_moves ::
    "'v run_env \<Rightarrow> 'v \<Rightarrow> u32 \<Rightarrow> VirtualSSTRegistry \<Rightarrow> (int \<times> FileMetaData) list \<Rightarrow> bool \<Rightarrow> (u64 \<times> VirtualSST) list \<Rightarrow>
     status + bool \<times> (u64 \<times> VirtualSST) list" where
  "scan_moves E v cfd r [] physical moved = Inr (physical, moved)"
| "scan_moves E v cfd r ((lvl, f) # fs) physical moved =
     (case Lookup r (GetNumber (fd f)) of
        Some d \<Rightarrow> scan_moves E v cfd r fs physical (moved @ [(GetNumber (fd f), d)])
      | None \<Rightarrow>
          if \<not> FileExists E (GetNumber (fd f)) (GetPathId (fd f))
          then Inl (if FileIsCurrent E v cfd (GetNumber (fd f))
                    then Corruption ''current virtual trivial-move input missing from registry'' else OK)
          else scan_moves E v cfd r fs True moved)"

text \<open>The metadata a moved file is added with.\<close>

definition moved_meta :: "FileMetaData \<Rightarrow> FileMetaData" where
  "moved_meta f =
     f\<lparr>fd := make_fd (GetNumber (fd f)) (GetPathId (fd f)) (fd_file_size (fd f)) (smallest_seqno (fd f))
               (largest_seqno (fd f))\<rparr>"

definition move_edit :: "Compaction \<Rightarrow> VersionEdit" where
  "move_edit c =
     fold (\<lambda>(lvl, f) e. AddFile (output_level c) (moved_meta f) (DeleteFile lvl (GetNumber (fd f)) e))
       (moving_files c) (cmp_edit c)"

definition file_bytes :: "(int \<times> FileMetaData) list \<Rightarrow> u64" where
  "file_bytes fs = sum_list (map (\<lambda>(lvl, f). fd_file_size (fd f)) fs)"

definition move_request ::
    "Compaction \<Rightarrow> bool \<Rightarrow> u64 \<Rightarrow> (u64 \<times> VirtualSST) list \<Rightarrow> VirtualCompactionCommitRequest" where
  "move_request c flag moved_bytes moved =
     (let l0 = filter (\<lambda>(lvl, f). lvl = 0) (moving_files c)
      in \<lparr>req_cfd = cmp_cfd c, req_edit = move_edit c, pending_outputs = [], input_file_numbers = map fst moved,
          moved_virtuals = Some moved, compaction_released = Some flag,
          l0_input_files = of_nat (length l0), l0_input_bytes = file_bytes l0,
          l0_output_files = (if output_level c = 0 then of_nat (length moved) else 0),
          l0_output_bytes = (if output_level c = 0 then moved_bytes else 0),
          enqueue_us = 0, commit_start_us = 0, commit_done_us = 0, req_batch_size = 0, req_status = OK,
          req_done = False\<rparr>)"

definition count_move :: "u64 \<Rightarrow> u64 \<Rightarrow> u64 \<Rightarrow> u64 \<Rightarrow> 'v CommitDB \<Rightarrow> 'v CommitDB" where
  "count_move moved_files moved_bytes log_apply total_time s =
     (let x = vstats s
      in s\<lparr>vstats := x\<lparr>trivial_move_jobs := trivial_move_jobs x + 1,
            trivial_move_files := trivial_move_files x + moved_files,
            trivial_move_bytes := trivial_move_bytes x + moved_bytes,
            trivial_move_log_apply_us := trivial_move_log_apply_us x + log_apply,
            trivial_move_total_us := trivial_move_total_us x + total_time\<rparr>\<rparr>)"

text \<open>
  The result is None when the move goes on with the code for table files, and
  otherwise the status, the flag \<open>compaction_released\<close>, the counts \<open>moved_files\<close> and
  \<open>moved_bytes\<close> and the state. In the early returns the code releases without a test.
\<close>

definition PerformTrivialMove ::
    "'v run_env \<Rightarrow> Compaction \<Rightarrow> nat \<Rightarrow> bool \<Rightarrow> u64 \<Rightarrow> u64 \<Rightarrow> 'v CommitDB \<Rightarrow>
     (status \<times> bool option \<times> u64 \<times> u64 \<times> 'v CommitDB) option" where
  "PerformTrivialMove E c i flag moved_files moved_bytes s =
     (case virtual_sst_registry s of
        None \<Rightarrow> None
      | Some r \<Rightarrow>
          if \<not> use_virtual_compaction s then None
          else case scan_moves E (versions s) (cmp_cfd c) r (moving_files c) False [] of
            Inl st \<Rightarrow> Some (st, Some True, moved_files, moved_bytes, s\<lparr>released := released s @ [(i, st)]\<rparr>)
          | Inr (physical, moved) \<Rightarrow>
              if moved = [] then None
              else if physical
              then let st = NotSupported ''mixed physical/virtual trivial move''
                   in Some (st, Some True, moved_files, moved_bytes, s\<lparr>released := released s @ [(i, st)]\<rparr>)
              else let (trivial_t0, s1) = NowMicros E s;
                       moved_bytes' = moved_bytes + file_bytes (moving_files c);
                       moved_files' = moved_files + of_nat (length (moving_files c));
                       ((st, log_apply, _, _), s2) =
                         CommitVirtualCompactionEdit (commit_part E) (batch_max_env E) (Others E) i
                           (move_request c flag moved_bytes' moved) s1;
                       (flag', s3) = release_compaction i st (compaction_released (requests s2 i)) s2;
                       (trivial_t1, s4) = NowMicros E s3
                   in Some (st, flag', moved_files', moved_bytes',
                            count_move moved_files' moved_bytes' log_apply (trivial_t1 - trivial_t0) s4))"

section \<open>Packing a file number again\<close>

lemma moved_meta_same: "moved_meta f = f"
proof -
  have "PackFileNumberAndPathId (GetNumber d) (ucast (GetPathId d)) = packed_number_and_path_id d" for d
  proof -
    let ?p = "packed_number_and_path_id d"
    have "unat (?p div 0x4000000000000000) < 2 ^ 32"
    proof -
      have "unat ?p div 4611686018427387904 < 2 ^ 32" using unat_u64_less [of ?p] by (simp add: less_mult_imp_div_less)
      then show ?thesis by (simp add: unat_div)
    qed
    then have "(ucast (ucast (?p div 0x4000000000000000) :: u32) :: u64) = ?p div 0x4000000000000000"
      by (simp add: word_unat_eq_iff unsigned_ucast_eq unsigned_take_bit_eq take_bit_nat_eq_self)
    then have "ucast (GetPathId d) * (kFileNumberMask + 1) = push_bit 62 (drop_bit 62 ?p)"
      by (simp add: GetPathId_def kFileNumberMask_def drop_bit_eq_div push_bit_eq_mult)
    then have "PackFileNumberAndPathId (GetNumber d) (ucast (GetPathId d)) = take_bit 62 ?p OR push_bit 62 (drop_bit 62 ?p)"
      by (simp add: PackFileNumberAndPathId_def GetNumber_def kFileNumberMask_mask take_bit_eq_mask)
    also have "\<dots> = ?p"
    proof (rule bit_word_eqI)
      fix n show "bit (take_bit 62 ?p OR push_bit 62 (drop_bit 62 ?p)) n = bit ?p n" if "n < LENGTH(64)"
        using that by (cases "n < 62") (simp_all add: bit_simps)
    qed
    finally show ?thesis .
  qed
  then show ?thesis by (simp add: moved_meta_def make_fd_def)
qed

section \<open>The effect of a move\<close>

lemma move_edit_files:
  "deleted_files (move_edit c) =
     deleted_files (cmp_edit c) \<union> (\<lambda>(lvl, f). (lvl, GetNumber (fd f))) ` set (moving_files c)"
  "new_files (move_edit c) = new_files (cmp_edit c) @ map (\<lambda>(lvl, f). (output_level c, f)) (moving_files c)"
proof -
  have step: "deleted_files (fold (\<lambda>(lvl, f) e. AddFile l (moved_meta f) (DeleteFile lvl (GetNumber (fd f)) e)) fs e) =
      deleted_files e \<union> (\<lambda>(lvl, f). (lvl, GetNumber (fd f))) ` set fs \<and>
    new_files (fold (\<lambda>(lvl, f) e. AddFile l (moved_meta f) (DeleteFile lvl (GetNumber (fd f)) e)) fs e) =
      new_files e @ map (\<lambda>(lvl, f). (l, f)) fs" for l fs and e :: VersionEdit
  proof (induction fs arbitrary: e)
    case (Cons x fs)
    obtain lvl f where x: "x = (lvl, f)" by fastforce
    let ?e = "AddFile l (moved_meta f) (DeleteFile lvl (GetNumber (fd f)) e)"
    have "deleted_files ?e = insert (lvl, GetNumber (fd f)) (deleted_files e)" "new_files ?e = new_files e @ [(l, f)]"
      by (simp_all add: DeleteFile_def moved_meta_same)
    then show ?case using Cons.IH [of ?e] by (simp add: x)
  qed simp
  show "deleted_files (move_edit c) =
     deleted_files (cmp_edit c) \<union> (\<lambda>(lvl, f). (lvl, GetNumber (fd f))) ` set (moving_files c)"
    unfolding move_edit_def by (rule conjunct1 [OF step])
  show "new_files (move_edit c) = new_files (cmp_edit c) @ map (\<lambda>(lvl, f). (output_level c, f)) (moving_files c)"
    unfolding move_edit_def by (rule conjunct2 [OF step])
qed

lemma scan_moves_virtual:
  assumes "\<forall>(lvl, f) \<in> set fs. Lookup r (GetNumber (fd f)) \<noteq> None"
  shows "scan_moves E v cfd r fs physical moved =
    Inr (physical, moved @ map (\<lambda>(lvl, f). (GetNumber (fd f), the (Lookup r (GetNumber (fd f))))) fs)"
  using assms
  by (induction fs arbitrary: moved) auto

text \<open>Registering descriptors that are registered already changes no answer.\<close>

lemma Lookup_fold_Register_same:
  assumes "registry_inv r" "\<forall>(n, d) \<in> set ps. Lookup r n = Some d"
  shows "registry_inv (fold (\<lambda>(n, d). Register n d) ps r) \<and> Lookup (fold (\<lambda>(n, d). Register n d) ps r) = Lookup r"
  using assms
proof (induction ps arbitrary: r)
  case (Cons p ps)
  obtain n d where p: "p = (n, d)" by fastforce
  have same: "Lookup (Register n d r) = Lookup r"
    using Cons.prems by (auto simp: p vf.lookup_register fun_eq_iff)
  show ?case
    using Cons.IH [of "Register n d r"] Cons.prems vf.inv_register [OF Cons.prems(1)] by (simp add: p same)
qed simp

lemma count_move_fields [simp]:
  "virtual_sst_registry (count_move a b d e s) = virtual_sst_registry s"
  "versions (count_move a b d e s) = versions s" "released (count_move a b d e s) = released s"
  by (simp_all add: count_move_def Let_def)

text \<open>
  C12: A trivial move of virtual files only relabels them. When every moving file is
  registered and current, nobody else commits and the L0 window has no backlog, one
  edit goes to the manifest that deletes each file from its level and adds it to the
  output level with its metadata unchanged, packed number and path included; the
  result and the release of the compaction carry the status of that write; and no
  lookup in the registry changes, whether the write succeeds or not.
\<close>

theorem PerformTrivialMove_relabels:
  assumes "virtual_sst_registry s = Some r" "registry_inv r" "use_virtual_compaction s"
    and "moving_files c \<noteq> []" "\<forall>(lvl, f) \<in> set (moving_files c). Lookup r (GetNumber (fd f)) \<noteq> None \<and>
           FileIsCurrent E (versions s) (cmp_cfd c) (GetNumber (fd f))"
    and "commit_queue s = []" "\<not> commit_in_progress s" "virtual_l0_pending s = []"
    and "CommitLog E [move_edit c] (versions s) = (st, called, v)" "called \<or> \<not> ok st"
  shows "\<exists>s' r'. PerformTrivialMove E c i False moved_files moved_bytes s =
      Some (st, Some True, moved_files + of_nat (length (moving_files c)),
            moved_bytes + file_bytes (moving_files c), s') \<and>
    deleted_files (move_edit c) =
      deleted_files (cmp_edit c) \<union> (\<lambda>(lvl, f). (lvl, GetNumber (fd f))) ` set (moving_files c) \<and>
    new_files (move_edit c) = new_files (cmp_edit c) @ map (\<lambda>(lvl, f). (output_level c, f)) (moving_files c) \<and>
    versions s' = v \<and> released s' = released s @ [(i, st)] \<and>
    virtual_sst_registry s' = Some r' \<and> registry_inv r' \<and> Lookup r' = Lookup r"
proof -
  define moved where "moved = map (\<lambda>(lvl, f). (GetNumber (fd f), the (Lookup r (GetNumber (fd f))))) (moving_files c)"
  define q where "q = move_request c False (moved_bytes + file_bytes (moving_files c)) moved"
  define s1 where "s1 = s\<lparr>ticks := Suc (ticks s)\<rparr>"
  have "\<forall>(lvl, f) \<in> set (moving_files c). Lookup r (GetNumber (fd f)) \<noteq> None" using assms(5) by auto
  then have sc: "scan_moves E (versions s) (cmp_cfd c) r (moving_files c) False [] = Inr (False, moved)"
    by (simp only: scan_moves_virtual moved_def append_Nil)
  have ne: "moved \<noteq> []" using assms(4) by (simp add: moved_def)
  obtain res s2 where cm: "CommitVirtualCompactionEdit (commit_part E) (batch_max_env E) (Others E) i q s1 = (res, s2)" by fastforce
  have part: "CommitLog (commit_part E) = CommitLog E" "FileIsCurrent (commit_part E) = FileIsCurrent E"
    by (simp_all add: commit_part_def commit_env.truncate_def)
  have qf: "req_cfd q = cmp_cfd c" "req_edit q = move_edit c" "input_file_numbers q = map fst moved"
      "moved_virtuals q = Some moved" "compaction_released q = Some False"
    by (simp_all add: q_def move_request_def Let_def)
  have s1: "commit_queue s1 = []" "\<not> commit_in_progress s1" "virtual_l0_pending s1 = []" "virtual_sst_registry s1 = Some r"
      "CommitLog (commit_part E) [req_edit q] (versions s1) = (st, called, v)" "released s1 = released s"
    using assms by (simp_all add: s1_def part qf)
  have cur: "list_all (FileIsCurrent (commit_part E) (versions s1) (req_cfd q)) (input_file_numbers q)"
    using assms(5) by (auto simp: part qf s1_def moved_def list_all_iff)
  note r = commit_alone [OF s1(1-4) qf(5) cur s1(5) assms(10) cm]
  obtain flag s3 where rl: "release_compaction i st (compaction_released (requests s2 i)) s2 = (flag, s3)" by fastforce
  note rel = release_compaction_fields [OF rl]
  define r' where "r' = (if ok st then publish_request q r else r)"
  have "\<forall>(n, d) \<in> set moved. Lookup r n = Some d" using assms(5) by (auto simp: moved_def)
  note same = Lookup_fold_Register_same [OF assms(2) this]
  have r': "registry_inv r'" "Lookup r' = Lookup r" using same assms(2) by (simp_all add: r'_def publish_request_def qf(4))
  obtain la qw bs where res: "res = (st, la, qw, bs)" using r(1) by (cases res) auto
  define s' where "s' = count_move (moved_files + of_nat (length (moving_files c))) (moved_bytes + file_bytes (moving_files c))
      la (clock E (ticks s3) - clock E (ticks s)) (s3\<lparr>ticks := Suc (ticks s3)\<rparr>)"
  have "PerformTrivialMove E c i False moved_files moved_bytes s =
      Some (st, Some True, moved_files + of_nat (length (moving_files c)), moved_bytes + file_bytes (moving_files c), s')"
    using cm rl rel(4) [OF r(3)] ne
    by (simp add: PerformTrivialMove_def assms(1,3) sc NowMicros_def Let_def s1_def [symmetric] q_def [symmetric] res s'_def)
  moreover have "versions s' = v" "released s' = released s @ [(i, st)]" "virtual_sst_registry s' = Some r'"
    using rel(1,2) rel(4) [OF r(3)] r(2,4,5) s1(6) by (simp_all add: s'_def r'_def)
  ultimately show ?thesis using move_edit_files [of c] r' by blast
qed

definition demo_move :: Compaction where
  "demo_move = demo_compaction\<lparr>output_level := 1\<rparr>"

theorem PerformTrivialMove_relabels_witness:
  "\<exists>s' r'. PerformTrivialMove demo_run_env demo_move 0 False 0 0 (demo_run_db\<lparr>use_virtual_compaction := True\<rparr>) =
      Some (OK, Some True, 1, 0, s') \<and> released s' = [(0, OK)] \<and> virtual_sst_registry s' = Some r' \<and>
      Lookup r' 1 = Some (single_vsst 7)"
proof -
  let ?s = "demo_run_db\<lparr>use_virtual_compaction := True\<rparr>" and ?r = "Register 1 (single_vsst 7) new_registry"
  let ?f = "output_meta new_registry 1 (single_vsst 7)"
  have num: "GetNumber (fd ?f) = 1" by (simp add: output_meta_def kFileNumberMask_def)
  have mv: "moving_files demo_move = [(0, ?f)]"
    by (simp add: moving_files_def moving_levels_def demo_move_def demo_compaction_def)
  have lk: "Lookup ?r 1 = Some (single_vsst 7)" using vf.lookup_register [OF registry_inv_new] by simp
  have st: "virtual_sst_registry ?s = Some ?r" "commit_queue ?s = []" "\<not> commit_in_progress ?s" "virtual_l0_pending ?s = []"
      "released ?s = []"
    by (simp_all add: demo_run_db_def demo_commit_db_def DBImpl.defs)
  have "\<forall>(lvl, f) \<in> set (moving_files demo_move). Lookup ?r (GetNumber (fd f)) \<noteq> None \<and>
      FileIsCurrent demo_run_env (versions ?s) (cmp_cfd demo_move) (GetNumber (fd f))"
    by (simp add: mv num lk demo_run_env_simps)
  moreover have "CommitLog demo_run_env [move_edit demo_move] (versions ?s) = (OK, True, versions ?s)"
    by (simp add: demo_run_env_simps)
  moreover have "file_bytes (moving_files demo_move) = 0"
    by (simp add: mv file_bytes_def output_meta_def make_fd_def single_vsst_def)
  ultimately show ?thesis
    using PerformTrivialMove_relabels [of ?s ?r demo_move demo_run_env OK True "versions ?s" 0 0 0]
      registry_inv_Register [OF registry_inv_new] st
    by (auto simp: mv lk)
qed

end
