(* ===== verification/Install_Materialization.thy ===== *)
theory Install_Materialization
  imports Version_Edit "HOL-Library.Product_Lexorder"
begin

text \<open>
  The installation of materialized table files,
  \<open>InstallVirtualCompactionMaterialization\<close> in
  \<open>db/db_impl/db_impl_compaction_flush.cc\<close>. The caller's edit replaces every current
  file by external tables whose keys have sequence zero; the code checks the edit,
  gives each file one sequence number of its own, oldest data first, logs the edit
  and publishes the last number. The write queues are entered for the whole call, so
  it is one step. Super versions and the background error are left out.
\<close>

section \<open>State\<close>

record 'v SequenceDB =
  mat_versions :: 'v
  vs_last_sequence :: SequenceNumber
  vs_last_allocated_sequence :: SequenceNumber
  vs_last_published_sequence :: SequenceNumber

text \<open>
  What the code reads of the database: whether background work is paused, whether the
  memtables are empty, the id of the default column family, whether its tables are
  block based, whether its comparator has no timestamps, the comparator, the number of
  levels and the files of the current version, and the call of \<open>LogAndApply\<close>.
\<close>

record 'v install_env =
  bg_work_paused :: bool
  memtables_empty :: bool
  default_cf_id :: u32
  block_based_tables :: bool
  no_timestamps :: bool
  user_compare :: "Slice \<Rightarrow> Slice \<Rightarrow> int"
  num_levels :: int
  current_files :: "'v \<Rightarrow> (int \<times> u64) list"
  InstallLog :: "VersionEdit \<Rightarrow> 'v \<Rightarrow> status \<times> 'v"

section \<open>The checks\<close>

definition install_guard :: "'v install_env \<Rightarrow> 'v \<Rightarrow> VersionEdit \<Rightarrow> status" where
  "install_guard E v e =
     (if \<not> bg_work_paused E \<or> \<not> memtables_empty E
      then InvalidArgument ''Materialization requires paused background work and empty memtables''
      else if column_family e \<noteq> default_cf_id E \<or> \<not> block_based_tables E \<or> \<not> no_timestamps E
      then NotSupported ''Materialization requires the default CF, block-based external SSTs, and no user timestamps''
      else if \<not> list_all (\<lambda>x. x \<in> deleted_files e) (current_files E v)
      then InvalidArgument ''Materialization must replace every current file''
      else OK)"

definition check_file :: "'v install_env \<Rightarrow> int \<times> FileMetaData \<Rightarrow> status" where
  "check_file E x =
     (case x of (level, file) \<Rightarrow>
        case ParseInternalKey (smallest file) of Inl st \<Rightarrow> st
        | Inr lo \<Rightarrow>
            (case ParseInternalKey (largest file) of Inl st \<Rightarrow> st
             | Inr hi \<Rightarrow>
                 if level < 0 \<or> num_levels E \<le> level \<or>
                    smallest_seqno (fd file) \<noteq> 0 \<or> largest_seqno (fd file) \<noteq> 0 \<or>
                    sequence lo \<noteq> 0 \<or> sequence hi \<noteq> 0 \<or> type lo \<noteq> kTypeValue \<or> type hi \<noteq> kTypeValue \<or>
                    0 < user_compare E (user_key lo) (user_key hi)
                 then InvalidArgument ''Invalid sequence-zero materialization file metadata''
                 else OK))"

fun check_files :: "'v install_env \<Rightarrow> (int \<times> FileMetaData) list \<Rightarrow> status" where
  "check_files E [] = OK"
| "check_files E (x # xs) = (let st = check_file E x in if ok st then check_files E xs else st)"

section \<open>Sequence numbers\<close>

text \<open>Deeper levels first; inside a level by epoch and then by file number.\<close>

definition install_key :: "int \<times> FileMetaData \<Rightarrow> int \<times> u64 \<times> u64" where
  "install_key x = (case x of (level, file) \<Rightarrow> (- level, epoch_number file, GetNumber (fd file)))"

definition install_order :: "(int \<times> FileMetaData) list \<Rightarrow> nat list" where
  "install_order files = sort_key (\<lambda>i. install_key (files ! i)) [0..<length files]"

definition stamp :: "SequenceNumber \<Rightarrow> int \<times> FileMetaData \<Rightarrow> int \<times> FileMetaData" where
  "stamp q x =
     (case x of (level, file) \<Rightarrow>
        (level, file\<lparr>fd := (fd file)\<lparr>smallest_seqno := q, largest_seqno := q\<rparr>,
                     smallest := UpdateInternalKey (smallest file) q kTypeValue,
                     largest := UpdateInternalKey (largest file) q kTypeValue\<rparr>))"

fun assign_sequences ::
    "nat list \<Rightarrow> SequenceNumber \<Rightarrow> (int \<times> FileMetaData) list \<Rightarrow> (int \<times> FileMetaData) list \<times> SequenceNumber" where
  "assign_sequences [] q files = (files, q)"
| "assign_sequences (i # is) q files = assign_sequences is (q + 1) (files[i := stamp (q + 1) (files ! i)])"

definition start_sequence :: "'v SequenceDB \<Rightarrow> SequenceNumber" where
  "start_sequence s =
     max (vs_last_sequence s) (max (vs_last_allocated_sequence s) (vs_last_published_sequence s))"

definition sequence_space :: "SequenceNumber \<Rightarrow> nat \<Rightarrow> bool" where
  "sequence_space q n \<longleftrightarrow> \<not> (q \<ge> kMaxSequenceNumber \<or> n \<ge> unat (kMaxSequenceNumber - q))"

section \<open>The call\<close>

text \<open>The edit is the caller's; None is a null pointer. It is returned as the code leaves it.\<close>

definition InstallVirtualCompactionMaterialization ::
    "'v install_env \<Rightarrow> VersionEdit option \<Rightarrow> 'v SequenceDB \<Rightarrow> status \<times> VersionEdit option \<times> 'v SequenceDB" where
  "InstallVirtualCompactionMaterialization E edit s =
     (case edit of
        None \<Rightarrow> (InvalidArgument ''Missing materialization VersionEdit'', None, s)
      | Some e \<Rightarrow>
          let g = install_guard E (mat_versions s) e
          in if \<not> ok g then (g, Some e, s)
             else let k = check_files E (new_files e)
                  in if \<not> ok k then (k, Some e, s)
                     else let q0 = start_sequence s
                          in if \<not> sequence_space q0 (length (new_files e))
                             then (InvalidArgument ''Materialization sequence space exhausted'', Some e, s)
                             else let (files', q) = assign_sequences (install_order (new_files e)) q0 (new_files e);
                                      e' = SetLastSequence q (e\<lparr>new_files := files'\<rparr>);
                                      (st, v) = InstallLog E e' (mat_versions s);
                                      s1 = s\<lparr>mat_versions := v\<rparr>
                                  in (st, Some e',
                                      if ok st
                                      then s1\<lparr>vs_last_allocated_sequence := q, vs_last_published_sequence := q,
                                              vs_last_sequence := q\<rparr>
                                      else s1))"

section \<open>The assignment\<close>

lemma assign_sequences_spec:
  assumes "distinct is" "\<forall>i \<in> set is. i < length files" "assign_sequences is q files = (files', q')"
  shows "q' = q + of_nat (length is)" "length files' = length files"
    "\<And>j. j < length is \<Longrightarrow> files' ! (is ! j) = stamp (q + of_nat (Suc j)) (files ! (is ! j))"
    "\<And>i. i \<notin> set is \<Longrightarrow> files' ! i = files ! i"
  using assms
proof (induction "is" arbitrary: q files)
  case (Cons k ks)
  { case 1
    with Cons.IH(1) [of "files[k := stamp (q + 1) (files ! k)]" "q + 1"] show ?case by simp
  next
    case 2
    with Cons.IH(2) [of "files[k := stamp (q + 1) (files ! k)]" "q + 1"] show ?case by simp
  next
    case (3 j)
    note rest = Cons.IH(3,4) [of _ "files[k := stamp (q + 1) (files ! k)]" "q + 1"]
    show ?case
    proof (cases j)
      case 0
      then show ?thesis using rest(2) [of k] 3 by simp
    next
      case (Suc j')
      then have "j' < length ks" "ks ! j' \<noteq> k" using 3 by auto
      then show ?thesis using rest(1) [of j'] 3 Suc by (simp add: add.assoc)
    qed
  next
    case (4 i)
    with Cons.IH(4) [of i "files[k := stamp (q + 1) (files ! k)]" "q + 1"] show ?case by simp
  }
qed simp_all

lemma install_order_perm: "set (install_order files) = {0..<length files}" "distinct (install_order files)"
    "length (install_order files) = length files"
  by (auto simp: install_order_def)

lemma install_order_sorted:
  assumes "j < k" "k < length files"
  shows "install_key (files ! (install_order files ! j)) \<le> install_key (files ! (install_order files ! k))"
proof -
  let ?ks = "map (\<lambda>i. install_key (files ! i)) (install_order files)"
  have "sorted ?ks" by (simp add: install_order_def)
  moreover have "j \<le> k" "k < length ?ks" using assms by (simp_all add: install_order_perm)
  ultimately have "?ks ! j \<le> ?ks ! k" by (rule sorted_nth_mono)
  then show ?thesis using assms by (simp add: install_order_perm)
qed

text \<open>The position of a file in the order.\<close>

lemma install_position:
  assumes "i < length files"
  obtains j where "j < length files" "install_order files ! j = i"
  using assms install_order_perm [of files] by (metis atLeast0LessThan in_set_conv_nth lessThan_iff)

lemma check_files_all: "ok (check_files E fs) \<Longrightarrow> x \<in> set fs \<Longrightarrow> ok (check_file E x)"
  by (induction fs) (auto simp: Let_def split: if_splits)

lemma stamp_keys:
  assumes "ok (check_file E (l, f))" "q \<le> kMaxSequenceNumber"
  obtains lo hi where "ParseInternalKey (smallest f) = Inr lo" "ParseInternalKey (largest f) = Inr hi"
    "ParseInternalKey (smallest (snd (stamp q (l, f)))) = Inr (lo\<lparr>sequence := q\<rparr>)"
    "ParseInternalKey (largest (snd (stamp q (l, f)))) = Inr (hi\<lparr>sequence := q\<rparr>)"
proof -
  have upd: "ParseInternalKey (UpdateInternalKey ik q kTypeValue) = Inr (k\<lparr>sequence := q\<rparr>)"
    if "ParseInternalKey ik = Inr k" "type k = kTypeValue" for ik k
  proof -
    note p = ParseInternalKey_Inr [OF that(1)]
    have "k\<lparr>sequence := q, type := kTypeValue\<rparr> = k\<lparr>sequence := q\<rparr>" using that(2) by (cases k) simp
    then have "UpdateInternalKey ik q kTypeValue = AppendInternalKey [] (k\<lparr>sequence := q\<rparr>)"
      using UpdateInternalKey_Append [of k q kTypeValue] p by (simp only:)
    then show ?thesis using ParseInternalKey_Append [of "k\<lparr>sequence := q\<rparr>"] assms(2) p by simp
  qed
  obtain lo where lo: "ParseInternalKey (smallest f) = Inr lo"
    using assms(1) by (auto simp: check_file_def ok_def ParseInternalKey_def Let_def split: sum.splits if_splits option.splits)
  obtain hi where hi: "ParseInternalKey (largest f) = Inr hi"
    using assms(1) lo by (auto simp: check_file_def ok_def ParseInternalKey_def Let_def split: sum.splits if_splits option.splits)
  have "type lo = kTypeValue" "type hi = kTypeValue"
    using assms(1) lo hi by (auto simp: check_file_def split: if_splits)
  then show thesis using that [OF lo hi] upd lo hi by (simp add: stamp_def)
qed

text \<open>
  C7: Materialized files get sequence numbers that match the order in which a lookup
  searches them. Either the call fails with the edit and the state as they were, or
  every file of the edit carries one number of its own, above all numbers in use and
  below the sentinel; its boundary keys keep their user keys and parse with that
  number; a file of a shallower level, or of the same level with a later epoch or a
  larger file number, has the larger number; the edit persists the last number
  assigned; and the three sequence counters move to it exactly when the manifest
  write succeeds.
\<close>

theorem materialization_sequences:
  assumes "InstallVirtualCompactionMaterialization E (Some e) s = (st, Some e', s')"
  shows "\<not> ok st \<and> e' = e \<and> s' = s \<or>
    length (new_files e') = length (new_files e) \<and>
    (\<exists>q. last_sequence e' = Some q \<and> unat q = unat (start_sequence s) + length (new_files e) \<and> q < kMaxSequenceNumber \<and>
      (\<forall>i < length (new_files e).
         let (l, f) = new_files e ! i; (l', f') = new_files e' ! i; n = smallest_seqno (fd f')
         in l' = l \<and> largest_seqno (fd f') = n \<and> start_sequence s < n \<and> n \<le> q \<and>
            (\<exists>lo hi. ParseInternalKey (smallest f) = Inr lo \<and> ParseInternalKey (smallest f') = Inr (lo\<lparr>sequence := n\<rparr>) \<and>
                     ParseInternalKey (largest f) = Inr hi \<and> ParseInternalKey (largest f') = Inr (hi\<lparr>sequence := n\<rparr>))) \<and>
      (\<forall>i < length (new_files e). \<forall>k < length (new_files e). i \<noteq> k \<longrightarrow>
         smallest_seqno (fd (snd (new_files e' ! i))) \<noteq> smallest_seqno (fd (snd (new_files e' ! k))) \<and>
         (install_key (new_files e ! i) < install_key (new_files e ! k) \<longrightarrow>
            smallest_seqno (fd (snd (new_files e' ! i))) < smallest_seqno (fd (snd (new_files e' ! k))))) \<and>
      (if ok st
       then vs_last_sequence s' = q \<and> vs_last_allocated_sequence s' = q \<and> vs_last_published_sequence s' = q
       else vs_last_sequence s' = vs_last_sequence s \<and>
            vs_last_allocated_sequence s' = vs_last_allocated_sequence s \<and>
            vs_last_published_sequence s' = vs_last_published_sequence s))"
proof (cases "ok (install_guard E (mat_versions s) e) \<and> ok (check_files E (new_files e)) \<and>
    sequence_space (start_sequence s) (length (new_files e))")
  case False
  then have "\<not> ok st \<and> e' = e \<and> s' = s"
    using assms by (auto simp: InstallVirtualCompactionMaterialization_def Let_def split: if_splits)
  then show ?thesis by blast
next
  case True
  let ?fs = "new_files e" and ?q0 = "start_sequence s"
  let ?is = "install_order (new_files e)"
  obtain fs' q where as: "assign_sequences ?is ?q0 ?fs = (fs', q)" by fastforce
  have e': "new_files e' = fs'" "last_sequence e' = Some q"
    and s': "if ok st then vs_last_sequence s' = q \<and> vs_last_allocated_sequence s' = q \<and> vs_last_published_sequence s' = q
       else vs_last_sequence s' = vs_last_sequence s \<and> vs_last_allocated_sequence s' = vs_last_allocated_sequence s \<and>
            vs_last_published_sequence s' = vs_last_published_sequence s"
    using assms True
    by (auto simp: InstallVirtualCompactionMaterialization_def as Let_def SetLastSequence_def split: prod.splits)
  note A = assign_sequences_spec [OF install_order_perm(2) _ as]
  have "\<forall>i \<in> set ?is. i < length ?fs" by (simp add: install_order_perm)
  note A = A [OF this, unfolded install_order_perm(3)]
  have sp: "unat ?q0 + length ?fs < unat kMaxSequenceNumber" "unat kMaxSequenceNumber < 2 ^ 63"
    using True by (auto simp: sequence_space_def word_le_nat_alt unat_sub_u64 kMaxSequenceNumber_def not_le)
  have num: "unat (?q0 + of_nat m) = unat ?q0 + m" if "m \<le> length ?fs" for m
  proof -
    have "unat (of_nat m :: u64) = m" using that sp by (simp add: unat_of_nat)
    then show ?thesis using that sp by (subst unat_add_u64) simp_all
  qed
  have q: "unat q = unat ?q0 + length ?fs" using A(1) num [of "length ?fs"] by simp
  define pos where "pos i = (THE j. j < length ?fs \<and> ?is ! j = i)" for i
  have pos: "pos i < length ?fs \<and> ?is ! pos i = i" if il: "i < length ?fs" for i
  proof -
    obtain j where j: "j < length ?fs" "?is ! j = i" using install_position [OF il] .
    moreover have "j' = j" if "j' < length ?fs \<and> ?is ! j' = i" for j'
      using that j install_order_perm(2,3) [of ?fs] by (metis nth_eq_iff_index_eq)
    ultimately have "\<exists>!j. j < length ?fs \<and> ?is ! j = i" by blast
    then show ?thesis unfolding pos_def by (rule theI')
  qed
  have st: "fs' ! i = stamp (?q0 + of_nat (Suc (pos i))) (?fs ! i)" if "i < length ?fs" for i
    using A(3) [of "pos i"] pos [OF that] by simp
  have seq: "unat (smallest_seqno (fd (snd (fs' ! i)))) = unat ?q0 + Suc (pos i)" if "i < length ?fs" for i
    using st [OF that] num [of "Suc (pos i)"] pos [OF that] by (simp add: stamp_def split: prod.splits)
  have stamped: "let (l, f) = ?fs ! i; (l', f') = fs' ! i; n = smallest_seqno (fd f')
         in l' = l \<and> largest_seqno (fd f') = n \<and> ?q0 < n \<and> n \<le> q \<and>
            (\<exists>lo hi. ParseInternalKey (smallest f) = Inr lo \<and> ParseInternalKey (smallest f') = Inr (lo\<lparr>sequence := n\<rparr>) \<and>
                     ParseInternalKey (largest f) = Inr hi \<and> ParseInternalKey (largest f') = Inr (hi\<lparr>sequence := n\<rparr>))"
    if i: "i < length ?fs" for i
  proof -
    obtain l f where lf: "?fs ! i = (l, f)" by fastforce
    let ?n = "?q0 + of_nat (Suc (pos i))"
    have un: "unat ?n = unat ?q0 + Suc (pos i)" using num [of "Suc (pos i)"] pos [OF i] by simp
    have ck: "ok (check_file E (l, f))" using True check_files_all nth_mem [OF i] lf by metis
    have le: "?n \<le> kMaxSequenceNumber" "?q0 < ?n" "?n \<le> q"
      using un pos [OF i] sp(1) q by (simp_all only: word_le_nat_alt word_less_nat_alt) simp_all
    obtain lo hi where "ParseInternalKey (smallest f) = Inr lo" "ParseInternalKey (largest f) = Inr hi"
      "ParseInternalKey (smallest (snd (stamp ?n (l, f)))) = Inr (lo\<lparr>sequence := ?n\<rparr>)"
      "ParseInternalKey (largest (snd (stamp ?n (l, f)))) = Inr (hi\<lparr>sequence := ?n\<rparr>)"
      by (rule stamp_keys [OF ck le(1)])
    then show ?thesis using st [OF i] le(2,3) by (simp add: lf stamp_def)
  qed
  have prec: "smallest_seqno (fd (snd (fs' ! i))) \<noteq> smallest_seqno (fd (snd (fs' ! k))) \<and>
      (install_key (?fs ! i) < install_key (?fs ! k) \<longrightarrow>
         smallest_seqno (fd (snd (fs' ! i))) < smallest_seqno (fd (snd (fs' ! k))))"
    if "i < length ?fs" "k < length ?fs" "i \<noteq> k" for i k
  proof -
    have ne: "pos i \<noteq> pos k" using pos [OF that(1)] pos [OF that(2)] that(3) by metis
    moreover have "pos i < pos k" if "install_key (?fs ! i) < install_key (?fs ! k)"
      using install_order_sorted [of "pos k" "pos i" ?fs] pos [OF \<open>i < length ?fs\<close>] pos [OF \<open>k < length ?fs\<close>] that ne by force
    ultimately show ?thesis using seq [OF that(1)] seq [OF that(2)] by (auto simp: word_unat_eq_iff word_less_nat_alt)
  qed
  have "q < kMaxSequenceNumber" using q sp(1) by (simp add: word_less_nat_alt)
  then show ?thesis using e' A(2) q stamped prec s' by (intro disjI2 conjI exI [of _ q]) simp_all
qed

definition demo_table :: "u64 \<Rightarrow> FileMetaData" where
  "demo_table n =
     \<lparr>fd = make_fd n 0 100 0 0, smallest = AppendInternalKey [] \<lparr>user_key = [1], sequence = 0, type = kTypeValue\<rparr>,
      largest = AppendInternalKey [] \<lparr>user_key = [9], sequence = 0, type = kTypeValue\<rparr>,
      marked_for_compaction = False, temperature = 0, oldest_blob_file_number = 0, oldest_ancester_time = 0,
      file_creation_time = 0, epoch_number = n, file_checksum = [], file_checksum_func_name = [],
      unique_id = (0, 0), compensated_range_deletion_size = 0, tail_size = 0,
      user_defined_timestamps_persisted = True\<rparr>"

definition demo_install_env :: "unit install_env" where
  "demo_install_env =
     \<lparr>bg_work_paused = True, memtables_empty = True, default_cf_id = 0, block_based_tables = True,
      no_timestamps = True, user_compare = Db_Format.compare, num_levels = 7, current_files = (\<lambda>_. []),
      InstallLog = (\<lambda>_ v. (OK, v))\<rparr>"

definition demo_sequences :: "unit SequenceDB" where
  "demo_sequences = \<lparr>mat_versions = (), vs_last_sequence = 5, vs_last_allocated_sequence = 5,
     vs_last_published_sequence = 5\<rparr>"

text \<open>A file at level 0 and one at level 1: the one at level 0 gets the larger number.\<close>

theorem materialization_sequences_witness:
  "\<exists>e' s'. InstallVirtualCompactionMaterialization demo_install_env
       (Some (new_edit\<lparr>new_files := [(0, demo_table 8), (1, demo_table 9)]\<rparr>)) demo_sequences = (OK, Some e', s') \<and>
     smallest_seqno (fd (snd (new_files e' ! 1))) < smallest_seqno (fd (snd (new_files e' ! 0)))"
proof -
  let ?e = "new_edit\<lparr>new_files := [(0, demo_table 8), (1, demo_table 9)]\<rparr>"
  let ?E = demo_install_env and ?s = demo_sequences
  have "check_file ?E (l, demo_table n) = OK" if "l = 0 \<or> l = 1" for l n
    using that
    by (auto simp: check_file_def demo_table_def demo_install_env_def make_fd_def ParseInternalKey_Append
        kMaxSequenceNumber_def IsExtendedValueType_def IsValueType_def kTypeValue_def Db_Format.compare_def)
  then have ck: "check_files ?E (new_files ?e) = OK" by simp
  have gd: "install_guard ?E v ?e = OK" for v
    by (simp add: install_guard_def demo_install_env_def new_edit_def)
  have sp: "sequence_space (start_sequence ?s) (length (new_files ?e))"
    by (simp add: sequence_space_def start_sequence_def demo_sequences_def kMaxSequenceNumber_def)
  obtain fs q where as: "assign_sequences (install_order (new_files ?e)) (start_sequence ?s) (new_files ?e) = (fs, q)"
    by fastforce
  obtain e' s' where run: "InstallVirtualCompactionMaterialization ?E (Some ?e) ?s = (OK, Some e', s')"
    using ck gd sp as by (auto simp: InstallVirtualCompactionMaterialization_def Let_def) (auto simp: demo_install_env_def)
  have "install_key (new_files ?e ! 1) < install_key (new_files ?e ! 0)" by (simp add: install_key_def)
  then show ?thesis using materialization_sequences [OF run] run by auto
qed

end
