(* ===== verification/Key_Bitmap.thy ===== *)
theory Key_Bitmap
  imports Vc_Prelude
begin

text \<open>
  Bitmaps over key ids in \<open>tools/db_bench_tool.cc\<close>: \<open>UniqueKeyReservation\<close>, which
  hands out keys that no other file has produced, and \<open>KeyMembership\<close> with its
  \<open>Cursor\<close>, which spreads a number of keys evenly over a range. A bitmap is a list
  of 64-bit words, an access outside the array is None. Words are read and written
  atomically and concurrent callers use different keys, so each call is one step.
\<close>

unbundle bit_operations_syntax

section \<open>Words as lists of bit numbers\<close>

definition set_bits :: "u64 \<Rightarrow> nat list" where
  "set_bits w = filter (bit w) [0..<64]"

text \<open>\<open>CountTrailingZeroBits\<close> is undefined on zero.\<close>

definition BitsSetToOne :: "u64 \<Rightarrow> u64" where
  "BitsSetToOne w = of_nat (length (set_bits w))"

definition CountTrailingZeroBits :: "u64 \<Rightarrow> u64 option" where
  "CountTrailingZeroBits w = (case set_bits w of [] \<Rightarrow> None | i # _ \<Rightarrow> Some (of_nat i))"

lemma set_bits_sorted: "sorted_wrt (<) (set_bits w)"
  by (simp add: set_bits_def sorted_wrt_filter)

lemma set_set_bits: "set (set_bits w) = {i. bit w i}"
  by (auto simp: set_bits_def dest: bit_imp_le_length)

lemma set_bits_Nil: "set_bits w = [] \<longleftrightarrow> w = 0"
proof
  assume "set_bits w = []"
  then have "\<not> bit w i" for i using set_set_bits [of w] by auto
  then show "w = 0" by (intro bit_word_eqI) simp
qed (simp add: set_bits_def)

lemma set_bits_0 [simp]: "set_bits 0 = []"
  by (simp add: set_bits_Nil)

text \<open>\<open>w &= w - 1\<close> clears the lowest bit.\<close>

lemma clear_lowest:
  assumes "set_bits w = k # ks"
  shows "set_bits (w AND (w - 1)) = ks"
proof -
  have k: "bit w k" "k < 64" "\<And>i. i < k \<Longrightarrow> \<not> bit w i"
  proof -
    show "bit w k" using assms set_set_bits [of w] by auto
    then show "k < 64" using bit_imp_le_length by fastforce
    fix i assume "i < k"
    then show "\<not> bit w i" using assms set_bits_sorted [of w] set_set_bits [of w] by (force simp: set_eq_iff)
  qed
  obtain m where m: "k < m" "\<And>n. k < n \<Longrightarrow> m \<le> n" by (metis Suc_leI lessI)
  let ?a = "push_bit m (drop_bit m w)"
  have "w = ?a OR push_bit k 1"
  proof (rule bit_word_eqI)
    fix n assume "n < LENGTH(64)"
    consider "n < k" | "n = k" | "k < n" by linarith
    then show "bit w n = bit (?a OR push_bit k 1) n"
      using k m \<open>n < LENGTH(64)\<close> by cases (auto simp: bit_simps)
  qed
  moreover have "?a AND push_bit k 1 = 0" using m by (intro bit_word_eqI) (auto simp: bit_simps)
  ultimately have w: "w = ?a + push_bit k 1" by (simp add: disjunctive_add_eq_or)
  have "?a AND mask k = 0" using m by (intro bit_word_eqI) (auto simp: bit_simps)
  then have "w - 1 = ?a OR mask k"
    using w by (simp add: disjunctive_add_eq_or [symmetric] mask_eq_exp_minus_1 algebra_simps)
  have b: "bit (w AND (w - 1)) n \<longleftrightarrow> bit w n \<and> n \<noteq> k" for n
  proof -
    consider "n < k" | "n = k" | "k < n" by linarith
    then show ?thesis
      unfolding \<open>w - 1 = ?a OR mask k\<close> using k m by cases (auto simp: bit_simps dest: bit_imp_le_length)
  qed
  have "set_bits (w AND (w - 1)) = filter (\<lambda>n. n \<noteq> k) (set_bits w)"
    unfolding set_bits_def filter_filter by (rule filter_cong) (simp_all only: b conj_commute)
  also have "\<dots> = ks" using assms set_bits_sorted [of w] by (auto intro: filter_True)
  finally show ?thesis .
qed

section \<open>The words of a key range\<close>

text \<open>A key is bit \<open>key & 63\<close> of word \<open>key >> 6\<close>.\<close>

definition word_of :: "u64 \<Rightarrow> nat" where
  "word_of key = unat (drop_bit 6 key)"

definition bit_of :: "u64 \<Rightarrow> nat" where
  "bit_of key = unat (key AND 63)"

definition range_mask :: "nat \<Rightarrow> nat \<Rightarrow> u64" where
  "range_mask low_bit high_bit = push_bit low_bit (- 1) AND drop_bit (63 - high_bit) (- 1)"

text \<open>The calls \<open>fn(word, mask)\<close> that \<open>ForEachWord\<close> makes until one returns false.\<close>

definition ForEachWord :: "u64 \<Rightarrow> u64 \<Rightarrow> u64 \<Rightarrow> (nat \<times> u64) list" where
  "ForEachWord key_domain first final =
     (if first > final \<or> first \<ge> key_domain then []
      else let final = (if final \<ge> key_domain then key_domain - 1 else final)
           in map (\<lambda>word. (word, range_mask (if word = word_of first then bit_of first else 0)
                                         (if word = word_of final then bit_of final else 63)))
                [word_of first..<Suc (word_of final)])"

text \<open>The keys of a range whose bit is set in the words \<open>x\<close>, in order, as numbers.\<close>

definition keys_in :: "(nat \<Rightarrow> u64) \<Rightarrow> u64 \<Rightarrow> u64 \<Rightarrow> u64 \<Rightarrow> nat list" where
  "keys_in x key_domain first final =
     filter (\<lambda>k. bit (x (k div 64)) (k mod 64)) [unat first..<min (Suc (unat final)) (unat key_domain)]"

lemma word_bit_of: "word_of k = unat k div 64" "bit_of k = unat k mod 64"
proof -
  show "word_of k = unat k div 64" by (simp add: word_of_def unat_drop_bit)
  have "k AND 63 = take_bit 6 k" by (simp add: take_bit_eq_mask mask_eq_exp_minus_1)
  then show "bit_of k = unat k mod 64" by (simp add: bit_of_def take_bit_eq_mod unat_mod)
qed

lemma bit_range_mask:
  "low \<le> 63 \<Longrightarrow> high \<le> 63 \<Longrightarrow> bit (range_mask low high) i \<longleftrightarrow> low \<le> i \<and> i \<le> high"
  by (auto simp: range_mask_def bit_simps)

lemma set_bits_range:
  assumes "low \<le> 63" "high \<le> 63"
  shows "set_bits (range_mask low high AND x) = filter (bit x) [low..<Suc high]"
proof -
  have "set_bits (range_mask low high AND x) = filter (bit x) (filter (\<lambda>i. low \<le> i \<and> i \<le> high) [0..<64])"
    unfolding set_bits_def filter_filter by (rule filter_cong) (auto simp: bit_and_iff bit_range_mask [OF assms])
  also have "filter (\<lambda>i. low \<le> i \<and> i \<le> high) [0..<64] = [low..<Suc high]"
  proof (rule sorted_distinct_set_unique)
    show "set (filter (\<lambda>i. low \<le> i \<and> i \<le> high) [0..<64]) = set [low..<Suc high]" using assms by auto
  qed (simp_all add: sorted_wrt_filter del: upt_Suc)
  finally show ?thesis .
qed

text \<open>The words of a range, laid end to end, are the range.\<close>

lemma word_ranges:
  assumes "f \<le> l"
  shows "concat (map (\<lambda>w. [64 * w + (if w = f div 64 then f mod 64 else 0)..<
                            64 * w + Suc (if w = l div 64 then l mod 64 else 63)]) [f div 64..<Suc (l div 64)]) = [f..<Suc l]"
  using assms
proof (induction "l div 64 - f div 64" arbitrary: f)
  case 0
  then have e: "l div 64 = f div 64" using div_le_mono [of f l 64] by simp
  then have "64 * (f div 64) + l mod 64 = l" by (metis mult_div_mod_eq)
  moreover have "64 * (f div 64) + f mod 64 = f" "[f div 64..<Suc (f div 64)] = [f div 64]" by simp_all
  ultimately show ?case by (simp add: e del: upt_Suc)
next
  case (Suc n)
  let ?w = "f div 64" and ?f' = "64 * Suc (f div 64)"
  have lt: "?w < l div 64" using Suc.hyps(2) by linarith
  then have f': "?f' \<le> l" "?f' div 64 = Suc ?w" "?f' mod 64 = 0" "f < ?f'" by auto
  have "n = l div 64 - ?f' div 64" using Suc.hyps(2) f'(2) by simp
  note IH = Suc.hyps(1) [OF this f'(1)]
  have "concat (map (\<lambda>w. [64 * w + (if w = ?w then f mod 64 else 0)..<64 * w + Suc (if w = l div 64 then l mod 64 else 63)])
        [Suc ?w..<Suc (l div 64)]) =
      concat (map (\<lambda>w. [64 * w + (if w = ?f' div 64 then ?f' mod 64 else 0)..<
                 64 * w + Suc (if w = l div 64 then l mod 64 else 63)]) [?f' div 64..<Suc (l div 64)])"
    unfolding f'(2,3) by (rule arg_cong [of _ _ concat], rule map_cong) auto
  also have "\<dots> = [?f'..<Suc l]" by (rule IH)
  finally have rest: "concat (map (\<lambda>w. [64 * w + (if w = ?w then f mod 64 else 0)..<
      64 * w + Suc (if w = l div 64 then l mod 64 else 63)]) [Suc ?w..<Suc (l div 64)]) = [?f'..<Suc l]" .
  have "[?w..<Suc (l div 64)] = ?w # [Suc ?w..<Suc (l div 64)]" using lt by (simp add: upt_conv_Cons)
  moreover have "64 * ?w + Suc 63 = ?f'" "64 * ?w + f mod 64 = f" by simp_all
  moreover have "[f..<?f'] @ [?f'..<Suc l] = [f..<Suc l]" using f'(1,4) upt_add_eq_append [of f ?f' "Suc l - ?f'"] by (simp del: upt_Suc)
  ultimately show ?case using rest lt by (simp del: upt_Suc)
qed

lemma map_shift_upt: "map (\<lambda>i. i + n) [a..<b] = [a + n..<b + n]"
  by (induction b) auto

lemma ForEachWord_keys:
  "concat (map (\<lambda>(w, m). map (\<lambda>i. 64 * w + i) (set_bits (m AND x w))) (ForEachWord kd first final)) =
     keys_in x kd first final"
proof (cases "first > final \<or> first \<ge> kd")
  case True
  then show ?thesis by (auto simp: ForEachWord_def keys_in_def word_le_nat_alt word_less_nat_alt)
next
  case False
  define l where "l = (if final \<ge> kd then kd - 1 else final)"
  have "kd \<noteq> 0" "first < kd" "first \<le> final" using False by auto
  then have l: "unat first \<le> unat l" "min (Suc (unat final)) (unat kd) = Suc (unat l)"
    by (auto simp: l_def word_le_nat_alt word_less_nat_alt unat_minus_one unat_gt_0 not_le min_def)
  let ?lo = "\<lambda>w. if w = unat first div 64 then unat first mod 64 else 0"
  let ?hi = "\<lambda>w. if w = unat l div 64 then unat l mod 64 else 63"
  let ?P = "\<lambda>k. bit (x (k div 64)) (k mod 64)"
  have word: "map (\<lambda>i. 64 * w + i) (set_bits (range_mask (?lo w) (?hi w) AND x w)) =
      filter ?P [64 * w + ?lo w..<64 * w + Suc (?hi w)]" for w
  proof -
    have b: "?lo w \<le> 63" "?hi w \<le> 63" by (auto simp: less_Suc_eq_le [symmetric])
    have "map (\<lambda>i. 64 * w + i) (set_bits (range_mask (?lo w) (?hi w) AND x w)) =
        map (\<lambda>i. 64 * w + i) (filter (bit (x w)) [?lo w..<Suc (?hi w)])"
      by (simp only: set_bits_range [OF b])
    also have "\<dots> = map (\<lambda>i. i + 64 * w) (filter (\<lambda>i. ?P (i + 64 * w)) [?lo w..<Suc (?hi w)])"
      by (intro map_cong filter_cong refl) (use b in \<open>auto simp: div_add_self2\<close>)
    also have "\<dots> = filter ?P (map (\<lambda>i. i + 64 * w) [?lo w..<Suc (?hi w)])"
      by (simp only: filter_map comp_def)
    also have "\<dots> = filter ?P [64 * w + ?lo w..<64 * w + Suc (?hi w)]"
      by (simp only: map_shift_upt add.commute add_Suc)
    finally show ?thesis .
  qed
  have "concat (map (\<lambda>(w, m). map (\<lambda>i. 64 * w + i) (set_bits (m AND x w))) (ForEachWord kd first final)) =
      concat (map (\<lambda>w. map (\<lambda>i. 64 * w + i) (set_bits (range_mask (?lo w) (?hi w) AND x w)))
        [unat first div 64..<Suc (unat l div 64)])"
    unfolding ForEachWord_def Let_def l_def [symmetric] word_bit_of using False by (simp add: comp_def del: upt_Suc)
  also have "\<dots> = concat (map (filter ?P \<circ> (\<lambda>w. [64 * w + ?lo w..<64 * w + Suc (?hi w)]))
        [unat first div 64..<Suc (unat l div 64)])"
    by (simp only: word comp_def)
  also have "\<dots> = filter ?P (concat (map (\<lambda>w. [64 * w + ?lo w..<64 * w + Suc (?hi w)])
        [unat first div 64..<Suc (unat l div 64)]))"
    by (simp only: filter_concat map_map)
  also have "\<dots> = filter ?P [unat first..<Suc (unat l)]" by (simp only: word_ranges [OF l(1)])
  finally show ?thesis by (simp only: keys_in_def l(2))
qed

section \<open>UniqueKeyReservation\<close>

record UniqueKeyReservation =
  bits :: "u64 list"
  rsv_domain :: u64

datatype bitmap_error = DomainIsZero | OverBudget u64 u64 u64

text \<open>The number of words; the sum wraps.\<close>

definition words_for :: "u64 \<Rightarrow> u64" where
  "words_for key_domain = (key_domain + 63) div 64"

definition UniqueKeyReservation_Create :: "u64 \<Rightarrow> u64 \<Rightarrow> bitmap_error + UniqueKeyReservation" where
  "UniqueKeyReservation_Create key_domain max_bytes =
     (if key_domain = 0 then Inl DomainIsZero
      else if words_for key_domain > max_bytes div 8
      then Inl (OverBudget key_domain (words_for key_domain * 8) max_bytes)
      else Inr \<lparr>bits = replicate (unat (words_for key_domain)) 0, rsv_domain = key_domain\<rparr>)"

definition Take :: "u64 \<Rightarrow> UniqueKeyReservation \<Rightarrow> (bool \<times> UniqueKeyReservation) option" where
  "Take key r =
     (let m = push_bit (bit_of key) 1; w = word_of key
      in if w < length (bits r)
         then Some (bits r ! w AND m = 0, r\<lparr>bits := (bits r)[w := bits r ! w OR m]\<rparr>)
         else None)"

fun count_free :: "u64 list \<Rightarrow> (nat \<times> u64) list \<Rightarrow> u64 \<Rightarrow> u64 option" where
  "count_free bs [] free_keys = Some free_keys"
| "count_free bs ((word, m) # ws) free_keys =
     (if word < length bs then count_free bs ws (free_keys + BitsSetToOne (m AND NOT (bs ! word))) else None)"

definition CountFree :: "UniqueKeyReservation \<Rightarrow> u64 \<Rightarrow> u64 \<Rightarrow> u64 option" where
  "CountFree r first final = count_free (bits r) (ForEachWord (rsv_domain r) first final) 0"

text \<open>The outer option is an access outside the array, the inner one a range without a free key.\<close>

fun next_free :: "u64 list \<Rightarrow> (nat \<times> u64) list \<Rightarrow> u64 option option" where
  "next_free bs [] = Some None"
| "next_free bs ((word, m) # ws) =
     (if word < length bs
      then let candidates = m AND NOT (bs ! word)
           in if candidates = 0 then next_free bs ws
              else map_option (\<lambda>b. Some (push_bit 6 (of_nat word) + b)) (CountTrailingZeroBits candidates)
      else None)"

definition NextFree :: "UniqueKeyReservation \<Rightarrow> u64 \<Rightarrow> u64 \<Rightarrow> u64 option option" where
  "NextFree r first final = next_free (bits r) (ForEachWord (rsv_domain r) first final)"

fun select_free :: "u64 list \<Rightarrow> (nat \<times> u64) list \<Rightarrow> u64 \<Rightarrow> u64 option option" where
  "select_free bs [] rank = Some None"
| "select_free bs ((word, m) # ws) rank =
     (if word < length bs
      then let candidates = m AND NOT (bs ! word); count = BitsSetToOne candidates
           in if rank \<ge> count then select_free bs ws (rank - count)
              else map_option (\<lambda>b. Some (push_bit 6 (of_nat word) + b))
                     (CountTrailingZeroBits (((\<lambda>c. c AND (c - 1)) ^^ unat rank) candidates))
      else None)"

definition SelectFree :: "UniqueKeyReservation \<Rightarrow> u64 \<Rightarrow> u64 \<Rightarrow> u64 \<Rightarrow> u64 option option" where
  "SelectFree r first final rank = select_free (bits r) (ForEachWord (rsv_domain r) first final) rank"

definition TakenTotal :: "UniqueKeyReservation \<Rightarrow> u64" where
  "TakenTotal r = sum_list (map BitsSetToOne (bits r))"

section \<open>The reservation as a set of keys\<close>

text \<open>Keys are natural numbers below 64 times the number of words.\<close>

definition bitmap_keys :: "u64 list \<Rightarrow> nat set" where
  "bitmap_keys bs = {k. k div 64 < length bs \<and> bit (bs ! (k div 64)) (k mod 64)}"

definition bitmap_covers :: "u64 \<Rightarrow> u64 list \<Rightarrow> bool" where
  "bitmap_covers kd bs \<longleftrightarrow> kd \<noteq> 0 \<and> length bs = (unat kd + 63) div 64"

definition rsv_ok :: "UniqueKeyReservation \<Rightarrow> bool" where
  "rsv_ok r \<longleftrightarrow> bitmap_covers (rsv_domain r) (bits r)"

lemma bitmap_covers_key: "bitmap_covers kd bs \<Longrightarrow> k < unat kd \<Longrightarrow> k div 64 < length bs"
  by (simp add: bitmap_covers_def)

lemma bitmap_covers_len: "bitmap_covers kd bs \<Longrightarrow> length bs \<le> 2 ^ 58"
  using unat_u64_less [of kd] by (simp add: bitmap_covers_def)

lemma ForEachWord_bounds:
  assumes "bitmap_covers kd bs" "(w, m) \<in> set (ForEachWord kd first final)"
  shows "w < length bs"
proof -
  define l where "l = (if final \<ge> kd then kd - 1 else final)"
  have f: "\<not> (first > final \<or> first \<ge> kd)" using assms(2) by (auto simp: ForEachWord_def)
  then have "w \<le> word_of l" using assms(2) by (auto simp: ForEachWord_def Let_def l_def)
  moreover have "unat l < unat kd"
    using f assms(1) by (auto simp: l_def bitmap_covers_def word_le_nat_alt word_less_nat_alt unat_minus_one unat_gt_0 not_le)
  ultimately show ?thesis using bitmap_covers_key [OF assms(1), of "unat l"] by (simp add: word_bit_of)
qed

lemma length_set_bits: "length (set_bits w) \<le> 64"
  using length_filter_le [of "bit w" "[0..<64]"] by (simp add: set_bits_def)

lemma unat_BitsSetToOne: "unat (BitsSetToOne w) = length (set_bits w)"
  using length_set_bits [of w] by (simp add: BitsSetToOne_def unat_of_nat)

lemma clear_lowest_times: "n \<le> length (set_bits c) \<Longrightarrow> set_bits (((\<lambda>c. c AND (c - 1)) ^^ n) c) = drop n (set_bits c)"
proof (induction n)
  case (Suc n)
  then have d: "set_bits (((\<lambda>c. c AND (c - 1)) ^^ n) c) = set_bits c ! n # drop (Suc n) (set_bits c)"
    by (simp add: Cons_nth_drop_Suc)
  show ?case using clear_lowest [OF d] by simp
qed simp

lemma key_of_word_bit: "of_nat (64 * w + i) = push_bit 6 (of_nat w :: u64) + of_nat i"
  by (simp add: push_bit_eq_mult)

text \<open>The three searches over a list of words.\<close>

abbreviation word_keys :: "(nat \<Rightarrow> u64) \<Rightarrow> nat \<times> u64 \<Rightarrow> nat list" where
  "word_keys x \<equiv> \<lambda>(w, m). map (\<lambda>i. 64 * w + i) (set_bits (m AND x w))"

lemma count_free_list:
  assumes "\<forall>(w, m) \<in> set ws. w < length bs"
  shows "count_free bs ws n = Some (n + of_nat (length (concat (map (word_keys (\<lambda>w. NOT (bs ! w))) ws))))"
  using assms by (induction bs ws n rule: count_free.induct) (auto simp: BitsSetToOne_def)

lemma next_free_list:
  assumes "\<forall>(w, m) \<in> set ws. w < length bs"
  shows "next_free bs ws = Some (case concat (map (word_keys (\<lambda>w. NOT (bs ! w))) ws) of
    [] \<Rightarrow> None | k # _ \<Rightarrow> Some (of_nat k))"
  using assms
proof (induction bs ws rule: next_free.induct)
  case (2 bs w m ws)
  show ?case
  proof (cases "m AND NOT (bs ! w) = 0")
    case True
    then show ?thesis using 2 by simp
  next
    case False
    then obtain i js where "set_bits (m AND NOT (bs ! w)) = i # js" using set_bits_Nil by (metis list.exhaust)
    then show ?thesis using 2 False by (simp add: CountTrailingZeroBits_def key_of_word_bit del: of_nat_add)
  qed
qed simp

lemma select_free_list:
  assumes "\<forall>(w, m) \<in> set ws. w < length bs"
  defines "L \<equiv> concat (map (word_keys (\<lambda>w. NOT (bs ! w))) ws)"
  shows "select_free bs ws rank = Some (if unat rank < length L then Some (of_nat (L ! unat rank)) else None)"
  using assms(1) unfolding L_def
proof (induction bs ws rank rule: select_free.induct)
  case (2 bs w m ws rank)
  let ?c = "m AND NOT (bs ! w)"
  let ?R = "concat (map (word_keys (\<lambda>w. NOT (bs ! w))) ws)"
  have w: "w < length bs" "\<forall>(w, m) \<in> set ws. w < length bs" using 2 by auto
  show ?case
  proof (cases "rank \<ge> BitsSetToOne ?c")
    case True
    then have u: "unat (rank - BitsSetToOne ?c) = unat rank - length (set_bits ?c)" "length (set_bits ?c) \<le> unat rank"
      by (simp_all add: unat_sub_u64 unat_BitsSetToOne word_le_nat_alt)
    then show ?thesis using 2(1) [OF w(1) refl refl True w(2)] w(1) True
      by (simp add: nth_append Let_def) linarith
  next
    case False
    then have lt: "unat rank < length (set_bits ?c)" by (simp add: not_le word_less_nat_alt unat_BitsSetToOne)
    then have "set_bits (((\<lambda>c. c AND (c - 1)) ^^ unat rank) ?c) = set_bits ?c ! unat rank # drop (Suc (unat rank)) (set_bits ?c)"
      using clear_lowest_times [of "unat rank" ?c] by (simp add: Cons_nth_drop_Suc)
    then show ?thesis using False w(1) lt
      by (simp add: Let_def CountTrailingZeroBits_def nth_append key_of_word_bit del: of_nat_add)
  qed
qed simp

text \<open>The keys without a bit, as a set and in order.\<close>

definition free_list :: "nat set \<Rightarrow> u64 \<Rightarrow> u64 \<Rightarrow> u64 \<Rightarrow> nat list" where
  "free_list K kd first final = filter (\<lambda>k. k \<notin> K) [unat first..<min (Suc (unat final)) (unat kd)]"

lemma free_keys_in:
  assumes "bitmap_covers kd bs"
  shows "keys_in (\<lambda>w. NOT (bs ! w)) kd first final = free_list (bitmap_keys bs) kd first final"
  unfolding keys_in_def free_list_def
  by (rule filter_cong)
    (use bitmap_covers_key [OF assms] in \<open>auto simp: bit_not_iff bitmap_keys_def\<close>)

lemma searches:
  assumes "rsv_ok r"
  defines "F \<equiv> free_list (bitmap_keys (bits r)) (rsv_domain r)"
  shows "CountFree r first final = Some (of_nat (length (F first final)))"
    and "NextFree r first final = Some (case F first final of [] \<Rightarrow> None | k # _ \<Rightarrow> Some (of_nat k))"
    and "SelectFree r first final rank =
      Some (if unat rank < length (F first final) then Some (of_nat (F first final ! unat rank)) else None)"
proof -
  have c: "bitmap_covers (rsv_domain r) (bits r)" using assms(1) by (simp add: rsv_ok_def)
  have b: "\<forall>(w, m) \<in> set (ForEachWord (rsv_domain r) first final). w < length (bits r)"
    using ForEachWord_bounds [OF c] by blast
  note k = ForEachWord_keys [of "\<lambda>w. NOT (bits r ! w)" "rsv_domain r" first final, unfolded free_keys_in [OF c]]
  show "CountFree r first final = Some (of_nat (length (F first final)))"
    using count_free_list [OF b, of 0] unfolding k CountFree_def F_def by simp
  show "NextFree r first final = Some (case F first final of [] \<Rightarrow> None | k # _ \<Rightarrow> Some (of_nat k))"
    using next_free_list [OF b] unfolding k NextFree_def F_def by simp
  show "SelectFree r first final rank =
      Some (if unat rank < length (F first final) then Some (of_nat (F first final ! unat rank)) else None)"
    using select_free_list [OF b, of rank] unfolding k SelectFree_def F_def by simp
qed

lemma div_mod_64: "64 * a + b = k \<and> b < 64 \<longleftrightarrow> a = k div 64 \<and> b = k mod (64 :: nat)"
  by auto

text \<open>Setting one bit.\<close>

lemma bitmap_set:
  assumes "word_of k < length bs"
  shows "bitmap_keys (bs[word_of k := bs ! word_of k OR push_bit (bit_of k) 1]) = insert (unat k) (bitmap_keys bs)"
    (is "bitmap_keys ?b = _")
proof (rule set_eqI)
  fix n :: nat
  have n: "n = unat k \<longleftrightarrow> n div 64 = word_of k \<and> n mod 64 = bit_of k"
    unfolding word_bit_of by (metis div_mult_mod_eq)
  have "bit_of k < 64" by (simp add: word_bit_of)
  then have "bit (push_bit (bit_of k) (1 :: u64)) i \<longleftrightarrow> i = bit_of k" for i
    by (auto simp: bit_simps)
  then show "n \<in> bitmap_keys ?b \<longleftrightarrow> n \<in> insert (unat k) (bitmap_keys bs)"
    using assms by (cases "n div 64 = word_of k") (auto simp: bitmap_keys_def n bit_or_iff)
qed

lemma bitmap_test:
  assumes "word_of k < length bs"
  shows "bs ! word_of k AND push_bit (bit_of k) 1 = 0 \<longleftrightarrow> unat k \<notin> bitmap_keys bs"
proof -
  have b: "bit_of k < 64" by (simp add: word_bit_of)
  have "bs ! word_of k AND push_bit (bit_of k) 1 = 0 \<longleftrightarrow> \<not> bit (bs ! word_of k) (bit_of k)"
  proof
    assume "bs ! word_of k AND push_bit (bit_of k) 1 = 0"
    then have "\<not> bit (bs ! word_of k AND push_bit (bit_of k) 1) (bit_of k)" by simp
    then show "\<not> bit (bs ! word_of k) (bit_of k)" using b by (simp add: bit_simps)
  qed (auto intro!: bit_word_eqI simp: bit_simps)
  then show ?thesis using assms by (simp add: bitmap_keys_def word_bit_of)
qed

text \<open>The number of bits.\<close>

lemma finite_bitmap_keys: "finite (bitmap_keys bs)"
  by (rule finite_subset [of _ "{..<64 * length bs}"]) (auto simp: bitmap_keys_def)

lemma bitmap_keys_snoc:
  "bitmap_keys (bs @ [w]) = bitmap_keys bs \<union> (\<lambda>i. 64 * length bs + i) ` {i. bit w i}" (is "_ = ?A \<union> ?B")
proof -
  have "n \<in> ?B \<longleftrightarrow> n div 64 = length bs \<and> bit w (n mod 64)" for n
  proof
    assume "n \<in> ?B"
    then show "n div 64 = length bs \<and> bit w (n mod 64)" using bit_imp_le_length [of w] by auto
  next
    assume "n div 64 = length bs \<and> bit w (n mod 64)"
    then show "n \<in> ?B" using mult_div_mod_eq [of 64 n] by (intro image_eqI [of _ _ "n mod 64"]) auto
  qed
  then have "n \<in> bitmap_keys (bs @ [w]) \<longleftrightarrow> n \<in> ?A \<or> n \<in> ?B" for n
    by (auto simp only: bitmap_keys_def mem_Collect_eq nth_append length_append list.size less_Suc_eq split: if_splits) simp_all
  then show ?thesis by blast
qed

lemma sum_bits: "sum_list (map BitsSetToOne bs) = of_nat (card (bitmap_keys bs))"
proof (induction bs rule: rev_induct)
  case (snoc w bs)
  have "card {i. bit w i} = length (set_bits w)"
    unfolding set_set_bits [symmetric] using set_bits_sorted [of w]
    by (intro distinct_card strict_sorted_iff [THEN iffD1, THEN conjunct2])
  moreover have "card (bitmap_keys (bs @ [w])) = card (bitmap_keys bs) + card {i. bit w i}"
  proof -
    have "bitmap_keys bs \<inter> (\<lambda>i. 64 * length bs + i) ` {i. bit w i} = {}" by (auto simp: bitmap_keys_def)
    moreover have "finite {i. bit w i}" by (simp add: set_set_bits [symmetric])
    ultimately show ?thesis
      unfolding bitmap_keys_snoc by (simp add: card_Un_disjoint finite_bitmap_keys card_image)
  qed
  ultimately show ?case using snoc by (simp add: BitsSetToOne_def)
qed (simp add: bitmap_keys_def)

section \<open>The reservation interface\<close>

text \<open>Taking a list of keys one after another, with the answers.\<close>

fun take_seq :: "(u64 \<Rightarrow> 'r \<Rightarrow> (bool \<times> 'r) option) \<Rightarrow> u64 list \<Rightarrow> 'r \<Rightarrow> (bool list \<times> 'r) option" where
  "take_seq take1 [] r = Some ([], r)"
| "take_seq take1 (k # ks) r =
     (case take1 k r of None \<Rightarrow> None
      | Some (b, r') \<Rightarrow> (case take_seq take1 ks r' of None \<Rightarrow> None | Some (bs, r'') \<Rightarrow> Some (b # bs, r'')))"

locale key_reservation =
  fixes keys :: "'r \<Rightarrow> nat set"
    and ok :: "u64 \<Rightarrow> 'r \<Rightarrow> bool"
    and take1 :: "u64 \<Rightarrow> 'r \<Rightarrow> (bool \<times> 'r) option"
  assumes take1: "ok kd r \<Longrightarrow> k < kd \<Longrightarrow>
      \<exists>r'. take1 k r = Some (unat k \<notin> keys r, r') \<and> ok kd r' \<and> keys r' = insert (unat k) (keys r)"
begin

lemma take_seq_effect:
  assumes "ok kd r" "\<forall>k \<in> set ks. k < kd"
  shows "\<exists>r'. take_seq take1 ks r =
      Some (map (\<lambda>i. unat (ks ! i) \<notin> keys r \<and> ks ! i \<notin> set (take i ks)) [0..<length ks], r') \<and>
      ok kd r' \<and> keys r' = keys r \<union> unat ` set ks"
  using assms
proof (induction ks arbitrary: r)
  case (Cons k ks)
  obtain r1 where r1: "take1 k r = Some (unat k \<notin> keys r, r1)" "ok kd r1" "keys r1 = insert (unat k) (keys r)"
    using take1 [OF Cons.prems(1), of k] Cons.prems(2) by auto
  obtain r2 where r2: "take_seq take1 ks r1 =
      Some (map (\<lambda>i. unat (ks ! i) \<notin> keys r1 \<and> ks ! i \<notin> set (take i ks)) [0..<length ks], r2)"
      "ok kd r2" "keys r2 = keys r1 \<union> unat ` set ks"
    using Cons.IH [OF r1(2)] Cons.prems(2) by auto
  have "map (\<lambda>i. unat (ks ! i) \<notin> keys r1 \<and> ks ! i \<notin> set (take i ks)) [0..<length ks] =
      map (\<lambda>i. unat (ks ! i) \<notin> keys r \<and> ks ! i \<notin> insert k (set (take i ks))) [0..<length ks]"
    by (rule map_cong) (auto simp: r1(3) word_unat_eq_iff)
  then show ?case using r1 r2
    by (simp add: map_upt_Suc del: upt_Suc)
qed simp

end

lemma Take_effect:
  assumes "rsv_ok r \<and> rsv_domain r = kd" "k < kd"
  shows "\<exists>r'. Take k r = Some (unat k \<notin> bitmap_keys (bits r), r') \<and> (rsv_ok r' \<and> rsv_domain r' = kd) \<and>
    bitmap_keys (bits r') = insert (unat k) (bitmap_keys (bits r))"
proof -
  have w: "word_of k < length (bits r)"
    using assms bitmap_covers_key [of kd "bits r" "unat k"] by (auto simp: rsv_ok_def word_bit_of word_less_nat_alt)
  then show ?thesis using assms bitmap_set [OF w] bitmap_test [OF w]
    by (auto simp: Take_def Let_def rsv_ok_def bitmap_covers_def)
qed

interpretation rsv: key_reservation "\<lambda>r. bitmap_keys (bits r)" "\<lambda>kd r. rsv_ok r \<and> rsv_domain r = kd" Take
  by unfold_locales (rule Take_effect)

lemma words_for_exact: "unat kd + 63 < 2 ^ 64 \<Longrightarrow> unat (words_for kd) = (unat kd + 63) div 64"
  by (simp add: words_for_def unat_div unat_add_u64)

lemma bitmap_keys_zero: "bitmap_keys (replicate n 0) = {}"
  by (auto simp: bitmap_keys_def)

lemma Create_ok:
  assumes "UniqueKeyReservation_Create kd mb = Inr r" "unat kd + 63 < 2 ^ 64"
  shows "rsv_ok r \<and> rsv_domain r = kd" "bitmap_keys (bits r) = {}"
  using assms words_for_exact [OF assms(2)]
  by (auto simp: UniqueKeyReservation_Create_def rsv_ok_def bitmap_covers_def bitmap_keys_zero split: if_splits)

text \<open>
  C9: a reservation created within its budget is a set of keys. Taking any keys of the
  domain stays inside the array and answers true exactly for the first request of a key;
  the total is then the number of different keys, and counting, finding the next free key
  and selecting a free key by rank agree with the ordered list of the free keys of the
  range. The sum in the word count is required not to wrap.
\<close>

theorem reservation_is_a_key_set:
  assumes "UniqueKeyReservation_Create kd mb = Inr r" "unat kd + 63 < 2 ^ 64" "\<forall>k \<in> set ks. k < kd"
  shows "\<exists>r'. take_seq Take ks r = Some (map (\<lambda>i. ks ! i \<notin> set (take i ks)) [0..<length ks], r') \<and>
    TakenTotal r' = of_nat (card (set ks)) \<and>
    (\<forall>first final rank. let F = free_list (unat ` set ks) kd first final in
      CountFree r' first final = Some (of_nat (length F)) \<and>
      NextFree r' first final = Some (case F of [] \<Rightarrow> None | k # _ \<Rightarrow> Some (of_nat k)) \<and>
      SelectFree r' first final rank = Some (if unat rank < length F then Some (of_nat (F ! unat rank)) else None))"
proof -
  note c = Create_ok [OF assms(1,2)]
  obtain r' where r: "take_seq Take ks r = Some (map (\<lambda>i. ks ! i \<notin> set (take i ks)) [0..<length ks], r')"
      "rsv_ok r'" "rsv_domain r' = kd" "bitmap_keys (bits r') = unat ` set ks"
    using rsv.take_seq_effect [OF c(1) assms(3)] unfolding c(2) by auto
  have "card (unat ` set ks) = card (set ks)" by (rule card_image) (simp add: inj_on_def word_unat_eq_iff)
  then show ?thesis using r searches [OF r(2)] by (intro exI [of _ r']) (simp add: TakenTotal_def sum_bits Let_def)
qed

text \<open>Witness: three requests in a domain of 100 keys, one of them repeated.\<close>

theorem reservation_is_a_key_set_witness:
  "\<exists>r r'. UniqueKeyReservation_Create 100 64 = Inr r \<and> take_seq Take [70, 3, 70] r = Some ([True, True, False], r') \<and>
     TakenTotal r' = 2 \<and> NextFree r' 69 99 = Some (Some 69) \<and> SelectFree r' 69 99 1 = Some (Some 71)"
proof -
  obtain r where r: "UniqueKeyReservation_Create 100 64 = Inr r"
    by (simp add: UniqueKeyReservation_Create_def words_for_def)
  have u: "upt 69 100 = 69 # 70 # 71 # upt 72 100" by (simp add: upt_rec)
  show ?thesis
    using reservation_is_a_key_set [OF r, of "[70, 3, 70]"]
  proof (elim meta_impE exE conjE)
    fix r' assume a: "take_seq Take [70, 3, 70] r = Some (map (\<lambda>i. [70, 3, 70 :: u64] ! i \<notin> set (take i [70, 3, 70])) [0..<length [70, 3, 70 :: u64]], r')"
      "TakenTotal r' = of_nat (card (set [70, 3, 70 :: u64]))"
      "\<forall>first final rank. let F = free_list (unat ` set [70, 3, 70 :: u64]) 100 first final in
      CountFree r' first final = Some (of_nat (length F)) \<and>
      NextFree r' first final = Some (case F of [] \<Rightarrow> None | k # _ \<Rightarrow> Some (of_nat k)) \<and>
      SelectFree r' first final rank = Some (if unat rank < length F then Some (of_nat (F ! unat rank)) else None)"
    have F: "free_list (unat ` set [70, 3, 70 :: u64]) 100 69 99 = 69 # 71 # filter (\<lambda>k. k \<noteq> 70 \<and> k \<noteq> 3) (upt 72 100)"
      by (simp add: free_list_def u)
    show ?thesis using r a(1,2) a(3) [rule_format, of 69 99 1] F
      by - (rule exI [of _ r], rule exI [of _ r'], simp add: Let_def card_insert_if)
  qed simp_all
qed

end
