(* ===== verification/Key_Membership.thy ===== *)
theory Key_Membership
  imports Key_Bitmap
begin

text \<open>
  \<open>KeyMembership\<close> of \<open>tools/db_bench_tool.cc\<close>: the keys that the ingestion has produced,
  an optional second bitmap of the keys a shallower level has claimed, and the cursor
  that a materialized file draws its keys from. The main result is that a cursor hands
  back exactly the evenly spread choice of the present keys of its range.
\<close>

unbundle bit_operations_syntax

section \<open>The membership bitmap\<close>

record KeyMembership =
  mem_bits :: "u64 list"
  claimed :: "u64 list option"
  mem_domain :: u64

datatype Mode = kPresent | kNewest | kStale

definition KeyMembership_Create :: "u64 \<Rightarrow> u64 \<Rightarrow> bitmap_error + KeyMembership" where
  "KeyMembership_Create key_domain max_bytes =
     (if key_domain = 0 then Inl DomainIsZero
      else if words_for key_domain > max_bytes div 8
      then Inl (OverBudget key_domain (words_for key_domain * 8) max_bytes)
      else Inr \<lparr>mem_bits = replicate (unat (words_for key_domain)) 0, claimed = None, mem_domain = key_domain\<rparr>)"

definition mem_bytes :: "KeyMembership \<Rightarrow> u64" where
  "mem_bytes m = of_nat (length (mem_bits m)) * 8 * (if claimed m = None then 1 else 2)"

definition EnableClaims :: "KeyMembership \<Rightarrow> KeyMembership" where
  "EnableClaims m = (if claimed m = None then m\<lparr>claimed := Some (replicate (length (mem_bits m)) 0)\<rparr> else m)"

text \<open>The test against the domain keeps the word inside the array.\<close>

definition or_bit :: "u64 \<Rightarrow> u64 list \<Rightarrow> u64 list" where
  "or_bit key bs = bs[word_of key := bs ! word_of key OR push_bit (bit_of key) 1]"

definition Mark :: "u64 \<Rightarrow> KeyMembership \<Rightarrow> KeyMembership" where
  "Mark key m = (if key \<ge> mem_domain m then m else m\<lparr>mem_bits := or_bit key (mem_bits m)\<rparr>)"

definition MarkSerial :: "u64 \<Rightarrow> KeyMembership \<Rightarrow> KeyMembership" where
  "MarkSerial key m =
     (if key \<ge> mem_domain m then m
      else let word = mem_bits m ! word_of key
           in m\<lparr>mem_bits := (mem_bits m)[word_of key := word OR push_bit (bit_of key) 1]\<rparr>)"

definition Claim :: "u64 \<Rightarrow> KeyMembership \<Rightarrow> KeyMembership" where
  "Claim key m =
     (case claimed m of None \<Rightarrow> m
      | Some c \<Rightarrow> if key \<ge> mem_domain m then m else m\<lparr>claimed := Some (or_bit key c)\<rparr>)"

definition ClaimedTotal :: "KeyMembership \<Rightarrow> u64" where
  "ClaimedTotal m = (case claimed m of None \<Rightarrow> 0 | Some c \<Rightarrow> sum_list (map BitsSetToOne c))"

definition Word :: "KeyMembership \<Rightarrow> nat \<Rightarrow> Mode \<Rightarrow> u64" where
  "Word m word md =
     (let present = mem_bits m ! word
      in case claimed m of None \<Rightarrow> present
         | Some c \<Rightarrow>
             if md = kPresent then present
             else let taken = c ! word
                  in if md = kNewest then present AND NOT taken else present AND taken)"

definition CountPresent :: "KeyMembership \<Rightarrow> u64 \<Rightarrow> u64 \<Rightarrow> Mode \<Rightarrow> u64" where
  "CountPresent m first final md =
     fold (\<lambda>(word, msk) present. present + BitsSetToOne (msk AND Word m word md))
       (ForEachWord (mem_domain m) first final) 0"

definition mem_Total :: "KeyMembership \<Rightarrow> u64" where
  "mem_Total m = sum_list (map BitsSetToOne (mem_bits m))"

section \<open>The cursor\<close>

text \<open>\<open>cur_word\<close> is an index of a word, never above the number of words plus one.\<close>

record Cursor =
  cur_last :: u64
  want :: u64
  cur_mode :: Mode
  cur_present :: u64
  cur_word :: nat
  pending :: u64
  seen :: u64
  emitted :: u64

definition NewCursor :: "KeyMembership \<Rightarrow> u64 \<Rightarrow> u64 \<Rightarrow> u64 \<Rightarrow> Mode \<Rightarrow> Cursor" where
  "NewCursor m first final wnt md =
     (let c = \<lparr>cur_last = final, want = wnt, cur_mode = md, cur_present = CountPresent m first final md,
               cur_word = 0, pending = 0, seen = 0, emitted = 0\<rparr>
      in if first < mem_domain m
         then c\<lparr>cur_word := word_of first, pending := Word m (word_of first) md AND push_bit (bit_of first) (- 1)\<rparr>
         else c\<lparr>cur_word := length (mem_bits m)\<rparr>)"

lemma clear_lowest_shorter:
  assumes "w \<noteq> 0"
  shows "length (set_bits (w AND (w - 1))) < length (set_bits w)"
proof -
  obtain k ks where "set_bits w = k # ks" using assms set_bits_Nil [of w] by (metis list.exhaust)
  then show ?thesis using clear_lowest by simp
qed

text \<open>The two nested loops of \<open>Next\<close>; the inner one looks for a word with a bit.\<close>

function walk :: "KeyMembership \<Rightarrow> u64 \<Rightarrow> Cursor \<Rightarrow> u64 option \<times> Cursor" where
  "walk m target c =
     (if pending c = 0 then
        let w = Suc (cur_word c); c = c\<lparr>cur_word := w\<rparr>
        in if w \<ge> length (mem_bits m) \<or> push_bit 6 (of_nat w) > cur_last c then (None, c)
           else walk m target (c\<lparr>pending := Word m w (cur_mode c)\<rparr>)
      else
        let b = the (CountTrailingZeroBits (pending c));
            c = c\<lparr>pending := pending c AND (pending c - 1)\<rparr>;
            candidate = push_bit 6 (of_nat (cur_word c)) + b
        in if candidate > cur_last c then (None, c)
           else let rank = seen c; c = c\<lparr>seen := rank + 1\<rparr>
                in if rank \<ge> target then (Some candidate, c\<lparr>emitted := emitted c + 1\<rparr>)
                   else walk m target c)"
  by pat_completeness auto

termination
proof (relation "measure (\<lambda>(m, t, c). 65 * (Suc (length (mem_bits m)) - cur_word c) + length (set_bits (pending c)))")
  fix m :: KeyMembership and t :: u64 and c c1 :: Cursor and w :: nat
  assume "pending c = 0" "w = Suc (cur_word c)" "c1 = c\<lparr>cur_word := w\<rparr>"
    "\<not> (length (mem_bits m) \<le> w \<or> cur_last c1 < push_bit 6 (word_of_nat w))"
  then show "((m, t, c1\<lparr>pending := Word m w (cur_mode c1)\<rparr>), m, t, c)
      \<in> measure (\<lambda>(m, t, c). 65 * (Suc (length (mem_bits m)) - cur_word c) + length (set_bits (pending c)))"
    using length_set_bits [of "Word m w (cur_mode c1)"] by simp linarith
qed (auto simp: clear_lowest_shorter)

declare walk.simps [simp del]

definition Next :: "KeyMembership \<Rightarrow> Cursor \<Rightarrow> u64 option \<times> Cursor" where
  "Next m c =
     (if want c = 0 \<or> emitted c \<ge> want c \<or> cur_present c = 0 then (None, c)
      else walk m (emitted c * cur_present c div want c) c)"

text \<open>The keys that the first calls return, up to the first one that fails.\<close>

fun drain :: "nat \<Rightarrow> KeyMembership \<Rightarrow> Cursor \<Rightarrow> u64 list" where
  "drain 0 m c = []"
| "drain (Suc n) m c = (case Next m c of (None, _) \<Rightarrow> [] | (Some k, c') \<Rightarrow> k # drain n m c')"

section \<open>The bitmaps as sets\<close>

definition mem_ok :: "KeyMembership \<Rightarrow> bool" where
  "mem_ok m \<longleftrightarrow> bitmap_covers (mem_domain m) (mem_bits m) \<and> bitmap_keys (mem_bits m) \<subseteq> {..<unat (mem_domain m)} \<and>
     (case claimed m of None \<Rightarrow> True | Some c \<Rightarrow> length c = length (mem_bits m))"

definition mode_keys :: "KeyMembership \<Rightarrow> Mode \<Rightarrow> nat set" where
  "mode_keys m md =
     (case claimed m of None \<Rightarrow> bitmap_keys (mem_bits m)
      | Some c \<Rightarrow> (case md of kPresent \<Rightarrow> bitmap_keys (mem_bits m)
                           | kNewest \<Rightarrow> bitmap_keys (mem_bits m) - bitmap_keys c
                           | kStale \<Rightarrow> bitmap_keys (mem_bits m) \<inter> bitmap_keys c))"

definition mode_list :: "KeyMembership \<Rightarrow> Mode \<Rightarrow> u64 \<Rightarrow> u64 \<Rightarrow> nat list" where
  "mode_list m md first final =
     filter (\<lambda>k. k \<in> mode_keys m md) [unat first..<min (Suc (unat final)) (unat (mem_domain m))]"

lemma Word_keys:
  assumes "mem_ok m" "k div 64 < length (mem_bits m)"
  shows "bit (Word m (k div 64) md) (k mod 64) \<longleftrightarrow> k \<in> mode_keys m md"
  using assms
  by (cases md) (auto simp: mem_ok_def Word_def mode_keys_def bitmap_keys_def Let_def bit_simps split: option.splits)

lemma mode_keys_domain: "mem_ok m \<Longrightarrow> k \<in> mode_keys m md \<Longrightarrow> k < unat (mem_domain m)"
  by (cases md) (auto simp: mem_ok_def mode_keys_def split: option.splits)

lemma fold_plus: "fold (\<lambda>(w, msk) n. n + BitsSetToOne (msk AND x w)) ws n =
    n + of_nat (length (concat (map (word_keys x) ws)))"
  by (induction ws arbitrary: n) (auto simp: BitsSetToOne_def)

lemma keys_in_mode:
  assumes "mem_ok m"
  shows "keys_in (\<lambda>w. Word m w md) (mem_domain m) first final = mode_list m md first final"
  unfolding keys_in_def mode_list_def
  by (rule filter_cong)
    (use assms bitmap_covers_key [of "mem_domain m" "mem_bits m"] Word_keys [OF assms] in \<open>auto simp: mem_ok_def\<close>)

lemma CountPresent_length: "mem_ok m \<Longrightarrow> CountPresent m first final md = of_nat (length (mode_list m md first final))"
  using ForEachWord_keys [of "\<lambda>w. Word m w md" "mem_domain m" first final]
  by (simp add: CountPresent_def fold_plus keys_in_mode)

lemma length_mode_list: "length (mode_list m md first final) < 2 ^ 64"
  using length_filter_le [of "\<lambda>k. k \<in> mode_keys m md" "[unat first..<min (Suc (unat final)) (unat (mem_domain m))]"]
    unat_u64_less [of "mem_domain m"]
  by (simp add: mode_list_def)

section \<open>What a cursor still has before it\<close>

definition word_list :: "KeyMembership \<Rightarrow> Mode \<Rightarrow> nat \<Rightarrow> nat list" where
  "word_list m md w = map (\<lambda>i. 64 * w + i) (set_bits (Word m w md))"

definition remaining :: "KeyMembership \<Rightarrow> Cursor \<Rightarrow> nat list" where
  "remaining m c = filter (\<lambda>k. k \<le> unat (cur_last c))
     (map (\<lambda>i. 64 * cur_word c + i) (set_bits (pending c)) @
      concat (map (word_list m (cur_mode c)) [Suc (cur_word c)..<length (mem_bits m)]))"

definition cur_ok :: "KeyMembership \<Rightarrow> Cursor \<Rightarrow> bool" where
  "cur_ok m c \<longleftrightarrow> length (mem_bits m) \<le> 2 ^ 58 \<and> (pending c \<noteq> 0 \<longrightarrow> cur_word c < length (mem_bits m)) \<and>
     unat (seen c) + length (remaining m c) < 2 ^ 64"

definition same_frame :: "Cursor \<Rightarrow> Cursor \<Rightarrow> bool" where
  "same_frame c c' \<longleftrightarrow> cur_last c' = cur_last c \<and> want c' = want c \<and> cur_mode c' = cur_mode c \<and>
     cur_present c' = cur_present c"

lemma word_list_ge: "k \<in> set (word_list m md w) \<Longrightarrow> 64 * w \<le> k"
  by (auto simp: word_list_def)

lemma remaining_none:
  assumes "pending c = 0" "Suc (cur_word c) \<ge> length (mem_bits m) \<or> unat (cur_last c) < 64 * Suc (cur_word c)"
  shows "remaining m c = []"
proof -
  have "\<not> k \<le> unat (cur_last c)" if "w \<in> {Suc (cur_word c)..<length (mem_bits m)}" "k \<in> set (word_list m md w)" for k w md
    using word_list_ge [OF that(2)] that(1) assms(2) by auto
  then show ?thesis using assms(1) by (auto simp: remaining_def filter_empty_conv)
qed

lemma remaining_next_word:
  assumes "pending c = 0" "Suc (cur_word c) < length (mem_bits m)"
  shows "remaining m (c\<lparr>cur_word := Suc (cur_word c), pending := Word m (Suc (cur_word c)) (cur_mode c)\<rparr>) = remaining m c"
  using assms by (simp add: remaining_def word_list_def upt_conv_Cons del: upt_Suc)

lemma remaining_bit:
  assumes "set_bits (pending c) = b # bs" "cur_word c < length (mem_bits m)"
  shows "remaining m c =
    (if 64 * cur_word c + b \<le> unat (cur_last c)
     then (64 * cur_word c + b) # remaining m (c\<lparr>pending := pending c AND (pending c - 1)\<rparr>) else [])"
proof -
  have bs: "b < 64" "\<forall>i \<in> set bs. b < i"
    using assms(1) set_bits_sorted [of "pending c"] set_set_bits [of "pending c"] bit_imp_le_length [of "pending c" b] by auto
  have "64 * cur_word c + b < k" if kk: "k \<in> set (concat (map (word_list m (cur_mode c)) [Suc (cur_word c)..<length (mem_bits m)]))" for k
  proof -
    obtain w where "Suc (cur_word c) \<le> w" "64 * w \<le> k" using kk word_list_ge by fastforce
    then show ?thesis using bs(1) by linarith
  qed
  then show ?thesis using bs assms(1) clear_lowest [OF assms(1)]
    by (fastforce simp: remaining_def filter_empty_conv)
qed

lemma remaining_seen [simp]: "remaining m (c\<lparr>seen := s\<rparr>) = remaining m c" "remaining m (c\<lparr>emitted := e\<rparr>) = remaining m c"
  by (simp_all add: remaining_def)

lemma unat_key: "w < 2 ^ 58 \<Longrightarrow> b < 64 \<Longrightarrow> unat (push_bit 6 (of_nat w) + of_nat b :: u64) = 64 * w + b"
  unfolding key_of_word_bit [symmetric] by (simp add: unat_of_nat del: of_nat_add of_nat_mult)

lemma walk_result:
  fixes target :: u64
  assumes "cur_ok m c"
  defines "R \<equiv> remaining m c" and "d \<equiv> unat target - unat (seen c)"
  shows "if d < length R
    then \<exists>c'. walk m target c = (Some (of_nat (R ! d)), c') \<and> remaining m c' = drop (Suc d) R \<and>
      unat (seen c') = unat (seen c) + Suc d \<and> emitted c' = emitted c + 1 \<and> same_frame c c' \<and> cur_ok m c'
    else fst (walk m target c) = None"
  using assms(1) unfolding R_def d_def
proof (induction m target c rule: walk.induct)
  case (1 m target c)
  have len: "length (mem_bits m) \<le> 2 ^ 58" using 1(3) by (simp add: cur_ok_def)
  show ?case
  proof (cases "pending c = 0")
    case p: True
    let ?w = "Suc (cur_word c)"
    let ?c = "c\<lparr>cur_word := ?w, pending := Word m ?w (cur_mode c)\<rparr>"
    show ?thesis
    proof (cases "?w \<ge> length (mem_bits m) \<or> push_bit 6 (of_nat ?w) > cur_last c")
      case True
      have "?w \<ge> length (mem_bits m) \<or> unat (cur_last c) < 64 * ?w"
        using True len unat_key [of ?w 0]
        by (cases "?w < length (mem_bits m)") (auto simp: word_less_nat_alt simp del: of_nat_Suc)
      then have "remaining m c = []" by (rule remaining_none [OF p])
      then show ?thesis using p True by (simp add: walk.simps [of m target c] Let_def)
    next
      case False
      then have lt: "?w < length (mem_bits m)" by simp
      note r = remaining_next_word [OF p lt]
      have ok: "cur_ok m ?c" using 1(3) r lt by (simp add: cur_ok_def)
      have w: "walk m target c = walk m target ?c" using p False by (simp add: walk.simps [of m target c] Let_def)
      have cond: "\<not> (length (mem_bits m) \<le> ?w \<or> cur_last (c\<lparr>cur_word := ?w\<rparr>) < push_bit 6 (of_nat ?w))"
        using False by simp
      have c: "c\<lparr>cur_word := ?w\<rparr>\<lparr>pending := Word m ?w (cur_mode (c\<lparr>cur_word := ?w\<rparr>))\<rparr> = ?c" by simp
      show ?thesis using 1(1) [OF p refl refl cond, unfolded c, OF ok] unfolding w r
        by (cases "unat target - unat (seen c) < length (remaining m c)") (simp_all add: same_frame_def)
    qed
  next
    case p: False
    obtain b bs where b: "set_bits (pending c) = b # bs" using p set_bits_Nil [of "pending c"] by (metis list.exhaust)
    have cw: "cur_word c < length (mem_bits m)" using p 1(3) by (simp add: cur_ok_def)
    note r = remaining_bit [OF b cw]
    have "b < 64" using b set_set_bits [of "pending c"] bit_imp_le_length [of "pending c" b] by auto
    then have u: "unat (push_bit 6 (of_nat (cur_word c)) + of_nat b :: u64) = 64 * cur_word c + b"
      using cw len by (intro unat_key) auto
    have ctz: "the (CountTrailingZeroBits (pending c)) = of_nat b" by (simp add: CountTrailingZeroBits_def b)
    let ?c = "c\<lparr>pending := pending c AND (pending c - 1), seen := seen c + 1\<rparr>"
    show ?thesis
    proof (cases "64 * cur_word c + b \<le> unat (cur_last c)")
      case False
      then have "push_bit 6 (of_nat (cur_word c)) + of_nat b > cur_last c" using u by (simp add: word_less_nat_alt)
      then show ?thesis using False p r ctz by (simp add: walk.simps [of m target c] Let_def)
    next
      case le: True
      then have nl: "\<not> push_bit 6 (of_nat (cur_word c)) + of_nat b > cur_last c" using u by (simp add: word_less_nat_alt)
      have R: "remaining m c = (64 * cur_word c + b) # remaining m ?c" using r le by simp
      have s: "unat (seen c + 1) = Suc (unat (seen c))" using 1(3) R by (simp add: cur_ok_def unat_add_u64)
      have ok: "cur_ok m ?c" using 1(3) R s cw by (simp add: cur_ok_def)
      show ?thesis
      proof (cases "seen c \<ge> target")
        case True
        then have w: "walk m target c = (Some (push_bit 6 (of_nat (cur_word c)) + of_nat b), ?c\<lparr>emitted := emitted c + 1\<rparr>)"
          using nl p ctz by (simp add: walk.simps [of m target c] Let_def)
        have "cur_ok m (?c\<lparr>emitted := emitted c + 1\<rparr>)" using ok by (simp add: cur_ok_def)
        then show ?thesis using True R s unfolding w key_of_word_bit [symmetric]
          by (simp add: word_le_nat_alt same_frame_def)
      next
        case False
        then have w: "walk m target c = walk m target ?c"
          using nl p ctz by (simp add: walk.simps [of m target c] Let_def)
        have d: "unat target - unat (seen c) = Suc (unat target - Suc (unat (seen c)))"
          using False by (simp add: word_le_nat_alt)
        let ?p = "c\<lparr>pending := pending c AND (pending c - 1)\<rparr>"
        have c: "?p\<lparr>seen := seen ?p + 1\<rparr> = ?c" by simp
        have cond: "\<not> cur_last ?p < push_bit 6 (of_nat (cur_word ?p)) + the (CountTrailingZeroBits (pending c))"
          "\<not> target \<le> seen ?p" using nl False ctz by simp_all
        show ?thesis using 1(2) [OF p refl refl refl cond(1) refl refl cond(2), unfolded c, OF ok] unfolding w
          by (cases "unat target - unat (seen c) < length (remaining m c)") (simp_all add: R s d same_frame_def)
      qed
    qed
  qed
qed

section \<open>A new cursor has the whole range before it\<close>

lemma in_shifted_bits: "k \<in> (\<lambda>i. 64 * w + i) ` {i. bit (x :: u64) i} \<longleftrightarrow> k div 64 = w \<and> bit x (k mod 64)"
proof
  assume "k \<in> (\<lambda>i. 64 * w + i) ` {i. bit x i}"
  then show "k div 64 = w \<and> bit x (k mod 64)" using bit_imp_le_length [of x] by auto
next
  assume "k div 64 = w \<and> bit x (k mod 64)"
  then show "k \<in> (\<lambda>i. 64 * w + i) ` {i. bit x i}"
    using mult_div_mod_eq [of 64 k] by (intro image_eqI [of _ _ "k mod 64"]) auto
qed

lemma set_word_list: "set (word_list m md w) = {k. k div 64 = w \<and> bit (Word m w md) (k mod 64)}"
  using in_shifted_bits [of _ w "Word m w md"] by (auto simp: word_list_def set_set_bits)

lemma shifted_sorted: "sorted_wrt (<) (map (\<lambda>i. 64 * w + i) (set_bits x))"
  using set_bits_sorted [of x] by (simp add: sorted_wrt_map)

lemma word_lists_sorted: "sorted_wrt (<) (concat (map (word_list m md) [a..<b]))"
proof (induction b)
  case (Suc b)
  have "j < k" if "w < b" "j \<in> set (word_list m md w)" "k \<in> set (word_list m md b)" for j k w
    using that by (auto simp: set_word_list)
  then show ?case using Suc shifted_sorted [of b] by (auto simp: sorted_wrt_append word_list_def)
qed simp

lemma NewCursor_remaining:
  assumes "mem_ok m"
  shows "remaining m (NewCursor m first final n md) = mode_list m md first final"
proof (cases "first < mem_domain m")
  case False
  then have "remaining m (NewCursor m first final n md) = []"
    by (intro remaining_none) (simp_all add: NewCursor_def Let_def)
  then show ?thesis using False by (simp add: mode_list_def word_less_nat_alt)
next
  case True
  let ?f = "unat first" and ?len = "length (mem_bits m)"
  define p where "p = Word m (?f div 64) md AND push_bit (?f mod 64) (- 1)"
  have w0: "?f div 64 < ?len"
    using assms True bitmap_covers_key [of "mem_domain m" "mem_bits m" ?f] by (auto simp: mem_ok_def word_less_nat_alt)
  let ?A = "map (\<lambda>i. 64 * (?f div 64) + i) (set_bits p) @ concat (map (word_list m md) [Suc (?f div 64)..<?len])"
  have r: "remaining m (NewCursor m first final n md) = filter (\<lambda>k. k \<le> unat final) ?A"
    using True by (simp add: remaining_def NewCursor_def Let_def word_bit_of p_def)
  have pk: "k \<in> set (map (\<lambda>i. 64 * (?f div 64) + i) (set_bits p)) \<longleftrightarrow> k div 64 = ?f div 64 \<and> ?f \<le> k \<and> bit (Word m (k div 64) md) (k mod 64)" for k
  proof -
    have "?f mod 64 \<le> k mod 64 \<longleftrightarrow> ?f \<le> k" if "k div 64 = ?f div 64"
      using that mult_div_mod_eq [of 64 k] mult_div_mod_eq [of 64 ?f] by linarith
    then show ?thesis using in_shifted_bits [of k "?f div 64" p] by (auto simp: set_set_bits p_def bit_simps)
  qed
  have inA: "k \<in> set ?A \<longleftrightarrow> ?f \<le> k \<and> k div 64 < ?len \<and> bit (Word m (k div 64) md) (k mod 64)" for k
  proof -
    have "k div 64 = ?f div 64 \<or> Suc (?f div 64) \<le> k div 64 \<longleftrightarrow> ?f div 64 \<le> k div 64" by linarith
    moreover have "?f \<le> k" if "Suc (?f div 64) \<le> k div 64" using that by (metis Suc_le_lessD div_le_mono nat_le_linear not_less)
    ultimately show ?thesis using pk [of k] w0 div_le_mono [of ?f k 64] by (auto simp: set_word_list)
  qed
  have "k div 64 < ?len \<and> bit (Word m (k div 64) md) (k mod 64) \<longleftrightarrow> k \<in> mode_keys m md" for k
    using Word_keys [OF assms, of k md] bitmap_covers_key [of "mem_domain m" "mem_bits m" k] mode_keys_domain [OF assms, of k md] assms
    by (auto simp: mem_ok_def)
  then have sA: "set ?A = {k. ?f \<le> k \<and> k \<in> mode_keys m md}"
    by (intro set_eqI) (simp only: inA mem_Collect_eq)
  have srt: "sorted_wrt (<) ?A"
    unfolding sorted_wrt_append
  proof (intro conjI shifted_sorted word_lists_sorted ballI)
    fix j k assume "j \<in> set (map (\<lambda>i. 64 * (?f div 64) + i) (set_bits p))"
      and "k \<in> set (concat (map (word_list m md) [Suc (?f div 64)..<?len]))"
    then show "j < k" unfolding pk by (auto simp: set_word_list)
  qed
  show ?thesis unfolding r
  proof (rule strict_sorted_equal)
    show "sorted_wrt (<) (filter (\<lambda>k. k \<le> unat final) ?A)" by (rule sorted_wrt_filter [OF srt])
    show "sorted_wrt (<) (mode_list m md first final)" by (simp add: mode_list_def sorted_wrt_filter)
    show "set (filter (\<lambda>k. k \<le> unat final) ?A) = set (mode_list m md first final)"
      unfolding set_filter sA using mode_keys_domain [OF assms, of _ md] by (auto simp: mode_list_def less_Suc_eq_le)
  qed
qed

lemma NewCursor_ok: "mem_ok m \<Longrightarrow> cur_ok m (NewCursor m first final n md)"
  using bitmap_covers_len [of "mem_domain m" "mem_bits m"] length_mode_list [of m md first final]
    bitmap_covers_key [of "mem_domain m" "mem_bits m" "unat first"]
  unfolding cur_ok_def NewCursor_remaining
  by (auto simp: mem_ok_def NewCursor_def Let_def word_bit_of word_less_nat_alt)

section \<open>The even spread\<close>

definition spread :: "nat \<Rightarrow> 'k list \<Rightarrow> 'k list" where
  "spread n L = (if n \<le> length L then map (\<lambda>j. L ! (j * length L div n)) [0..<n] else L)"

definition spread_seen :: "nat \<Rightarrow> nat \<Rightarrow> nat \<Rightarrow> nat" where
  "spread_seen n len j = (if n \<le> len then (if j = 0 then 0 else Suc ((j - 1) * len div n)) else j)"

lemma spread_seen_le: "0 < n \<Longrightarrow> n \<le> len \<Longrightarrow> spread_seen n len j \<le> j * len div n"
proof (cases j)
  case (Suc i)
  assume n: "0 < n" "n \<le> len"
  have "Suc (i * len div n) = (i * len + n) div n" using n(1) by simp
  also have "\<dots> \<le> Suc i * len div n" using n(2) by (intro div_le_mono) simp
  finally show ?thesis using Suc n by (simp add: spread_seen_def)
qed (simp add: spread_seen_def)

lemma unat_mult_u64: "unat x * unat y < 2 ^ 64 \<Longrightarrow> unat (x * y :: u64) = unat x * unat y"
  by (simp add: unat_word_ariths)

lemma of_nat_eq_0_iff_u64: "n < 2 ^ 64 \<Longrightarrow> (of_nat n :: u64) = 0 \<longleftrightarrow> n = 0"
  by (simp add: word_unat_eq_iff unat_of_nat)

lemma Next_spread:
  assumes "cur_ok m c" "unat (want c) * length L < 2 ^ 64" "cur_present c = of_nat (length L)"
    "remaining m c = drop (spread_seen (unat (want c)) (length L) (unat (emitted c))) L"
    "unat (seen c) = spread_seen (unat (want c)) (length L) (unat (emitted c))"
  defines "j \<equiv> unat (emitted c)" and "S \<equiv> spread (unat (want c)) L"
  shows "if j < length S
    then \<exists>c'. Next m c = (Some (of_nat (S ! j)), c') \<and> cur_ok m c' \<and> same_frame c c' \<and> unat (emitted c') = Suc j \<and>
      remaining m c' = drop (spread_seen (unat (want c)) (length L) (Suc j)) L \<and>
      unat (seen c') = spread_seen (unat (want c)) (length L) (Suc j)
    else fst (Next m c) = None"
proof (cases "want c = 0 \<or> emitted c \<ge> want c \<or> cur_present c = 0")
  case True
  have "length L < 2 ^ 64 \<or> want c = 0" using assms(2) by (cases "unat (want c)") (auto simp: unat_eq_0)
  then have "\<not> j < length S"
    using True assms(3) by (auto simp: S_def j_def spread_def word_le_nat_alt of_nat_eq_0_iff_u64)
  then show ?thesis using True by (simp add: Next_def)
next
  case False
  let ?n = "unat (want c)" and ?len = "length L"
  have n: "0 < ?n" "j < ?n" using False by (auto simp: j_def word_le_nat_alt unat_gt_0)
  then have "?len < 2 ^ 64" using assms(2) by (cases ?n) auto
  then have p: "unat (cur_present c) = ?len" using assms(3) by (simp add: unat_of_nat)
  have "j * ?len < 2 ^ 64" using n(2) assms(2) mult_le_mono1 [of j ?n ?len] by linarith
  then have t: "unat (emitted c * cur_present c div want c) = j * ?len div ?n"
    using p by (simp add: unat_div unat_mult_u64 j_def)
  have len0: "0 < ?len" using False p by (metis gr0I unat_eq_zero)
  have nx: "Next m c = walk m (emitted c * cur_present c div want c) c" using False by (simp add: Next_def)
  have e: "unat (emitted c + 1) = Suc j" using n(2) unat_u64_less [of "want c"] by (simp add: unat_add_u64 j_def)
  let ?s = "spread_seen ?n ?len j" and ?d = "j * ?len div ?n - spread_seen ?n ?len j"
  note W = walk_result [OF assms(1), of "emitted c * cur_present c div want c", unfolded assms(4,5) t, folded j_def nx]
  show ?thesis
  proof (cases "?n \<le> ?len")
    case le: True
    have tj: "j * ?len div ?n < ?len" using n len0 by (simp add: div_less_iff_less_mult)
    have sd: "?s + ?d = j * ?len div ?n" using spread_seen_le [OF n(1) le, of j] by simp
    have "spread_seen ?n ?len (Suc j) = Suc (j * ?len div ?n)" using le by (simp add: spread_seen_def)
    moreover have "j < length S" "S ! j = L ! (j * ?len div ?n)" using le n(2) by (simp_all add: S_def spread_def)
    moreover have "?d < length (drop ?s L)" "drop ?s L ! ?d = L ! (j * ?len div ?n)"
      "drop (Suc ?d) (drop ?s L) = drop (Suc (j * ?len div ?n)) L" "?s + Suc ?d = Suc (j * ?len div ?n)"
      using sd tj by (simp_all add: add.commute)
    ultimately show ?thesis using W e by (simp only: if_True) metis
  next
    case gt: False
    have "j * ?len div ?n \<le> j" using gt n(1) by (metis div_le_mono div_mult_self_is_m mult_le_mono2 nat_le_linear)
    then have "?d = 0" "?s = j" "spread_seen ?n ?len (Suc j) = Suc j" using gt by (simp_all add: spread_seen_def)
    moreover have "S = L" using gt by (simp add: S_def spread_def)
    ultimately show ?thesis using W e by (cases "j < ?len") auto
  qed
qed

lemma drain_spread:
  assumes "cur_ok m c" "unat (want c) * length L < 2 ^ 64" "cur_present c = of_nat (length L)"
    "remaining m c = drop (spread_seen (unat (want c)) (length L) (unat (emitted c))) L"
    "unat (seen c) = spread_seen (unat (want c)) (length L) (unat (emitted c))"
  shows "drain calls m c = map of_nat (take calls (drop (unat (emitted c)) (spread (unat (want c)) L)))"
  using assms
proof (induction calls arbitrary: c)
  case (Suc calls)
  let ?S = "spread (unat (want c)) L"
  note N = Next_spread [OF Suc.prems]
  show ?case
  proof (cases "unat (emitted c) < length ?S")
    case True
    then obtain c' where c': "Next m c = (Some (of_nat (?S ! unat (emitted c))), c')" "cur_ok m c'" "same_frame c c'"
      "unat (emitted c') = Suc (unat (emitted c))"
      "remaining m c' = drop (spread_seen (unat (want c)) (length L) (Suc (unat (emitted c)))) L"
      "unat (seen c') = spread_seen (unat (want c)) (length L) (Suc (unat (emitted c)))"
      using N unfolding if_P [OF True] by blast
    have fr: "want c' = want c" "cur_present c' = cur_present c" using c'(3) by (simp_all add: same_frame_def)
    have "drain calls m c' = map of_nat (take calls (drop (Suc (unat (emitted c))) ?S))"
      using Suc.IH [of c'] c' Suc.prems by (simp add: fr)
    then show ?thesis using c'(1) by (simp add: Cons_nth_drop_Suc [OF True, symmetric])
  next
    case False
    then have "fst (Next m c) = None" using N by simp
    then show ?thesis using False by (auto split: prod.splits)
  qed
qed simp

section \<open>The life of a membership bitmap\<close>

datatype mem_op = OpMark u64 | OpMarkSerial u64 | OpEnableClaims | OpClaim u64

fun mem_step :: "mem_op \<Rightarrow> KeyMembership \<Rightarrow> KeyMembership" where
  "mem_step (OpMark k) m = Mark k m"
| "mem_step (OpMarkSerial k) m = MarkSerial k m"
| "mem_step OpEnableClaims m = EnableClaims m"
| "mem_step (OpClaim k) m = Claim k m"

definition marks :: "u64 \<Rightarrow> mem_op list \<Rightarrow> nat set" where
  "marks kd ops = {unat k |k. k < kd \<and> (OpMark k \<in> set ops \<or> OpMarkSerial k \<in> set ops)}"

lemma MarkSerial_Mark: "MarkSerial k m = Mark k m"
  by (simp add: MarkSerial_def Mark_def or_bit_def Let_def)

lemma Mark_keys:
  assumes "mem_ok m" "k < mem_domain m"
  shows "bitmap_keys (mem_bits (Mark k m)) = insert (unat k) (bitmap_keys (mem_bits m))" "mem_ok (Mark k m)"
proof -
  have w: "word_of k < length (mem_bits m)"
    using assms bitmap_covers_key [of "mem_domain m" "mem_bits m" "unat k"] by (auto simp: mem_ok_def word_bit_of word_less_nat_alt)
  then show "bitmap_keys (mem_bits (Mark k m)) = insert (unat k) (bitmap_keys (mem_bits m))"
    using assms(2) bitmap_set [OF w] by (simp add: Mark_def or_bit_def not_le [symmetric])
  then show "mem_ok (Mark k m)"
    using assms by (auto simp: mem_ok_def Mark_def or_bit_def bitmap_covers_def word_less_nat_alt split: option.splits)
qed

lemma mem_step_effect:
  assumes "mem_ok m"
  shows "mem_ok (mem_step p m) \<and> mem_domain (mem_step p m) = mem_domain m \<and>
    bitmap_keys (mem_bits (mem_step p m)) = bitmap_keys (mem_bits m) \<union> marks (mem_domain m) [p]"
proof -
  have mark: "mem_ok (Mark k m) \<and> mem_domain (Mark k m) = mem_domain m \<and>
      bitmap_keys (mem_bits (Mark k m)) = bitmap_keys (mem_bits m) \<union> {unat k' |k'. k' < mem_domain m \<and> k' = k}" for k
    using assms Mark_keys [OF assms, of k] by (cases "k < mem_domain m") (auto simp: Mark_def)
  show ?thesis
  proof (cases p)
    case OpEnableClaims
    then show ?thesis using assms by (auto simp: EnableClaims_def mem_ok_def marks_def split: option.splits)
  next
    case (OpClaim k)
    then show ?thesis using assms by (auto simp: Claim_def mem_ok_def marks_def or_bit_def split: option.splits)
  qed (use mark in \<open>simp_all add: MarkSerial_Mark marks_def\<close>)
qed

lemma mem_history:
  assumes "mem_ok m"
  shows "mem_ok (fold mem_step ops m) \<and> mem_domain (fold mem_step ops m) = mem_domain m \<and>
    bitmap_keys (mem_bits (fold mem_step ops m)) = bitmap_keys (mem_bits m) \<union> marks (mem_domain m) ops"
  using assms
proof (induction ops arbitrary: m)
  case (Cons p ops)
  have "marks kd (p # ops) = marks kd [p] \<union> marks kd ops" for kd by (auto simp: marks_def)
  then show ?case using Cons.IH [of "mem_step p m"] mem_step_effect [OF Cons.prems, of p] by auto
qed (simp add: marks_def)

lemma KeyMembership_Create_ok:
  assumes "KeyMembership_Create kd mb = Inr m" "unat kd + 63 < 2 ^ 64"
  shows "mem_ok m" "mem_domain m = kd" "bitmap_keys (mem_bits m) = {}"
  using assms words_for_exact [OF assms(2)]
  by (auto simp: KeyMembership_Create_def mem_ok_def bitmap_covers_def bitmap_keys_zero split: if_splits)

text \<open>With claims enabled, the newest and the stale keys split the present ones.\<close>

lemma modes_split:
  assumes "claimed m \<noteq> None"
  shows "mode_keys m kNewest \<union> mode_keys m kStale = mode_keys m kPresent" "mode_keys m kNewest \<inter> mode_keys m kStale = {}"
  using assms by (auto simp: mode_keys_def)

text \<open>
  C8: after any history of marks and claims the present keys are the marked ones inside
  the domain. A cursor over a range counts the keys of its mode, and its calls return
  the even spread of \<open>want\<close> of them: the keys of rank \<open>j * n / want\<close> of the \<open>n\<close> keys, all
  of them when \<open>want\<close> is larger, and then false. The product of \<open>want\<close> and \<open>n\<close> is
  required to fit 64 bits.
\<close>

theorem cursor_spreads:
  assumes "KeyMembership_Create kd mb = Inr m0" "unat kd + 63 < 2 ^ 64" "m = fold mem_step ops m0"
    "L = mode_list m md first final" "unat n * length L < 2 ^ 64"
  shows "mode_keys m kPresent = marks kd ops \<and>
    CountPresent m first final md = of_nat (length L) \<and>
    (\<forall>calls. drain calls m (NewCursor m first final n md) = map of_nat (take calls (spread (unat n) L)))"
proof -
  note c = KeyMembership_Create_ok [OF assms(1,2)]
  have m: "mem_ok m" "bitmap_keys (mem_bits m) = marks kd ops"
    using mem_history [OF c(1), of ops] unfolding assms(3) c(2,3) by simp_all
  let ?c = "NewCursor m first final n md"
  have f: "want ?c = n" "cur_present ?c = CountPresent m first final md" "emitted ?c = 0" "seen ?c = 0"
    by (simp_all add: NewCursor_def Let_def)
  have "drain calls m ?c = map of_nat (take calls (spread (unat n) L))" for calls
    using drain_spread [OF NewCursor_ok [OF m(1)], of first final n md L calls] NewCursor_remaining [OF m(1)] assms(4,5)
    by (simp add: f CountPresent_length [OF m(1)] spread_seen_def)
  moreover have "mode_keys m kPresent = marks kd ops" using m(2) by (simp add: mode_keys_def split: option.split)
  ultimately show ?thesis using CountPresent_length [OF m(1)] assms(4) by simp
qed

text \<open>Witness: four marked keys, one of them claimed; two of the three newest ones.\<close>

theorem cursor_spreads_witness:
  "\<exists>m0. KeyMembership_Create 200 64 = Inr m0 \<and>
     (let m = fold mem_step [OpMark 3, OpMarkSerial 70, OpMark 130, OpMark 199, OpEnableClaims, OpClaim 70] m0
      in drain 5 m (NewCursor m 0 199 2 kNewest) = [3, 130])"
proof -
  let ?fresh = "\<lparr>mem_bits = [0, 0, 0, 0], claimed = None, mem_domain = 200\<rparr>"
  have m0: "KeyMembership_Create 200 64 = Inr ?fresh" by code_simp
  let ?m = "fold mem_step [OpMark 3, OpMarkSerial 70, OpMark 130, OpMark 199, OpEnableClaims, OpClaim 70] ?fresh"
  have "keys_in (\<lambda>w. Word ?m w kNewest) (mem_domain ?m) 0 199 = [3, 130, 199]" by code_simp
  moreover have "mem_ok ?fresh" using KeyMembership_Create_ok(1) [OF m0] by simp
  then have "mem_ok ?m" by (rule mem_history [THEN conjunct1])
  ultimately have L: "mode_list ?m kNewest 0 199 = [3, 130, 199]" using keys_in_mode by metis
  have "drain 5 ?m (NewCursor ?m 0 199 2 kNewest) = [3, 130]"
    using cursor_spreads [OF m0 _ refl L [symmetric], of 2] by (simp add: spread_def upt_rec del: fold.simps)
  then show ?thesis using m0 unfolding Let_def by blast
qed

end
