(* ===== verification/Key_Stream.thy ===== *)
theory Key_Stream
  imports Cond_Var "HOL-Library.Sublist"
begin

text \<open>
  The key stream of \<open>tools/db_bench_tool.cc\<close>: one thread draws the keys of the load in
  batches and puts them into a bounded queue, the shards take whole batches. The random
  generator is the 64-bit Mersenne twister of the standard library, one word per call.
  The threads are interleaved by a step relation and sleep on the condition variables
  \<open>ready_\<close> and \<open>space_\<close>; an operation whose condition does not hold is None, and one that
  proceeds says whom it notifies. The main result is that the shards get the batches of
  the sequential draw in order, that none is missing unless the stream was stopped, and
  that no wake-up is lost.
\<close>

unbundle bit_operations_syntax

section \<open>The generator\<close>

text \<open>The state is the list of the last 312 words, the oldest first.\<close>

type_synonym Random64 = "u64 list"

fun mt_seed :: "nat \<Rightarrow> nat \<Rightarrow> u64 \<Rightarrow> u64 list" where
  "mt_seed 0 i x = []"
| "mt_seed (Suc n) i x =
     x # mt_seed n (Suc i) (6364136223846793005 * (x XOR drop_bit 62 x) + of_nat (Suc i))"

definition new_Random64 :: "u64 \<Rightarrow> Random64" where
  "new_Random64 s = mt_seed 312 0 s"

definition mt_twist :: "Random64 \<Rightarrow> u64" where
  "mt_twist g =
     (let y = (g ! 0 AND NOT (mask 31)) OR (g ! 1 AND mask 31)
      in g ! 156 XOR drop_bit 1 y XOR (if bit y 0 then 0xb5026f5aa96619e9 else 0))"

definition mt_temper :: "u64 \<Rightarrow> u64" where
  "mt_temper z =
     (let z = z XOR (drop_bit 29 z AND 0x5555555555555555);
          z = z XOR (push_bit 17 z AND 0x71d67fffeda60000);
          z = z XOR (push_bit 37 z AND 0xfff7eee000000000)
      in z XOR drop_bit 43 z)"

definition Random64_Next :: "Random64 \<Rightarrow> u64 \<times> Random64" where
  "Random64_Next g = (let x = mt_twist g in (mt_temper x, tl g @ [x]))"

section \<open>The stream\<close>

record stream_config =
  ks_domain :: u64
  ks_total :: u64
  batch_keys :: u64
  depth :: nat

definition BaselineKeyStream :: "u64 \<Rightarrow> u64 \<Rightarrow> u64 \<Rightarrow> nat \<Rightarrow> stream_config" where
  "BaselineKeyStream domain total_keys batch d =
     \<lparr>ks_domain = domain, ks_total = total_keys, batch_keys = max 1 batch, depth = max 1 d\<rparr>"

text \<open>Where the producing thread is: at the head of its loop, waiting for space with a batch, past the loop, gone.\<close>

datatype producer = AtLoop | Waiting "u64 list" | AtEnd | Gone

record KeyStream =
  ks_gen :: Random64
  ks_emitted :: u64
  ks_at :: producer
  ks_queue :: "u64 list list"
  ks_finished :: bool
  ks_stop :: bool

definition new_stream :: "u64 \<Rightarrow> KeyStream" where
  "new_stream seed =
     \<lparr>ks_gen = new_Random64 seed, ks_emitted = 0, ks_at = AtLoop, ks_queue = [], ks_finished = False, ks_stop = False\<rparr>"

text \<open>Of the two values that are drawn for a key the first is dropped.\<close>

fun draw_chunk :: "nat \<Rightarrow> u64 \<Rightarrow> Random64 \<Rightarrow> u64 list \<times> Random64" where
  "draw_chunk 0 domain g = ([], g)"
| "draw_chunk (Suc n) domain g =
     (let (_, g) = Random64_Next g; (v, g) = Random64_Next g; (ks, g) = draw_chunk n domain g
      in (v mod domain # ks, g))"

text \<open>The producing thread, from one point to the next, with the notification of \<open>ready_\<close>.\<close>

definition Produce :: "stream_config \<Rightarrow> KeyStream \<Rightarrow> (KeyStream \<times> notification) option" where
  "Produce cf s =
     (case ks_at s of
        AtLoop \<Rightarrow>
          if ks_emitted s < ks_total cf
          then let n = min (batch_keys cf) (ks_total cf - ks_emitted s);
                   (chunk, g) = draw_chunk (unat n) (ks_domain cf) (ks_gen s)
               in Some (s\<lparr>ks_gen := g, ks_emitted := ks_emitted s + n, ks_at := Waiting chunk\<rparr>, Silent)
          else Some (s\<lparr>ks_at := AtEnd\<rparr>, Silent)
      | Waiting chunk \<Rightarrow>
          if length (ks_queue s) < depth cf \<or> ks_stop s
          then if ks_stop s then Some (s\<lparr>ks_at := AtEnd\<rparr>, Silent)
               else Some (s\<lparr>ks_queue := ks_queue s @ [chunk], ks_at := AtLoop\<rparr>, NotifyOne)
          else None
      | AtEnd \<Rightarrow> Some (s\<lparr>ks_finished := True, ks_at := Gone\<rparr>, NotifyAll)
      | Gone \<Rightarrow> None)"

text \<open>A call of \<open>Next\<close> gets a batch or returns false, with the notification of \<open>space_\<close>.\<close>

definition Stream_Next :: "KeyStream \<Rightarrow> (u64 list option \<times> KeyStream \<times> notification) option" where
  "Stream_Next s =
     (case ks_queue s of
        [] \<Rightarrow> if ks_finished s then Some (None, s, Silent) else None
      | b # bs \<Rightarrow> Some (Some b, s\<lparr>ks_queue := bs\<rparr>, NotifyOne))"

text \<open>\<open>Stop\<close> sets the flag; its notifications and the join follow outside the lock.\<close>

definition Stream_Stop :: "KeyStream \<Rightarrow> KeyStream" where
  "Stream_Stop s = s\<lparr>ks_stop := True\<rparr>"

datatype stop_call = NoStop | StopSet | SpaceNotified | Joining

section \<open>The threads\<close>

text \<open>
  The shards inside \<open>Next\<close>, those of them asleep on \<open>ready_\<close>, whether the producer is
  asleep on \<open>space_\<close>, the progress of a call of \<open>Stop\<close>, the batches handed over so far
  and whether a call has returned false.
\<close>

record stream_state =
  stream :: KeyStream
  calling :: "nat set"
  ready_waiters :: "nat set"
  space_waiters :: "unit set"
  stopper :: stop_call
  delivered :: "u64 list list"
  refused :: bool

definition stream_start :: "u64 \<Rightarrow> stream_state" where
  "stream_start seed = \<lparr>stream = new_stream seed, calling = {}, ready_waiters = {}, space_waiters = {}, stopper = NoStop,
     delivered = [], refused = False\<rparr>"

text \<open>The steps of the producer and of the calls in progress.\<close>

inductive stream_work :: "stream_config \<Rightarrow> stream_state \<Rightarrow> stream_state \<Rightarrow> bool" for cf where
  produce: "space_waiters x = {} \<Longrightarrow> Produce cf (stream x) = Some (s', n) \<Longrightarrow> deliver n (ready_waiters x) w \<Longrightarrow>
    stream_work cf x (x\<lparr>stream := s', ready_waiters := w\<rparr>)"
| produce_waits: "space_waiters x = {} \<Longrightarrow> Produce cf (stream x) = None \<Longrightarrow> ks_at (stream x) \<noteq> Gone \<Longrightarrow>
    stream_work cf x (x\<lparr>space_waiters := Wait () (space_waiters x)\<rparr>)"
| batch: "i \<in> calling x - ready_waiters x \<Longrightarrow> Stream_Next (stream x) = Some (Some b, s', n) \<Longrightarrow>
    deliver n (space_waiters x) w \<Longrightarrow>
    stream_work cf x (x\<lparr>stream := s', calling := calling x - {i}, space_waiters := w, delivered := delivered x @ [b]\<rparr>)"
| no_batch: "i \<in> calling x - ready_waiters x \<Longrightarrow> Stream_Next (stream x) = Some (None, s', n) \<Longrightarrow>
    deliver n (space_waiters x) w \<Longrightarrow>
    stream_work cf x (x\<lparr>stream := s', calling := calling x - {i}, space_waiters := w, refused := True\<rparr>)"
| next_waits: "i \<in> calling x - ready_waiters x \<Longrightarrow> Stream_Next (stream x) = None \<Longrightarrow>
    stream_work cf x (x\<lparr>ready_waiters := Wait i (ready_waiters x)\<rparr>)"
| stop_space: "stopper x = StopSet \<Longrightarrow>
    stream_work cf x (x\<lparr>space_waiters := SignalAll (space_waiters x), stopper := SpaceNotified\<rparr>)"
| stop_ready: "stopper x = SpaceNotified \<Longrightarrow>
    stream_work cf x (x\<lparr>ready_waiters := SignalAll (ready_waiters x), stopper := Joining\<rparr>)"
| join: "stopper x = Joining \<Longrightarrow> ks_at (stream x) = Gone \<Longrightarrow> stream_work cf x (x\<lparr>stopper := NoStop\<rparr>)"

text \<open>A shard calls \<open>Next\<close>, the owner calls \<open>Stop\<close>, or a sleeper wakes up without a notification.\<close>

inductive stream_call :: "stream_state \<Rightarrow> stream_state \<Rightarrow> bool" where
  call_next: "i \<notin> calling x \<Longrightarrow> stream_call x (x\<lparr>calling := insert i (calling x)\<rparr>)"
| call_stop: "stopper x = NoStop \<Longrightarrow> stream_call x (x\<lparr>stream := Stream_Stop (stream x), stopper := StopSet\<rparr>)"
| spurious_ready: "stream_call x (x\<lparr>ready_waiters := ready_waiters x - {i}\<rparr>)"
| spurious_space: "stream_call x (x\<lparr>space_waiters := {}\<rparr>)"

definition stream_step :: "stream_config \<Rightarrow> stream_state \<Rightarrow> stream_state \<Rightarrow> bool" where
  "stream_step cf x y \<longleftrightarrow> stream_work cf x y \<or> stream_call x y"

section \<open>The sequential draw\<close>

text \<open>The keys that the load's own write path draws, and how they are cut into batches.\<close>

fun draw_keys :: "nat \<Rightarrow> u64 \<Rightarrow> Random64 \<Rightarrow> u64 list" where
  "draw_keys 0 domain g = []"
| "draw_keys (Suc n) domain g =
     (let g = snd (Random64_Next g) in fst (Random64_Next g) mod domain # draw_keys n domain (snd (Random64_Next g)))"

function cut_batches :: "nat \<Rightarrow> 'k list \<Rightarrow> 'k list list" where
  "cut_batches b ks = (if ks = [] \<or> b = 0 then [] else take b ks # cut_batches b (drop b ks))"
  by pat_completeness auto
termination by (relation "measure (\<lambda>(b, ks). length ks)") auto

declare cut_batches.simps [simp del]

definition key_batches :: "stream_config \<Rightarrow> u64 \<Rightarrow> u64 list list" where
  "key_batches cf seed = cut_batches (unat (batch_keys cf)) (draw_keys (unat (ks_total cf)) (ks_domain cf) (new_Random64 seed))"

lemma draw_chunk_keys:
  "fst (draw_chunk n d g) = draw_keys n d g \<and> draw_keys (n + k) d g = draw_keys n d g @ draw_keys k d (snd (draw_chunk n d g))"
  by (induction n arbitrary: g) (simp_all add: Let_def split_beta)

lemma length_draw_keys: "length (draw_keys n d g) = n"
  by (induction n d g rule: draw_keys.induct) (simp_all add: Let_def)

lemma draw_keys_domain: "0 < d \<Longrightarrow> k \<in> set (draw_keys n d g) \<Longrightarrow> k < d"
  by (induction n d g rule: draw_keys.induct) (auto simp: Let_def word_mod_less_divisor)

lemma concat_cut: "0 < b \<Longrightarrow> concat (cut_batches b ks) = ks"
proof (induction b ks rule: cut_batches.induct)
  case (1 b ks)
  then show ?case by (subst cut_batches.simps) simp
qed

section \<open>The invariant\<close>

text \<open>The batches handed over, queued, waiting and still to be drawn are all batches in order.\<close>

definition ahead :: "stream_config \<Rightarrow> KeyStream \<Rightarrow> u64 list list" where
  "ahead cf s = cut_batches (unat (batch_keys cf)) (draw_keys (unat (ks_total cf) - unat (ks_emitted s)) (ks_domain cf) (ks_gen s))"

definition waiting :: "KeyStream \<Rightarrow> u64 list list" where
  "waiting s = (case ks_at s of Waiting c \<Rightarrow> [c] | _ \<Rightarrow> [])"

definition stream_inv :: "stream_config \<Rightarrow> u64 \<Rightarrow> KeyStream \<Rightarrow> u64 list list \<Rightarrow> bool \<Rightarrow> bool" where
  "stream_inv cf seed s D e \<longleftrightarrow>
     ks_emitted s \<le> ks_total cf \<and> length (ks_queue s) \<le> depth cf \<and>
     (if ks_at s \<in> {AtEnd, Gone}
      then prefix (D @ ks_queue s) (key_batches cf seed) \<and> (\<not> ks_stop s \<longrightarrow> D @ ks_queue s = key_batches cf seed)
      else D @ ks_queue s @ waiting s @ ahead cf s = key_batches cf seed) \<and>
     (ks_finished s \<longleftrightarrow> ks_at s = Gone) \<and> (e \<longrightarrow> ks_finished s \<and> ks_queue s = [])"

lemma ahead_draw:
  assumes "ks_emitted s < ks_total cf" "0 < batch_keys cf"
  defines "n \<equiv> min (batch_keys cf) (ks_total cf - ks_emitted s)"
  shows "unat n = min (unat (batch_keys cf)) (unat (ks_total cf) - unat (ks_emitted s))" "ks_emitted s + n \<le> ks_total cf"
    and "ahead cf s = fst (draw_chunk (unat n) (ks_domain cf) (ks_gen s)) #
      ahead cf (s\<lparr>ks_gen := snd (draw_chunk (unat n) (ks_domain cf) (ks_gen s)), ks_emitted := ks_emitted s + n, ks_at := p\<rparr>)"
proof -
  have sub: "unat (ks_total cf - ks_emitted s) = unat (ks_total cf) - unat (ks_emitted s)"
    using assms(1) by (simp add: unat_sub_u64)
  show n: "unat n = min (unat (batch_keys cf)) (unat (ks_total cf) - unat (ks_emitted s))"
    using sub by (auto simp: n_def min_def word_le_nat_alt)
  have t: "unat (ks_emitted s) < unat (ks_total cf)" using assms(1) by (simp add: word_less_nat_alt)
  have e: "unat (ks_emitted s + n) = unat (ks_emitted s) + unat n"
    using n t unat_u64_less [of "ks_total cf"] by (intro unat_add_u64) linarith
  then show "ks_emitted s + n \<le> ks_total cf" using n t by (simp add: word_le_nat_alt)
  let ?r = "unat (ks_total cf) - unat (ks_emitted s)" and ?b = "unat (batch_keys cf)" and ?d = "ks_domain cf"
  define k where "k = ?r - unat n"
  have r: "?r = unat n + k" using n by (simp add: k_def)
  have b: "0 < ?b" using assms(2) by (simp add: unat_gt_0)
  have nb: "unat n = ?b \<or> k = 0 \<and> unat n \<le> ?b" using n unfolding k_def by linarith
  have keys: "draw_keys ?r ?d (ks_gen s) = draw_keys (unat n) ?d (ks_gen s) @ draw_keys k ?d (snd (draw_chunk (unat n) ?d (ks_gen s)))"
    unfolding r using draw_chunk_keys by blast
  have "draw_keys ?r ?d (ks_gen s) \<noteq> []" using length_draw_keys [of ?r ?d "ks_gen s"] t by auto
  moreover have "take ?b (draw_keys ?r ?d (ks_gen s)) = draw_keys (unat n) ?d (ks_gen s)"
    "drop ?b (draw_keys ?r ?d (ks_gen s)) = draw_keys k ?d (snd (draw_chunk (unat n) ?d (ks_gen s)))"
    unfolding keys using nb by (auto simp: length_draw_keys)
  ultimately show "ahead cf s = fst (draw_chunk (unat n) ?d (ks_gen s)) #
      ahead cf (s\<lparr>ks_gen := snd (draw_chunk (unat n) ?d (ks_gen s)), ks_emitted := ks_emitted s + n, ks_at := p\<rparr>)"
    using b draw_chunk_keys [of "unat n" ?d "ks_gen s"] unfolding ahead_def
    by (simp add: cut_batches.simps [of ?b "draw_keys ?r ?d (ks_gen s)"] e k_def)
qed

lemma stream_inv_new: "stream_inv cf seed (new_stream seed) [] False"
  by (simp add: stream_inv_def new_stream_def waiting_def ahead_def key_batches_def)

lemma stream_inv_produce:
  assumes "stream_inv cf seed s D e" "Produce cf s = Some (s', n)" "0 < batch_keys cf"
  shows "stream_inv cf seed s' D e"
proof (cases "ks_at s")
  case AtLoop
  show ?thesis
  proof (cases "ks_emitted s < ks_total cf")
    case True
    define m where "m = min (batch_keys cf) (ks_total cf - ks_emitted s)"
    define r where "r = draw_chunk (unat m) (ks_domain cf) (ks_gen s)"
    note d = ahead_draw [OF True assms(3), folded m_def, folded r_def]
    have s': "s' = s\<lparr>ks_gen := snd r, ks_emitted := ks_emitted s + m, ks_at := Waiting (fst r)\<rparr>"
      using assms(2) AtLoop True by (simp add: Produce_def Let_def split_beta m_def [symmetric] r_def [symmetric])
    have "ahead cf s = fst r # ahead cf s'" unfolding s' by (rule d(3))
    then have "waiting s' @ ahead cf s' = waiting s @ ahead cf s" using AtLoop by (simp add: waiting_def s')
    moreover have "ks_at s' = Waiting (fst r)" "ks_emitted s' = ks_emitted s + m" "ks_queue s' = ks_queue s"
      "ks_finished s' = ks_finished s" by (simp_all add: s')
    ultimately show ?thesis using assms(1) AtLoop d(2) by (auto simp: stream_inv_def)
  next
    case False
    then have "ahead cf s = []" using cut_batches.simps [of _ "[]"] by (simp add: ahead_def word_less_nat_alt)
    then show ?thesis using assms(1,2) AtLoop False by (auto simp: Produce_def stream_inv_def waiting_def)
  qed
next
  case (Waiting c)
  then show ?thesis using assms(1,2)
    by (auto simp: Produce_def stream_inv_def waiting_def ahead_def split: if_splits)
      (metis append.assoc prefixI)
next
  case AtEnd
  then show ?thesis using assms(1,2) by (auto simp: Produce_def stream_inv_def)
next
  case Gone
  then show ?thesis using assms(2) by (simp add: Produce_def)
qed

lemma stream_inv_next:
  assumes "stream_inv cf seed s D e"
  shows "Stream_Next s = Some (Some b, s', n) \<Longrightarrow> stream_inv cf seed s' (D @ [b]) e"
    and "Stream_Next s = Some (None, s', n) \<Longrightarrow> stream_inv cf seed s' D True"
  using assms
  by (auto simp: Stream_Next_def stream_inv_def waiting_def ahead_def split: list.splits if_splits)

lemma stream_inv_stop: "stream_inv cf seed s D e \<Longrightarrow> stream_inv cf seed (Stream_Stop s) D e"
  by (auto simp: Stream_Stop_def stream_inv_def waiting_def ahead_def)

section \<open>No wake-up is lost\<close>

text \<open>
  While a shard sleeps, every queued batch has an awake caller coming for it and the
  producer is not finished; while the producer sleeps, the queue is full and a stop has
  still to notify it; a stop in progress has set the flag.
\<close>

definition awake_calls :: "stream_state \<Rightarrow> nat set" where
  "awake_calls x = calling x - ready_waiters x"

definition wake_inv :: "stream_config \<Rightarrow> stream_state \<Rightarrow> bool" where
  "wake_inv cf x \<longleftrightarrow> finite (calling x) \<and> ready_waiters x \<subseteq> calling x \<and>
     (ready_waiters x \<noteq> {} \<longrightarrow> length (ks_queue (stream x)) \<le> card (awake_calls x) \<and> \<not> ks_finished (stream x)) \<and>
     (space_waiters x \<noteq> {} \<longrightarrow> length (ks_queue (stream x)) \<ge> depth cf \<and> ks_at (stream x) \<notin> {AtLoop, AtEnd, Gone} \<and>
        (ks_stop (stream x) \<longrightarrow> stopper x = StopSet)) \<and>
     (stopper x \<noteq> NoStop \<longrightarrow> ks_stop (stream x))"

lemma wake_inv_start: "wake_inv cf (stream_start seed)"
  by (simp add: wake_inv_def stream_start_def)

lemma Produce_effect:
  assumes "Produce cf s = Some (s', n)"
  shows "ks_stop s' = ks_stop s" "n = Silent \<Longrightarrow> ks_queue s' = ks_queue s \<and> ks_finished s' = ks_finished s"
    "n = NotifyOne \<Longrightarrow> length (ks_queue s') = Suc (length (ks_queue s)) \<and> ks_finished s' = ks_finished s"
  using assms by (auto simp: Produce_def Let_def split_beta split: producer.splits if_splits)

lemma Produce_None:
  "Produce cf s = None \<Longrightarrow> ks_at s \<noteq> Gone \<Longrightarrow> \<exists>c. ks_at s = Waiting c \<and> depth cf \<le> length (ks_queue s) \<and> \<not> ks_stop s"
  by (auto simp: Produce_def Let_def split_beta not_less split: producer.splits if_splits)

lemma Stream_Next_effect:
  assumes "Stream_Next s = Some (r, s', n)"
  shows "ks_stop s' = ks_stop s" "ks_finished s' = ks_finished s" "ks_at s' = ks_at s"
    "r = None \<Longrightarrow> s' = s \<and> n = Silent \<and> ks_finished s" "r = Some b \<Longrightarrow> Suc (length (ks_queue s')) = length (ks_queue s) \<and> n = NotifyOne"
  using assms by (auto simp: Stream_Next_def split: list.splits if_splits)

lemma wake_inv_produce:
  assumes inv: "wake_inv cf x" and "space_waiters x = {}" "Produce cf (stream x) = Some (s', n)" "deliver n (ready_waiters x) w"
  shows "wake_inv cf (x\<lparr>stream := s', ready_waiters := w\<rparr>)"
proof -
  let ?y = "x\<lparr>stream := s', ready_waiters := w\<rparr>"
  note P = Produce_effect [OF assms(3)]
  have fin: "finite (calling x)" "ready_waiters x \<subseteq> calling x" using inv by (simp_all add: wake_inv_def)
  then have w: "w \<subseteq> ready_waiters x" "w \<subseteq> calling x" using deliver_subset [OF assms(4)] by auto
  have "length (ks_queue s') \<le> card (awake_calls ?y) \<and> \<not> ks_finished s'" if "w \<noteq> {}"
  proof (cases n)
    case Silent
    then show ?thesis using inv P(2) assms(4) that by (simp add: wake_inv_def awake_calls_def)
  next
    case NotifyOne
    then have s: "Signal (ready_waiters x) w" using assms(4) by simp
    then have ne: "ready_waiters x \<noteq> {}" using that w by auto
    then obtain j where j: "j \<in> ready_waiters x" "w = ready_waiters x - {j}" using s by (auto simp: Signal_def)
    then have "awake_calls ?y = insert j (awake_calls x)" "j \<notin> awake_calls x" using fin(2) by (auto simp: awake_calls_def)
    then have "card (awake_calls ?y) = Suc (card (awake_calls x))" using fin(1) by (simp add: awake_calls_def)
    then show ?thesis using inv ne P(3) [OF NotifyOne] by (simp add: wake_inv_def)
  next
    case NotifyAll
    then show ?thesis using assms(4) that by (simp add: SignalAll_def)
  qed
  then show ?thesis using inv assms(2) fin(1) w(2) P(1) by (simp add: wake_inv_def)
qed

lemma wake_inv_next:
  assumes inv: "wake_inv cf x" and i: "i \<in> calling x - ready_waiters x"
    and nx: "Stream_Next (stream x) = Some (r, s', n)" and w: "deliver n (space_waiters x) w"
  shows "wake_inv cf (x\<lparr>stream := s', calling := calling x - {i}, space_waiters := w, delivered := D, refused := e\<rparr>)"
proof -
  let ?y = "x\<lparr>stream := s', calling := calling x - {i}, space_waiters := w, delivered := D, refused := e\<rparr>"
  note N = Stream_Next_effect [OF nx]
  have fin: "finite (calling x)" using inv by (simp add: wake_inv_def)
  have a: "awake_calls ?y = awake_calls x - {i}" "i \<in> awake_calls x" "finite (awake_calls x)"
    using i fin by (auto simp: awake_calls_def)
  show ?thesis
  proof (cases r)
    case None
    then have "s' = stream x" "w = space_waiters x" "ks_finished (stream x)" using N(4) w by auto
    moreover from this have "ready_waiters x = {}" using inv by (auto simp: wake_inv_def)
    ultimately show ?thesis using inv fin by (simp add: wake_inv_def)
  next
    case (Some b)
    then have q: "Suc (length (ks_queue s')) = length (ks_queue (stream x))" "n = NotifyOne" using N(5) by auto
    have "w = {}" using w q(2) by (cases "space_waiters x = {}") (auto simp: Signal_def)
    moreover have "length (ks_queue s') \<le> card (awake_calls ?y)" if "ready_waiters x \<noteq> {}"
    proof -
      have "length (ks_queue (stream x)) \<le> card (awake_calls x)" using inv that by (simp add: wake_inv_def)
      moreover have "card (awake_calls ?y) = card (awake_calls x) - 1" using a by (simp add: card_Diff_singleton)
      ultimately show ?thesis using q(1) by linarith
    qed
    ultimately show ?thesis using inv i fin N(1,2) by (auto simp: wake_inv_def)
  qed
qed

lemma wake_inv_step:
  assumes inv: "wake_inv cf x" and st: "stream_step cf x y"
  shows "wake_inv cf y"
  using st unfolding stream_step_def
proof
  assume "stream_work cf x y"
  then show ?thesis
  proof cases
    case produce
    then show ?thesis using wake_inv_produce [OF inv] by simp
  next
    case produce_waits
    then show ?thesis using inv Produce_None [OF produce_waits(3,4)] by (auto simp: wake_inv_def Wait_def awake_calls_def)
  next
    case (batch i b s' n w)
    then show ?thesis using wake_inv_next [OF inv batch(2-4), where D = "delivered x @ [b]" and e = "refused x"] by simp
  next
    case (no_batch i s' n w)
    then show ?thesis using wake_inv_next [OF inv no_batch(2-4), where D = "delivered x" and e = True] by simp
  next
    case (next_waits i)
    then have "ks_queue (stream x) = []" "\<not> ks_finished (stream x)" by (auto simp: Stream_Next_def split: list.splits if_splits)
    then show ?thesis using inv next_waits by (auto simp: wake_inv_def Wait_def)
  qed (use inv in \<open>auto simp: wake_inv_def SignalAll_def awake_calls_def\<close>)
next
  assume "stream_call x y"
  then show ?thesis
  proof cases
    case (call_next i)
    have "card (awake_calls x) \<le> card (awake_calls y)"
      using inv call_next by (intro card_mono) (auto simp: wake_inv_def awake_calls_def)
    then show ?thesis using inv call_next by (auto simp: wake_inv_def)
  next
    case call_stop
    then show ?thesis using inv by (auto simp: wake_inv_def Stream_Stop_def awake_calls_def)
  next
    case (spurious_ready i)
    have "card (awake_calls x) \<le> card (awake_calls y)"
      using inv spurious_ready by (intro card_mono) (auto simp: wake_inv_def awake_calls_def)
    then show ?thesis using inv spurious_ready by (auto simp: wake_inv_def)
  next
    case spurious_space
    then show ?thesis using inv by (auto simp: wake_inv_def awake_calls_def)
  qed
qed

lemma stream_inv_step:
  assumes "stream_inv cf seed (stream x) (delivered x) (refused x)" "stream_step cf x y" "0 < batch_keys cf"
  shows "stream_inv cf seed (stream y) (delivered y) (refused y)"
  using assms(2) unfolding stream_step_def
proof
  assume "stream_work cf x y"
  then show ?thesis
  proof cases
    case produce
    then show ?thesis using stream_inv_produce [OF assms(1) _ assms(3)] by simp
  next
    case batch
    then show ?thesis using stream_inv_next(1) [OF assms(1)] by simp
  next
    case no_batch
    then show ?thesis using stream_inv_next(2) [OF assms(1)] by simp
  qed (use assms(1) in simp_all)
next
  assume "stream_call x y"
  then show ?thesis using assms(1) by cases (simp_all add: stream_inv_stop)
qed

lemma stream_invs_steps:
  assumes "(stream_step cf)\<^sup>*\<^sup>* x y" "0 < batch_keys cf"
    and "wake_inv cf x" "stream_inv cf seed (stream x) (delivered x) (refused x)"
  shows "wake_inv cf y" "stream_inv cf seed (stream y) (delivered y) (refused y)"
  using assms by (induction rule: rtranclp_induct) (auto intro: wake_inv_step stream_inv_step)

section \<open>Every call is answered\<close>

text \<open>What the producer, a stop, the calls and the threads that are awake may still do.\<close>

definition producer_left :: "stream_config \<Rightarrow> KeyStream \<Rightarrow> nat" where
  "producer_left cf s =
     (case ks_at s of AtLoop \<Rightarrow> 2 * length (ahead cf s) + 2 | Waiting _ \<Rightarrow> 2 * length (ahead cf s) + 3
      | AtEnd \<Rightarrow> 1 | Gone \<Rightarrow> 0)"

definition stop_left :: "stream_state \<Rightarrow> nat" where
  "stop_left x = (case stopper x of NoStop \<Rightarrow> 0 | StopSet \<Rightarrow> 3 | SpaceNotified \<Rightarrow> 2 | Joining \<Rightarrow> 1)"

definition stream_order :: "stream_config \<Rightarrow> (stream_state \<times> stream_state) set" where
  "stream_order cf = measures [\<lambda>x. producer_left cf (stream x), stop_left, \<lambda>x. card (calling x),
     \<lambda>x. card (awake_calls x) + (if space_waiters x = {} then 1 else 0)]"

lemma Produce_left:
  assumes "Produce cf s = Some (s', n)" "0 < batch_keys cf"
  shows "producer_left cf s' < producer_left cf s"
proof (cases "ks_at s = AtLoop \<and> ks_emitted s < ks_total cf")
  case True
  define m where "m = min (batch_keys cf) (ks_total cf - ks_emitted s)"
  define r where "r = draw_chunk (unat m) (ks_domain cf) (ks_gen s)"
  have s': "s' = s\<lparr>ks_gen := snd r, ks_emitted := ks_emitted s + m, ks_at := Waiting (fst r)\<rparr>"
    using assms(1) True by (simp add: Produce_def Let_def split_beta m_def [symmetric] r_def [symmetric])
  have "ahead cf s = fst r # ahead cf s'" unfolding s' r_def m_def by (rule ahead_draw(3)) (use True assms(2) in simp_all)
  then show ?thesis using True by (simp add: producer_left_def s')
next
  case False
  then show ?thesis using assms(1)
    by (auto simp: Produce_def producer_left_def ahead_def split: producer.splits if_splits)
qed

lemma stream_work_order:
  assumes "stream_work cf x y" "wake_inv cf x" "0 < batch_keys cf"
  shows "(y, x) \<in> stream_order cf"
  using assms(1)
proof cases
  case produce
  then show ?thesis using Produce_left [OF _ assms(3)] by (simp add: stream_order_def)
next
  case produce_waits
  then show ?thesis by (simp add: stream_order_def stop_left_def awake_calls_def Wait_def)
next
  case (batch i b s' n w)
  then have "producer_left cf s' = producer_left cf (stream x)"
    by (auto simp: Stream_Next_def producer_left_def ahead_def split: list.splits if_splits producer.splits)
  moreover have "card (calling x - {i}) < card (calling x)" using batch(2) assms(2) by (intro card_Diff1_less) (auto simp: wake_inv_def)
  ultimately show ?thesis using batch by (simp add: stream_order_def stop_left_def)
next
  case (no_batch i s' n w)
  have "card (calling x - {i}) < card (calling x)" using no_batch(2) assms(2) by (intro card_Diff1_less) (auto simp: wake_inv_def)
  then show ?thesis using no_batch Stream_Next_effect(4) [OF no_batch(3)] by (simp add: stream_order_def stop_left_def)
next
  case (next_waits i)
  have "awake_calls y = awake_calls x - {i}" "i \<in> awake_calls x" "finite (awake_calls x)"
    using next_waits assms(2) by (auto simp: awake_calls_def Wait_def wake_inv_def)
  then have "card (awake_calls y) < card (awake_calls x)" by (simp only: card_Diff1_less)
  then show ?thesis using next_waits by (simp add: stream_order_def stop_left_def)
qed (simp_all add: stream_order_def stop_left_def)

lemma no_infinite_stream:
  assumes "wake_inv cf x" "0 < batch_keys cf"
  shows "\<nexists>f. f 0 = x \<and> (\<forall>n. stream_work cf (f n) (f (Suc n)))"
proof
  assume "\<exists>f. f 0 = x \<and> (\<forall>n. stream_work cf (f n) (f (Suc n)))"
  then obtain f where f: "f 0 = x" "\<And>n. stream_work cf (f n) (f (Suc n))" by blast
  have "wake_inv cf (f n)" for n
    by (induction n) (use f assms(1) wake_inv_step in \<open>auto simp: stream_step_def\<close>)
  then have "(f (Suc n), f n) \<in> stream_order cf" for n using stream_work_order [OF f(2) _ assms(2)] by blast
  moreover have "wf (stream_order cf)" by (simp add: stream_order_def)
  ultimately show False by (meson wf_iff_no_infinite_down_chain)
qed

lemma stream_stopped:
  assumes inv: "wake_inv cf y" "ks_finished (stream y) \<longleftrightarrow> ks_at (stream y) = Gone" and stop: "\<nexists>z. stream_work cf y z" and "0 < depth cf"
  shows "calling y = {} \<and> stopper y = NoStop"
proof -
  note W = stream_work.intros [where cf = cf]
  have ns: "stopper y \<notin> {StopSet, SpaceNotified}" using stop W(6) [of y] W(7) [of y] by blast
  have prod: "ks_at (stream y) = Gone \<or> space_waiters y \<noteq> {}"
  proof (rule ccontr)
    assume "\<not> ?thesis"
    then have g: "ks_at (stream y) \<noteq> Gone" "space_waiters y = {}" by auto
    show False
    proof (cases "Produce cf (stream y)")
      case None
      then show False using W(2) [OF g(2) None g(1)] stop by blast
    next
      case (Some p)
      then obtain s' n where p: "Produce cf (stream y) = Some (s', n)" by (cases p) auto
      obtain w where "deliver n (ready_waiters y) w" using deliver_exists by blast
      then show False using W(1) [OF g(2) p] stop by blast
    qed
  qed
  have sl: "ks_at (stream y) = Gone \<or> \<not> ks_stop (stream y) \<and> ks_queue (stream y) \<noteq> []"
    using prod inv(1) ns assms(4) by (auto simp: wake_inv_def)
  have "stopper y = NoStop"
  proof (rule ccontr)
    assume n: "stopper y \<noteq> NoStop"
    then have "stopper y = Joining" using ns by (cases "stopper y") auto
    moreover have "ks_at (stream y) = Gone" using sl n inv(1) by (auto simp: wake_inv_def)
    ultimately show False using W(8) [of y] stop by blast
  qed
  moreover have aw: "awake_calls y = {}"
  proof (rule ccontr)
    assume "awake_calls y \<noteq> {}"
    then obtain i where i: "i \<in> calling y - ready_waiters y" by (auto simp: awake_calls_def)
    show False
    proof (cases "Stream_Next (stream y)")
      case None
      then show False using W(5) [OF i] stop by blast
    next
      case (Some p)
      then obtain r s' n where p: "Stream_Next (stream y) = Some (r, s', n)" by (cases p) auto
      obtain w where w: "deliver n (space_waiters y) w" using deliver_exists by blast
      show False using W(3) [OF i _ w] W(4) [OF i _ w] p stop by (cases r) blast+
    qed
  qed
  moreover have "ready_waiters y = {}"
  proof (rule ccontr)
    assume "ready_waiters y \<noteq> {}"
    then have "ks_queue (stream y) = []" "\<not> ks_finished (stream y)" using inv(1) aw by (simp_all add: wake_inv_def)
    then show False using sl inv(2) by auto
  qed
  ultimately show ?thesis by (auto simp: awake_calls_def)
qed

text \<open>
  C38: under every interleaving of the producer, the shards and \<open>Stop\<close>, with the threads
  sleeping on the two condition variables and waking up now and then without cause, the
  batches handed over are a prefix of the sequential draw cut into batches, in order and
  whatever the shards do; the queue stays within its depth; and a call that returns false
  on a stream that was not stopped means that every batch was handed over. No wake-up is
  lost: while a shard sleeps, every queued batch has a caller that is awake and the
  producer has not finished, and while the producer sleeps the queue is full and no stop
  has notified it. Once no new calls are made the steps of the producer and of the calls in
  progress come to an end, and then every call of \<open>Next\<close> and of \<open>Stop\<close> has returned; as
  long as new calls come, another shard may take the batch a shard was woken for. The
  batches together are the keys that the write path draws, all inside the domain.
\<close>

theorem stream_delivers:
  assumes "cf = BaselineKeyStream domain total_keys batch d" "0 < domain"
    and "(stream_step cf)\<^sup>*\<^sup>* (stream_start seed) x"
  shows "prefix (delivered x) (key_batches cf seed) \<and> length (ks_queue (stream x)) \<le> depth cf \<and>
    (refused x \<and> \<not> ks_stop (stream x) \<longrightarrow> delivered x = key_batches cf seed) \<and>
    (ready_waiters x \<noteq> {} \<longrightarrow>
       length (ks_queue (stream x)) \<le> card (calling x - ready_waiters x) \<and> \<not> ks_finished (stream x)) \<and>
    (space_waiters x \<noteq> {} \<longrightarrow>
       length (ks_queue (stream x)) = depth cf \<and> (ks_stop (stream x) \<longrightarrow> stopper x = StopSet)) \<and>
    (\<nexists>f. f 0 = x \<and> (\<forall>n. stream_work cf (f n) (f (Suc n)))) \<and>
    (\<forall>y. (stream_work cf)\<^sup>*\<^sup>* x y \<and> (\<nexists>z. stream_work cf y z) \<longrightarrow> calling y = {} \<and> stopper y = NoStop) \<and>
    concat (key_batches cf seed) = draw_keys (unat total_keys) domain (new_Random64 seed) \<and>
    (\<forall>b \<in> set (key_batches cf seed). \<forall>k \<in> set b. k < domain)"
proof -
  have c: "0 < batch_keys cf" "0 < depth cf" "ks_domain cf = domain" "ks_total cf = total_keys"
    by (auto simp: assms(1) BaselineKeyStream_def max_def word_gt_0)
  have st: "stream_inv cf seed (stream (stream_start seed)) (delivered (stream_start seed)) (refused (stream_start seed))"
    by (simp add: stream_start_def stream_inv_new)
  note inv = stream_invs_steps [OF assms(3) c(1) wake_inv_start st]
  have keys: "concat (key_batches cf seed) = draw_keys (unat total_keys) domain (new_Random64 seed)"
    using c by (simp add: key_batches_def concat_cut unat_gt_0)
  have dom: "\<forall>b \<in> set (key_batches cf seed). \<forall>k \<in> set b. k < domain"
  proof (intro ballI)
    fix b k assume "b \<in> set (key_batches cf seed)" "k \<in> set b"
    then have "k \<in> set (concat (key_batches cf seed))" by auto
    then show "k < domain" unfolding keys by (rule draw_keys_domain [OF assms(2)])
  qed
  have pre: "prefix (delivered x) (key_batches cf seed)"
    using inv(2) by (auto simp: stream_inv_def prefix_def split: if_splits) metis
  have len: "length (ks_queue (stream x)) \<le> depth cf"
    and all: "refused x \<and> \<not> ks_stop (stream x) \<longrightarrow> delivered x = key_batches cf seed"
    using inv(2) by (auto simp: stream_inv_def split: if_splits)
  have ends: "\<forall>y. (stream_work cf)\<^sup>*\<^sup>* x y \<and> (\<nexists>z. stream_work cf y z) \<longrightarrow> calling y = {} \<and> stopper y = NoStop"
  proof (intro allI impI, elim conjE)
    fix y assume y: "(stream_work cf)\<^sup>*\<^sup>* x y" "\<nexists>z. stream_work cf y z"
    have "(stream_step cf)\<^sup>*\<^sup>* x y" using y(1) by (rule rtranclp_mono [THEN predicate2D, rotated]) (auto simp: stream_step_def)
    note iy = stream_invs_steps [OF this c(1) inv]
    show "calling y = {} \<and> stopper y = NoStop"
      by (rule stream_stopped [OF iy(1) _ y(2) c(2)]) (use iy(2) in \<open>simp add: stream_inv_def\<close>)
  qed
  show ?thesis
    using pre len all inv(1) no_infinite_stream [OF inv(1) c(1)] ends keys dom
    by (intro conjI) (auto simp: wake_inv_def awake_calls_def)
qed

text \<open>
  Witness: five keys below 10 in batches of two. A shard calls and sleeps; the producer
  queues the first batch, wakes the shard, and the shard gets it.
\<close>

theorem stream_delivers_witness:
  "\<exists>x y b. (stream_step (BaselineKeyStream 10 5 2 4))\<^sup>*\<^sup>* (stream_start 1) x \<and> ready_waiters x = {0} \<and>
     (stream_work (BaselineKeyStream 10 5 2 4))\<^sup>*\<^sup>* x y \<and> delivered y = [b] \<and> length b = 2 \<and>
     prefix [b] (key_batches (BaselineKeyStream 10 5 2 4) 1) \<and> (\<forall>k \<in> set b. k < 10)"
proof -
  let ?cf = "BaselineKeyStream 10 5 2 4"
  have cf: "ks_domain ?cf = 10" "ks_total ?cf = 5" "batch_keys ?cf = 2" "depth ?cf = 4"
    by (simp_all add: BaselineKeyStream_def)
  define r where "r = draw_chunk 2 10 (new_Random64 1)"
  define s1 where "s1 = (new_stream 1)\<lparr>ks_gen := snd r, ks_emitted := 2, ks_at := Waiting (fst r)\<rparr>"
  define s2 where "s2 = s1\<lparr>ks_queue := [fst r], ks_at := AtLoop\<rparr>"
  define x0 where "x0 = stream_start 1"
  define x1 where "x1 = x0\<lparr>calling := {0}\<rparr>"
  define x2 where "x2 = x1\<lparr>ready_waiters := {0}\<rparr>"
  define x3 where "x3 = x2\<lparr>stream := s1, ready_waiters := {0}\<rparr>"
  define x4 where "x4 = x3\<lparr>stream := s2, ready_waiters := {}\<rparr>"
  define x5 where "x5 = x4\<lparr>stream := s2\<lparr>ks_queue := []\<rparr>, calling := {}, space_waiters := {}, delivered := [fst r]\<rparr>"
  note d = x0_def x1_def x2_def x3_def x4_def x5_def stream_start_def
  have "stream_call x0 x1" using stream_call.call_next [of 0 x0] by (simp add: d)
  moreover have "stream_work ?cf x1 x2"
    using stream_work.next_waits [of 0 x1 ?cf] by (simp add: d Wait_def Stream_Next_def new_stream_def)
  ultimately have r1: "(stream_step ?cf)\<^sup>*\<^sup>* x0 x2"
    by (meson stream_step_def converse_rtranclp_into_rtranclp r_into_rtranclp)
  have "Produce ?cf (new_stream 1) = Some (s1, Silent)"
    by (simp add: Produce_def cf new_stream_def s1_def r_def split_beta Let_def min_def)
  then have w3: "stream_work ?cf x2 x3" using stream_work.produce [of x2 ?cf s1 Silent "{0}"] by (simp add: d)
  have "Produce ?cf s1 = Some (s2, NotifyOne)" by (simp add: Produce_def cf s1_def s2_def new_stream_def)
  then have w4: "stream_work ?cf x3 x4" using stream_work.produce [of x3 ?cf s2 NotifyOne "{}"] by (simp add: d)
  have "Stream_Next s2 = Some (Some (fst r), s2\<lparr>ks_queue := []\<rparr>, NotifyOne)" by (simp add: Stream_Next_def s2_def)
  then have w5: "stream_work ?cf x4 x5"
    using stream_work.batch [of 0 x4 "fst r" "s2\<lparr>ks_queue := []\<rparr>" NotifyOne "{}" ?cf] by (simp add: d)
  from w3 w4 w5 have r2: "(stream_work ?cf)\<^sup>*\<^sup>* x2 x5" by (meson converse_rtranclp_into_rtranclp r_into_rtranclp)
  then have "(stream_step ?cf)\<^sup>*\<^sup>* x2 x5" by (rule rtranclp_mono [THEN predicate2D, rotated]) (auto simp: stream_step_def)
  with r1 have run: "(stream_step ?cf)\<^sup>*\<^sup>* (stream_start 1) x5" unfolding x0_def by (rule rtranclp_trans)
  have "length (fst r) = 2" using draw_chunk_keys [of 2 10 "new_Random64 1"] length_draw_keys by (simp add: r_def)
  moreover have x: "ready_waiters x2 = {0}" "delivered x5 = [fst r]" by (simp_all add: d)
  moreover have "prefix [fst r] (key_batches ?cf 1)" "\<forall>b \<in> set (key_batches ?cf 1). \<forall>k \<in> set b. k < 10"
    using stream_delivers [OF refl _ run] x(2) by simp_all
  moreover from this have "\<forall>k \<in> set (fst r). k < 10" by (auto simp: prefix_def)
  ultimately show ?thesis using r1 r2 unfolding x0_def by blast
qed

end
