(* ===== verification/File_Codec.thy ===== *)
theory File_Codec
  imports Version_Edit
begin

text \<open>
  The manifest form of a table file in \<open>db/version_edit.cc\<close>: the fixed part of a
  \<open>kNewFile4\<close> entry and its list of tagged custom fields, with the decoder that skips
  fields it does not know. A decoder error is the message that the code returns; the
  half-filled result is dropped with it, as its callers do. The main result is that a
  decoded file is the encoded one.
\<close>

named_theorems tag_defs
named_theorems put_append

section \<open>Tags\<close>

definition kNewFile4 :: u32 where [tag_defs]: "kNewFile4 = 103"
definition kTerminate :: u32 where [tag_defs]: "kTerminate = 1"
definition kNeedCompaction :: u32 where [tag_defs]: "kNeedCompaction = 2"
definition kMinLogNumberToKeepHack :: u32 where [tag_defs]: "kMinLogNumberToKeepHack = 3"
definition kOldestBlobFileNumber :: u32 where [tag_defs]: "kOldestBlobFileNumber = 4"
definition kOldestAncesterTime :: u32 where [tag_defs]: "kOldestAncesterTime = 5"
definition kFileCreationTime :: u32 where [tag_defs]: "kFileCreationTime = 6"
definition kFileChecksum :: u32 where [tag_defs]: "kFileChecksum = 7"
definition kFileChecksumFuncName :: u32 where [tag_defs]: "kFileChecksumFuncName = 8"
definition kTemperature :: u32 where [tag_defs]: "kTemperature = 9"
definition kUniqueId :: u32 where [tag_defs]: "kUniqueId = 12"
definition kEpochNumber :: u32 where [tag_defs]: "kEpochNumber = 13"
definition kCompensatedRangeDeletionSize :: u32 where [tag_defs]: "kCompensatedRangeDeletionSize = 14"
definition kTailSize :: u32 where [tag_defs]: "kTailSize = 15"
definition kUserDefinedTimestampsPersisted :: u32 where [tag_defs]: "kUserDefinedTimestampsPersisted = 16"
definition kCustomTagNonSafeIgnoreMask :: u32 where [tag_defs]: "kCustomTagNonSafeIgnoreMask = 64"
definition kPathId :: u32 where [tag_defs]: "kPathId = 65"

definition kLastTemperature :: byte where
  "kLastTemperature = 0x11"

definition kUnknownFileChecksumFuncName :: string where
  "kUnknownFileChecksumFuncName = ''Unknown''"

section \<open>Fields\<close>

text \<open>A \<open>std::string\<close> and the bytes it holds.\<close>

definition bytes_of_string :: "string \<Rightarrow> Slice" where
  "bytes_of_string = map of_char"

definition ToString :: "Slice \<Rightarrow> string" where
  "ToString = map (\<lambda>b. char_of (unat b))"

definition EncodeUniqueIdBytes :: "u64 \<times> u64 \<Rightarrow> Slice" where
  "EncodeUniqueIdBytes u = EncodeFixed64 (fst u) @ EncodeFixed64 (snd u)"

definition DecodeUniqueIdBytes :: "Slice \<Rightarrow> (u64 \<times> u64) option" where
  "DecodeUniqueIdBytes b =
     (if length b \<noteq> 16 then None
      else case (DecodeFixed64 b, DecodeFixed64 (drop 8 b)) of (Some x, Some y) \<Rightarrow> Some (x, y) | _ \<Rightarrow> None)"

definition EncodeFileBoundaries :: "Slice \<Rightarrow> FileMetaData \<Rightarrow> nat \<Rightarrow> Slice" where
  "EncodeFileBoundaries dst meta ts_sz =
     (if ts_sz = 0 \<or> user_defined_timestamps_persisted meta
      then PutLengthPrefixedSlice (PutLengthPrefixedSlice dst (smallest meta)) (largest meta)
      else PutLengthPrefixedSlice
             (PutLengthPrefixedSlice dst (StripTimestampFromInternalKey [] (smallest meta) ts_sz))
             (StripTimestampFromInternalKey [] (largest meta) ts_sz))"

definition put_field :: "u32 \<Rightarrow> Slice \<Rightarrow> Slice \<Rightarrow> Slice" where
  "put_field tag v dst = PutLengthPrefixedSlice (PutVarint32 dst tag) v"

section \<open>The encoder\<close>

text \<open>The result is the output and \<open>min_log_num_written\<close>.\<close>

definition EncodeToNewFile4 ::
    "FileMetaData \<Rightarrow> int \<Rightarrow> nat \<Rightarrow> u64 option \<Rightarrow> bool \<Rightarrow> Slice \<Rightarrow> Slice \<times> bool" where
  "EncodeToNewFile4 f level ts_sz min_log_number_to_keep min_log_num_written dst =
     (let dst = PutVarint32 dst kNewFile4;
          dst = PutVarint32Varint64 dst (of_int level) (GetNumber (fd f));
          dst = PutVarint64 dst (fd_file_size (fd f));
          dst = EncodeFileBoundaries dst f ts_sz;
          dst = PutVarint64Varint64 dst (smallest_seqno (fd f)) (largest_seqno (fd f));
          dst = put_field kOldestAncesterTime (PutVarint64 [] (oldest_ancester_time f)) dst;
          dst = put_field kFileCreationTime (PutVarint64 [] (file_creation_time f)) dst;
          dst = put_field kEpochNumber (PutVarint64 [] (epoch_number f)) dst;
          dst = (if file_checksum_func_name f \<noteq> kUnknownFileChecksumFuncName
                 then put_field kFileChecksumFuncName (bytes_of_string (file_checksum_func_name f))
                        (put_field kFileChecksum (bytes_of_string (file_checksum f)) dst)
                 else dst);
          dst = (if GetPathId (fd f) \<noteq> 0 then put_field kPathId [ucast (GetPathId (fd f))] dst else dst);
          dst = (if temperature f \<noteq> 0 then put_field kTemperature [temperature f] dst else dst);
          dst = (if marked_for_compaction f then put_field kNeedCompaction [1] dst else dst);
          (dst, written) =
            (case min_log_number_to_keep of
               Some n \<Rightarrow> if \<not> min_log_num_written then (put_field kMinLogNumberToKeepHack (PutFixed64 [] n) dst, True)
                         else (dst, min_log_num_written)
             | None \<Rightarrow> (dst, min_log_num_written));
          dst = (if oldest_blob_file_number f \<noteq> 0
                 then put_field kOldestBlobFileNumber (PutVarint64 [] (oldest_blob_file_number f)) dst else dst);
          dst = (if unique_id f \<noteq> (0, 0) then put_field kUniqueId (EncodeUniqueIdBytes (unique_id f)) dst else dst);
          dst = (if compensated_range_deletion_size f \<noteq> 0
                 then put_field kCompensatedRangeDeletionSize (PutVarint64 [] (compensated_range_deletion_size f)) dst else dst);
          dst = (if tail_size f \<noteq> 0 then put_field kTailSize (PutVarint64 [] (tail_size f)) dst else dst);
          dst = (if \<not> user_defined_timestamps_persisted f then put_field kUserDefinedTimestampsPersisted [0] dst else dst)
      in (PutVarint32 dst kTerminate, written))"

section \<open>The decoder\<close>

definition InternalKey_Valid :: "Slice \<Rightarrow> bool" where
  "InternalKey_Valid k \<longleftrightarrow> (case ParseInternalKey k of Inl _ \<Rightarrow> False | Inr _ \<Rightarrow> True)"

definition GetInternalKey :: "Slice \<Rightarrow> (Slice \<times> Slice) option" where
  "GetInternalKey input =
     (case GetLengthPrefixedSlice input of
        Some (str, input') \<Rightarrow> if InternalKey_Valid str then Some (str, input') else None
      | None \<Rightarrow> None)"

text \<open>\<open>*level = v\<close> converts to a signed integer.\<close>

definition GetLevel :: "Slice \<Rightarrow> int \<Rightarrow> (int \<times> int \<times> Slice) option" where
  "GetLevel input max_level =
     (case GetVarint32 input of
        Some (v, input') \<Rightarrow> let level = sint v in Some (level, max max_level level, input')
      | None \<Rightarrow> None)"

text \<open>The default file, and what the custom fields change: the file, the path and the log number.\<close>

definition default_file :: FileMetaData where
  "default_file =
     \<lparr>fd = make_fd 0 0 0 kMaxSequenceNumber 0, smallest = [], largest = [], marked_for_compaction = False,
      temperature = 0, oldest_blob_file_number = 0, oldest_ancester_time = 0, file_creation_time = 0,
      epoch_number = 0, file_checksum = [], file_checksum_func_name = kUnknownFileChecksumFuncName,
      unique_id = (0, 0), compensated_range_deletion_size = 0, tail_size = 0,
      user_defined_timestamps_persisted = True\<rparr>"

record field_state =
  fs_file :: FileMetaData
  fs_path :: u32
  fs_min_log :: "u64 option"

definition upd_file :: "(FileMetaData \<Rightarrow> FileMetaData) \<Rightarrow> field_state \<Rightarrow> field_state" where
  "upd_file g st = st\<lparr>fs_file := g (fs_file st)\<rparr>"

definition varint_field :: "string \<Rightarrow> (u64 \<Rightarrow> FileMetaData \<Rightarrow> FileMetaData) \<Rightarrow> Slice \<Rightarrow> field_state \<Rightarrow> string + field_state" where
  "varint_field msg g field st = (case GetVarint64 field of None \<Rightarrow> Inl msg | Some (v, _) \<Rightarrow> Inr (upd_file (g v) st))"

definition byte_field :: "string \<Rightarrow> (byte \<Rightarrow> FileMetaData \<Rightarrow> FileMetaData) \<Rightarrow> Slice \<Rightarrow> field_state \<Rightarrow> string + field_state" where
  "byte_field msg g field st = (if length field \<noteq> 1 then Inl msg else Inr (upd_file (g (hd field)) st))"

definition apply_field :: "u32 \<Rightarrow> Slice \<Rightarrow> field_state \<Rightarrow> string + field_state" where
  "apply_field tag field st =
     (if tag = kPathId then
        if length field \<noteq> 1 then Inl ''path_id field wrong size''
        else let path_id = scast (hd field) in
             if path_id > 3 then Inl ''path_id wrong vaue'' else Inr (st\<lparr>fs_path := path_id\<rparr>)
      else if tag = kOldestAncesterTime then
        varint_field ''invalid oldest ancester time'' (\<lambda>v f. f\<lparr>oldest_ancester_time := v\<rparr>) field st
      else if tag = kFileCreationTime then
        varint_field ''invalid file creation time'' (\<lambda>v f. f\<lparr>file_creation_time := v\<rparr>) field st
      else if tag = kEpochNumber then
        varint_field ''invalid epoch number'' (\<lambda>v f. f\<lparr>epoch_number := v\<rparr>) field st
      else if tag = kFileChecksum then
        Inr (upd_file (\<lambda>f. f\<lparr>file_checksum := ToString field\<rparr>) st)
      else if tag = kFileChecksumFuncName then
        Inr (upd_file (\<lambda>f. f\<lparr>file_checksum_func_name := ToString field\<rparr>) st)
      else if tag = kNeedCompaction then
        byte_field ''need_compaction field wrong size'' (\<lambda>b f. f\<lparr>marked_for_compaction := (b = 1)\<rparr>) field st
      else if tag = kMinLogNumberToKeepHack then
        (case GetFixed64 field of None \<Rightarrow> Inl ''deleted log number malformatted''
         | Some (v, _) \<Rightarrow> Inr (st\<lparr>fs_min_log := Some v\<rparr>))
      else if tag = kOldestBlobFileNumber then
        varint_field ''invalid oldest blob file number'' (\<lambda>v f. f\<lparr>oldest_blob_file_number := v\<rparr>) field st
      else if tag = kTemperature then
        byte_field ''temperature field wrong size''
          (\<lambda>b f. if b < kLastTemperature then f\<lparr>temperature := b\<rparr> else f) field st
      else if tag = kUniqueId then
        (case DecodeUniqueIdBytes field of None \<Rightarrow> Inl ''invalid unique id''
         | Some u \<Rightarrow> Inr (upd_file (\<lambda>f. f\<lparr>unique_id := u\<rparr>) st))
      else if tag = kCompensatedRangeDeletionSize then
        varint_field ''Invalid compensated range deletion size'' (\<lambda>v f. f\<lparr>compensated_range_deletion_size := v\<rparr>) field st
      else if tag = kTailSize then
        varint_field ''invalid tail start offset'' (\<lambda>v f. f\<lparr>tail_size := v\<rparr>) field st
      else if tag = kUserDefinedTimestampsPersisted then
        byte_field ''user-defined timestamps persisted field wrong size''
          (\<lambda>b f. f\<lparr>user_defined_timestamps_persisted := (b = 1)\<rparr>) field st
      else if tag AND kCustomTagNonSafeIgnoreMask \<noteq> 0 then Inl ''new-file4 custom field not supported''
      else Inr st)"

text \<open>Every decoder of the coding library consumes input.\<close>

lemma GetVarint32PtrFallback_loop_shorter:
  "GetVarint32PtrFallback_loop s r p = Some (v, q) \<Longrightarrow> length q < length p"
  by (induction s r p rule: GetVarint32PtrFallback_loop.induct) (auto split: if_splits)

lemma GetVarint32_shorter: "GetVarint32 p = Some (v, q) \<Longrightarrow> length q < length p"
  using GetVarint32PtrFallback_loop_shorter
  by (fastforce simp: GetVarint32_def GetVarint32Ptr_def GetVarint32PtrFallback_def split: list.splits if_splits)

lemma GetLengthPrefixedSlice_shorter: "GetLengthPrefixedSlice p = Some (v, q) \<Longrightarrow> length q < length p"
  using GetVarint32_shorter by (fastforce simp: GetLengthPrefixedSlice_def split: option.splits if_splits)

function decode_fields :: "Slice \<Rightarrow> field_state \<Rightarrow> string + field_state \<times> Slice" where
  "decode_fields input st =
     (case GetVarint32 input of
        None \<Rightarrow> Inl ''new-file4 custom field''
      | Some (custom_tag, input) \<Rightarrow>
          if custom_tag = kTerminate then Inr (st, input)
          else case GetLengthPrefixedSlice input of
            None \<Rightarrow> Inl ''new-file4 custom field length prefixed slice error''
          | Some (field, input) \<Rightarrow>
              (case apply_field custom_tag field st of Inl msg \<Rightarrow> Inl msg | Inr st \<Rightarrow> decode_fields input st))"
  by pat_completeness auto
termination
  by (relation "measure (\<lambda>(input, _). length input)")
    (auto dest!: GetVarint32_shorter GetLengthPrefixedSlice_shorter)

declare decode_fields.simps [simp del]

text \<open>\<open>DecodeNewFile4From\<close>: the level, the file, the log number and what follows.\<close>

record new_file_entry =
  nf_level :: int
  nf_max_level :: int
  nf_min_log :: "u64 option"
  nf_file :: FileMetaData

definition DecodeNewFile4From :: "Slice \<Rightarrow> int \<Rightarrow> u64 option \<Rightarrow> string + new_file_entry \<times> Slice" where
  "DecodeNewFile4From input max_level min_log =
     (case GetLevel input max_level of None \<Rightarrow> Inl ''new-file4 entry''
      | Some (level, max_level, input) \<Rightarrow>
     (case GetVarint64 input of None \<Rightarrow> Inl ''new-file4 entry''
      | Some (number, input) \<Rightarrow>
     (case GetVarint64 input of None \<Rightarrow> Inl ''new-file4 entry''
      | Some (file_size, input) \<Rightarrow>
     (case GetInternalKey input of None \<Rightarrow> Inl ''new-file4 entry''
      | Some (lo, input) \<Rightarrow>
     (case GetInternalKey input of None \<Rightarrow> Inl ''new-file4 entry''
      | Some (hi, input) \<Rightarrow>
     (case GetVarint64 input of None \<Rightarrow> Inl ''new-file4 entry''
      | Some (smallest_seq, input) \<Rightarrow>
     (case GetVarint64 input of None \<Rightarrow> Inl ''new-file4 entry''
      | Some (largest_seq, input) \<Rightarrow>
     (case decode_fields input
             \<lparr>fs_file = default_file\<lparr>smallest := lo, largest := hi\<rparr>, fs_path = 0, fs_min_log = min_log\<rparr> of
        Inl msg \<Rightarrow> Inl msg
      | Inr (st, input) \<Rightarrow>
          Inr (\<lparr>nf_level = level, nf_max_level = max_level, nf_min_log = fs_min_log st,
                nf_file = (fs_file st)\<lparr>fd := make_fd number (fs_path st) file_size smallest_seq largest_seq\<rparr>\<rparr>,
               input)))))))))"

section \<open>Round trip of the fields\<close>

definition lp :: "Slice \<Rightarrow> Slice" where
  "lp v = EncodeVarint32 (word_of_nat (length v)) @ v"

lemma GetLengthPrefixedSlice_lp [simp]: "length v < 2 ^ 32 \<Longrightarrow> GetLengthPrefixedSlice (lp v @ rest) = Some (v, rest)"
  by (simp add: lp_def GetLengthPrefixedSlice_append)

lemma put_appends [put_append]:
  "PutVarint32 dst v = dst @ EncodeVarint32 v"
  "PutVarint64 dst w = dst @ EncodeVarint64 w"
  "PutVarint32Varint64 dst v w = dst @ EncodeVarint32 v @ EncodeVarint64 w"
  "PutVarint32Varint32 dst v v' = dst @ EncodeVarint32 v @ EncodeVarint32 v'"
  "PutVarint32Varint32Varint64 dst v v' w = dst @ EncodeVarint32 v @ EncodeVarint32 v' @ EncodeVarint64 w"
  "PutVarint64Varint64 dst w w' = dst @ EncodeVarint64 w @ EncodeVarint64 w'"
  "PutFixed64 dst w = dst @ EncodeFixed64 w"
  "PutLengthPrefixedSlice dst b = dst @ lp b"
  by (simp_all add: PutVarint32_def PutVarint64_def PutVarint32Varint64_def PutVarint32Varint32_def
      PutVarint32Varint32Varint64_def PutVarint64Varint64_def PutFixed64_def PutLengthPrefixedSlice_def lp_def)

definition enc_field :: "u32 \<times> Slice \<Rightarrow> Slice" where
  "enc_field tv = EncodeVarint32 (fst tv) @ lp (snd tv)"

lemma put_field_append [put_append]: "put_field tag v dst = dst @ enc_field (tag, v)"
  by (simp add: put_field_def put_append enc_field_def)

fun apply_fields :: "(u32 \<times> Slice) list \<Rightarrow> field_state \<Rightarrow> string + field_state" where
  "apply_fields [] st = Inr st"
| "apply_fields ((t, v) # fs) st = (case apply_field t v st of Inl msg \<Rightarrow> Inl msg | Inr st \<Rightarrow> apply_fields fs st)"

lemma apply_fields_append: "apply_fields xs st = Inr st' \<Longrightarrow> apply_fields (xs @ ys) st = apply_fields ys st'"
  by (induction xs st rule: apply_fields.induct) (auto split: sum.splits)

lemma decode_fields_concat:
  assumes "\<forall>(t, v) \<in> set fs. t \<noteq> kTerminate \<and> length v < 2 ^ 32" "apply_fields fs st = Inr st'"
  shows "decode_fields (concat (map enc_field fs) @ EncodeVarint32 kTerminate @ rest) st = Inr (st', rest)"
  using assms
proof (induction fs st rule: apply_fields.induct)
  case (1 st)
  then show ?case by (simp add: decode_fields.simps)
next
  case (2 t v fs st)
  then obtain st1 where st1: "apply_field t v st = Inr st1" by (auto split: sum.splits)
  have "enc_field (t, v) @ r = EncodeVarint32 t @ lp v @ r" for r by (simp add: enc_field_def)
  with 2 st1 show ?case by (subst decode_fields.simps) simp
qed

lemma char_bytes [simp]: "ToString (bytes_of_string s) = s"
proof -
  have "char_of (unat (of_char c :: byte)) = c" for c :: char
  proof -
    have "unat (of_char c :: byte) = take_bit 8 (of_char c)"
      unfolding of_nat_of_char [symmetric, where 'a = byte] by (simp only: unsigned_of_nat) simp
    also have "\<dots> = of_char c" by (simp add: take_bit_eq_mod)
    finally have "unat (of_char c :: byte) = of_char c" .
    then show ?thesis by simp
  qed
  then show ?thesis by (simp add: ToString_def bytes_of_string_def comp_def)
qed

lemma UniqueId_roundtrip [simp]: "DecodeUniqueIdBytes (EncodeUniqueIdBytes u) = Some u"
  using DecodeFixed64_Encode [of "snd u" "[]"] by (simp add: DecodeUniqueIdBytes_def EncodeUniqueIdBytes_def)

text \<open>The fields of a file.\<close>

definition file_fields :: "FileMetaData \<Rightarrow> u64 option \<Rightarrow> (u32 \<times> Slice) list" where
  "file_fields f ml =
     [(kOldestAncesterTime, EncodeVarint64 (oldest_ancester_time f)),
      (kFileCreationTime, EncodeVarint64 (file_creation_time f)), (kEpochNumber, EncodeVarint64 (epoch_number f))] @
     (if file_checksum_func_name f \<noteq> kUnknownFileChecksumFuncName
      then [(kFileChecksum, bytes_of_string (file_checksum f)),
            (kFileChecksumFuncName, bytes_of_string (file_checksum_func_name f))] else []) @
     (if GetPathId (fd f) \<noteq> 0 then [(kPathId, [ucast (GetPathId (fd f))])] else []) @
     (if temperature f \<noteq> 0 then [(kTemperature, [temperature f])] else []) @
     (if marked_for_compaction f then [(kNeedCompaction, [1])] else []) @
     (case ml of Some n \<Rightarrow> [(kMinLogNumberToKeepHack, EncodeFixed64 n)] | None \<Rightarrow> []) @
     (if oldest_blob_file_number f \<noteq> 0 then [(kOldestBlobFileNumber, EncodeVarint64 (oldest_blob_file_number f))] else []) @
     (if unique_id f \<noteq> (0, 0) then [(kUniqueId, EncodeUniqueIdBytes (unique_id f))] else []) @
     (if compensated_range_deletion_size f \<noteq> 0
      then [(kCompensatedRangeDeletionSize, EncodeVarint64 (compensated_range_deletion_size f))] else []) @
     (if tail_size f \<noteq> 0 then [(kTailSize, EncodeVarint64 (tail_size f))] else []) @
     (if \<not> user_defined_timestamps_persisted f then [(kUserDefinedTimestampsPersisted, [0])] else [])"

definition min_log_arg :: "u64 option \<Rightarrow> bool \<Rightarrow> u64 option" where
  "min_log_arg ml written = (if written then None else ml)"

lemma EncodeToNewFile4_eq:
  assumes "ts_sz = 0 \<or> user_defined_timestamps_persisted f"
  shows "EncodeToNewFile4 f level ts_sz ml w dst =
    (dst @ EncodeVarint32 kNewFile4 @ EncodeVarint32 (of_int level) @ EncodeVarint64 (GetNumber (fd f)) @
     EncodeVarint64 (fd_file_size (fd f)) @ lp (smallest f) @ lp (largest f) @
     EncodeVarint64 (smallest_seqno (fd f)) @ EncodeVarint64 (largest_seqno (fd f)) @
     concat (map enc_field (file_fields f (min_log_arg ml w))) @ EncodeVarint32 kTerminate, w \<or> ml \<noteq> None)"
proof -
  have c: "(if b then dst @ enc_field x else dst) = dst @ concat (map enc_field (if b then [x] else []))" for b dst x
    by simp
  have c2: "(if b then (dst @ enc_field x) @ enc_field y else dst) = dst @ concat (map enc_field (if b then [x, y] else []))" for b dst x y
    by simp
  have m: "(case ml of Some n \<Rightarrow> if \<not> w then (put_field kMinLogNumberToKeepHack (PutFixed64 [] n) dst, True) else (dst, w)
       | None \<Rightarrow> (dst, w)) =
      (dst @ concat (map enc_field (case min_log_arg ml w of Some n \<Rightarrow> [(kMinLogNumberToKeepHack, EncodeFixed64 n)] | None \<Rightarrow> [])),
       w \<or> ml \<noteq> None)" for dst
    by (auto simp: min_log_arg_def put_append split: option.splits)
  have b: "EncodeFileBoundaries dst f ts_sz = dst @ lp (smallest f) @ lp (largest f)" for dst
    using assms by (auto simp: EncodeFileBoundaries_def put_append)
  show ?thesis
    unfolding EncodeToNewFile4_def Let_def m prod.case b
    unfolding put_append append_Nil
    unfolding c c2 file_fields_def map_append concat_append
    by (simp split del: if_split)
qed

text \<open>A field that is present sets its part of the state, one that is absent leaves it.\<close>

lemma apply_opt:
  assumes "b \<Longrightarrow> apply_fields fs st = Inr (g st)" "\<not> b \<Longrightarrow> g st = st"
  shows "apply_fields ((if b then fs else []) @ rest) st = apply_fields rest (g st)"
    and "apply_fields (if b then fs else []) st = Inr (g st)"
  using assms by (auto intro: apply_fields_append)

lemma GetVarint64_Encode_all [simp]: "GetVarint64 (EncodeVarint64 v) = Some (v, [])"
  using GetVarint64_Encode [of v "[]"] by simp

lemma GetFixed64_Encode_all [simp]: "GetFixed64 (EncodeFixed64 v) = Some (v, [])"
  using GetFixed_Encode(3) [of v "[]"] by simp

lemma unat_GetPathId: "unat (GetPathId d) = unat (packed_number_and_path_id d) div 2 ^ 62" "unat (GetPathId d) < 4"
proof -
  have "unat (packed_number_and_path_id d) div 2 ^ 62 < 4" using unat_u64_less [of "packed_number_and_path_id d"] by simp
  then show "unat (GetPathId d) = unat (packed_number_and_path_id d) div 2 ^ 62" "unat (GetPathId d) < 4"
    by (simp_all add: GetPathId_def unat_div kFileNumberMask_def unsigned_ucast_eq take_bit_nat_eq_self)
qed

lemma path_byte: "scast (ucast (GetPathId d) :: byte) = GetPathId d" "\<not> 3 < GetPathId d"
proof -
  show "\<not> 3 < GetPathId d" using unat_GetPathId(2) [of d] by (simp add: word_less_nat_alt)
  have "unat (GetPathId d) \<in> {0, 1, 2, 3}" using unat_GetPathId(2) [of d] by auto
  then have "GetPathId d \<in> {0, 1, 2, 3}" by (auto simp: word_unat_eq_iff)
  then show "scast (ucast (GetPathId d) :: byte) = GetPathId d" by auto
qed

lemma make_fd_same:
  "make_fd (GetNumber d) (GetPathId d) (fd_file_size d) (smallest_seqno d) (largest_seqno d) = d"
proof -
  let ?p = "packed_number_and_path_id d"
  have "unat (ucast (GetPathId d) :: u64) = unat (GetPathId d)"
    using unat_GetPathId(2) [of d] by (simp add: unsigned_ucast_eq take_bit_nat_eq_self)
  then have "(ucast (GetPathId d) :: u64) = drop_bit 62 ?p"
    by (simp add: word_unat_eq_iff [where 'a = 64] unat_GetPathId(1) unat_drop_bit)
  then have "PackFileNumberAndPathId (GetNumber d) (ucast (GetPathId d)) = take_bit 62 ?p OR push_bit 62 (drop_bit 62 ?p)"
    by (simp add: PackFileNumberAndPathId_def GetNumber_def kFileNumberMask_mask take_bit_eq_mask push_bit_eq_mult mask_eq_exp_minus_1)
  also have "\<dots> = ?p"
  proof (rule bit_word_eqI)
    fix n assume "n < LENGTH(64)"
    then show "bit (take_bit 62 ?p OR push_bit 62 (drop_bit 62 ?p)) n = bit ?p n"
      by (cases "n < 62") (simp_all add: bit_simps)
  qed
  finally show ?thesis by (simp add: make_fd_def)
qed

text \<open>
  Which files the format can hold: valid keys, sizes below 4 GiB, a known temperature,
  and no checksum without the name of its function.
\<close>

definition file_ok :: "FileMetaData \<Rightarrow> bool" where
  "file_ok f \<longleftrightarrow> InternalKey_Valid (smallest f) \<and> InternalKey_Valid (largest f) \<and> length (smallest f) < 2 ^ 32 \<and> length (largest f) < 2 ^ 32 \<and>
     temperature f < kLastTemperature \<and> length (file_checksum f) < 2 ^ 32 \<and> length (file_checksum_func_name f) < 2 ^ 32 \<and>
     (file_checksum_func_name f = kUnknownFileChecksumFuncName \<longrightarrow> file_checksum f = [])"

lemmas field_defs = apply_field_def tag_defs varint_field_def byte_field_def upd_file_def

text \<open>The state after each part of the list of fields.\<close>

lemma apply_segments:
  shows "apply_fields ([(kOldestAncesterTime, EncodeVarint64 t1), (kFileCreationTime, EncodeVarint64 t2),
      (kEpochNumber, EncodeVarint64 t3)] @ rest) st =
    apply_fields rest (upd_file (\<lambda>F. F\<lparr>oldest_ancester_time := t1, file_creation_time := t2, epoch_number := t3\<rparr>) st)"
    and "apply_fields ((if nm \<noteq> kUnknownFileChecksumFuncName
      then [(kFileChecksum, bytes_of_string cs), (kFileChecksumFuncName, bytes_of_string nm)] else []) @ rest) st =
    apply_fields rest (upd_file (\<lambda>F. F\<lparr>file_checksum := if nm \<noteq> kUnknownFileChecksumFuncName then cs else file_checksum F,
      file_checksum_func_name := if nm \<noteq> kUnknownFileChecksumFuncName then nm else file_checksum_func_name F\<rparr>) st)"
    and "apply_fields ((if GetPathId d \<noteq> 0 then [(kPathId, [ucast (GetPathId d)])] else []) @ rest) st =
    apply_fields rest (st\<lparr>fs_path := if GetPathId d \<noteq> 0 then GetPathId d else fs_path st\<rparr>)"
    and "tp < kLastTemperature \<Longrightarrow> apply_fields ((if tp \<noteq> 0 then [(kTemperature, [tp])] else []) @ rest) st =
    apply_fields rest (upd_file (\<lambda>F. F\<lparr>temperature := if tp \<noteq> 0 then tp else temperature F\<rparr>) st)"
    and "apply_fields ((if mk then [(kNeedCompaction, [1])] else []) @ rest) st =
    apply_fields rest (upd_file (\<lambda>F. F\<lparr>marked_for_compaction := if mk then True else marked_for_compaction F\<rparr>) st)"
    and "apply_fields ((case ml of Some n \<Rightarrow> [(kMinLogNumberToKeepHack, EncodeFixed64 n)] | None \<Rightarrow> []) @ rest) st =
    apply_fields rest (st\<lparr>fs_min_log := (case ml of None \<Rightarrow> fs_min_log st | Some n \<Rightarrow> Some n)\<rparr>)"
    and "apply_fields ((if ob \<noteq> 0 then [(kOldestBlobFileNumber, EncodeVarint64 ob)] else []) @ rest) st =
    apply_fields rest (upd_file (\<lambda>F. F\<lparr>oldest_blob_file_number := if ob \<noteq> 0 then ob else oldest_blob_file_number F\<rparr>) st)"
    and "apply_fields ((if u \<noteq> (0, 0) then [(kUniqueId, EncodeUniqueIdBytes u)] else []) @ rest) st =
    apply_fields rest (upd_file (\<lambda>F. F\<lparr>unique_id := if u \<noteq> (0, 0) then u else unique_id F\<rparr>) st)"
    and "apply_fields ((if cz \<noteq> 0 then [(kCompensatedRangeDeletionSize, EncodeVarint64 cz)] else []) @ rest) st =
    apply_fields rest (upd_file (\<lambda>F. F\<lparr>compensated_range_deletion_size := if cz \<noteq> 0 then cz
      else compensated_range_deletion_size F\<rparr>) st)"
    and "apply_fields ((if ts \<noteq> 0 then [(kTailSize, EncodeVarint64 ts)] else []) @ rest) st =
    apply_fields rest (upd_file (\<lambda>F. F\<lparr>tail_size := if ts \<noteq> 0 then ts else tail_size F\<rparr>) st)"
    and "apply_fields (if \<not> ud then [(kUserDefinedTimestampsPersisted, [0])] else []) st =
    Inr (upd_file (\<lambda>F. F\<lparr>user_defined_timestamps_persisted := if \<not> ud then False else user_defined_timestamps_persisted F\<rparr>) st)"
  by (simp_all add: field_defs path_byte split: option.split)

lemma apply_file_fields:
  assumes "file_ok f"
  shows "apply_fields (file_fields f ml)
      \<lparr>fs_file = default_file\<lparr>smallest := smallest f, largest := largest f\<rparr>, fs_path = 0, fs_min_log = ml0\<rparr> =
    Inr \<lparr>fs_file = f\<lparr>fd := fd default_file\<rparr>, fs_path = GetPathId (fd f), fs_min_log = (case ml of None \<Rightarrow> ml0 | Some n \<Rightarrow> Some n)\<rparr>"
proof -
  have t: "temperature f < kLastTemperature" using assms by (simp add: file_ok_def)
  show ?thesis
    unfolding file_fields_def apply_segments(1-3) apply_segments(4) [OF t] apply_segments(5-)
    using assms by (cases ml) (simp_all add: upd_file_def default_file_def file_ok_def)
qed

lemma file_fields_encodable:
  assumes "file_ok f"
  shows "\<forall>(t, v) \<in> set (file_fields f ml). t \<noteq> kTerminate \<and> length v < 2 ^ 32"
proof -
  have "length (EncodeVarint64 v) < 4294967296" for v using length_EncodeVarint64_le [of v] by simp
  moreover have "length (bytes_of_string v) = length v" for v by (simp add: bytes_of_string_def)
  ultimately show ?thesis
    using assms by (auto simp: file_fields_def file_ok_def tag_defs EncodeUniqueIdBytes_def split: option.splits if_splits)
qed

lemma sint_level: "- (2 ^ 31) \<le> level \<Longrightarrow> level < 2 ^ 31 \<Longrightarrow> sint (word_of_int level :: u32) = level"
  by (simp add: signed_of_int signed_take_bit_int_eq_self)

text \<open>The whole entry, read back after its tag.\<close>

lemma new_file_body:
  assumes "file_ok f" "ts_sz = 0 \<or> user_defined_timestamps_persisted f" "- (2 ^ 31) \<le> level" "level < 2 ^ 31"
  shows "\<exists>body. (\<forall>dst. EncodeToNewFile4 f level ts_sz ml w dst = (dst @ EncodeVarint32 kNewFile4 @ body, w \<or> ml \<noteq> None)) \<and>
    (\<forall>rest mx ml0. DecodeNewFile4From (body @ rest) mx ml0 =
      Inr (\<lparr>nf_level = level, nf_max_level = max mx level,
            nf_min_log = (case min_log_arg ml w of None \<Rightarrow> ml0 | Some n \<Rightarrow> Some n), nf_file = f\<rparr>, rest))"
proof -
  define body where "body = EncodeVarint32 (of_int level) @ EncodeVarint64 (GetNumber (fd f)) @
     EncodeVarint64 (fd_file_size (fd f)) @ lp (smallest f) @ lp (largest f) @
     EncodeVarint64 (smallest_seqno (fd f)) @ EncodeVarint64 (largest_seqno (fd f)) @
     concat (map enc_field (file_fields f (min_log_arg ml w))) @ EncodeVarint32 kTerminate"
  have key: "GetInternalKey (lp k @ r) = Some (k, r)" if "InternalKey_Valid k" "length k < 2 ^ 32" for k r
    using that by (simp add: GetInternalKey_def)
  have "DecodeNewFile4From (body @ rest) mx ml0 =
      Inr (\<lparr>nf_level = level, nf_max_level = max mx level,
            nf_min_log = (case min_log_arg ml w of None \<Rightarrow> ml0 | Some n \<Rightarrow> Some n), nf_file = f\<rparr>, rest)" for rest mx ml0
    using assms(1) decode_fields_concat [OF file_fields_encodable [OF assms(1)] apply_file_fields [OF assms(1)], of "min_log_arg ml w"]
    by (simp add: DecodeNewFile4From_def body_def GetLevel_def sint_level [OF assms(3,4)] key file_ok_def make_fd_same)
  then show ?thesis using EncodeToNewFile4_eq [OF assms(2), of level ml w] by (auto simp: body_def)
qed

end
