(* ===== verification/Edit_Parts.thy ===== *)
theory Edit_Parts
  imports File_Codec
begin

text \<open>
  The records that a manifest edit embeds: blob file additions and garbage
  (\<open>db/blob\<close>), write-ahead log additions and deletions (\<open>db/wal_edit.cc\<close>) and the
  progress of a subcompaction (\<open>db/version_edit.cc\<close>). Each has an encoder and a decoder
  over the remaining input; a failed decoder is the status it returns. They share one
  contract, the locale \<open>codec\<close>. The set of live write-ahead logs that the log records
  act on is here as well.
\<close>

section \<open>The contract of a codec\<close>

locale codec =
  fixes enc :: "'a \<Rightarrow> Slice"
    and dec :: "Slice \<Rightarrow> status + 'a \<times> Slice"
    and good :: "'a \<Rightarrow> bool"
  assumes dec_enc: "good x \<Longrightarrow> dec (enc x @ rest) = Inr (x, rest)"
begin

lemma dec_enc_all: "good x \<Longrightarrow> dec (enc x) = Inr (x, [])"
  using dec_enc [of x "[]"] by simp

lemma enc_unique:
  assumes "good x" "good y" "enc x @ r = enc y @ s"
  shows "x = y \<and> r = s"
proof -
  have "Inr (x, r) = dec (enc x @ r)" by (rule dec_enc [OF assms(1), symmetric])
  also have "\<dots> = Inr (y, s)" unfolding assms(3) by (rule dec_enc [OF assms(2)])
  finally show ?thesis by simp
qed

end

definition need :: "'a option \<Rightarrow> status \<Rightarrow> ('a \<Rightarrow> status + 'b) \<Rightarrow> status + 'b" where
  "need r e k = (case r of None \<Rightarrow> Inl e | Some x \<Rightarrow> k x)"

lemma need_simps [simp]: "need None e k = Inl e" "need (Some x) e k = k x"
  by (simp_all add: need_def)

lemma need_Inr: "need r e k = Inr y \<longleftrightarrow> (\<exists>x. r = Some x \<and> k x = Inr y)"
  by (cases r) simp_all

section \<open>Blob files\<close>

record BlobFileAddition =
  blob_file_number :: u64
  total_blob_count :: u64
  total_blob_bytes :: u64
  checksum_method :: string
  checksum_value :: string

record BlobFileGarbage =
  garbage_file_number :: u64
  garbage_blob_count :: u64
  garbage_blob_bytes :: u64

definition kEndMarker :: u32 where [tag_defs]: "kEndMarker = 0"
definition kForwardIncompatibleMask :: u32 where [tag_defs]: "kForwardIncompatibleMask = 64"

definition BlobFileAddition_EncodeTo :: "BlobFileAddition \<Rightarrow> Slice \<Rightarrow> Slice" where
  "BlobFileAddition_EncodeTo b out =
     (let out = PutVarint64 out (blob_file_number b);
          out = PutVarint64 out (total_blob_count b);
          out = PutVarint64 out (total_blob_bytes b);
          out = PutLengthPrefixedSlice out (bytes_of_string (checksum_method b));
          out = PutLengthPrefixedSlice out (bytes_of_string (checksum_value b))
      in PutVarint32 out kEndMarker)"

text \<open>The custom fields, which are all skipped.\<close>

function skip_custom :: "string \<Rightarrow> Slice \<Rightarrow> status + Slice" where
  "skip_custom class_name input =
     (case GetVarint32 input of
        None \<Rightarrow> Inl (Corruption (class_name @ '': Error decoding custom field tag''))
      | Some (tag, input) \<Rightarrow>
          if tag = kEndMarker then Inr input
          else if tag AND kForwardIncompatibleMask \<noteq> 0
          then Inl (Corruption (class_name @ '': Forward incompatible custom field encountered''))
          else case GetLengthPrefixedSlice input of
            None \<Rightarrow> Inl (Corruption (class_name @ '': Error decoding custom field value''))
          | Some (_, input) \<Rightarrow> skip_custom class_name input)"
  by pat_completeness auto
termination
  by (relation "measure (\<lambda>(_, input). length input)")
    (auto dest!: GetVarint32_shorter GetLengthPrefixedSlice_shorter)

declare skip_custom.simps [simp del]

definition BlobFileAddition_DecodeFrom :: "Slice \<Rightarrow> status + BlobFileAddition \<times> Slice" where
  "BlobFileAddition_DecodeFrom input =
     need (GetVarint64 input) (Corruption ''BlobFileAddition: Error decoding blob file number'') (\<lambda>(number, input).
     need (GetVarint64 input) (Corruption ''BlobFileAddition: Error decoding total blob count'') (\<lambda>(count, input).
     need (GetVarint64 input) (Corruption ''BlobFileAddition: Error decoding total blob bytes'') (\<lambda>(nbytes, input).
     need (GetLengthPrefixedSlice input) (Corruption ''BlobFileAddition: Error decoding checksum method'') (\<lambda>(meth, input).
     need (GetLengthPrefixedSlice input) (Corruption ''BlobFileAddition: Error decoding checksum value'') (\<lambda>(val, input).
     case skip_custom ''BlobFileAddition'' input of
       Inl e \<Rightarrow> Inl e
     | Inr input \<Rightarrow>
         Inr (\<lparr>blob_file_number = number, total_blob_count = count, total_blob_bytes = nbytes,
               checksum_method = ToString meth, checksum_value = ToString val\<rparr>, input))))))"

definition BlobFileGarbage_EncodeTo :: "BlobFileGarbage \<Rightarrow> Slice \<Rightarrow> Slice" where
  "BlobFileGarbage_EncodeTo b out =
     (let out = PutVarint64 out (garbage_file_number b);
          out = PutVarint64 out (garbage_blob_count b);
          out = PutVarint64 out (garbage_blob_bytes b)
      in PutVarint32 out kEndMarker)"

definition BlobFileGarbage_DecodeFrom :: "Slice \<Rightarrow> status + BlobFileGarbage \<times> Slice" where
  "BlobFileGarbage_DecodeFrom input =
     need (GetVarint64 input) (Corruption ''BlobFileGarbage: Error decoding blob file number'') (\<lambda>(number, input).
     need (GetVarint64 input) (Corruption ''BlobFileGarbage: Error decoding garbage blob count'') (\<lambda>(count, input).
     need (GetVarint64 input) (Corruption ''BlobFileGarbage: Error decoding garbage blob bytes'') (\<lambda>(nbytes, input).
     case skip_custom ''BlobFileGarbage'' input of
       Inl e \<Rightarrow> Inl e
     | Inr input \<Rightarrow>
         Inr (\<lparr>garbage_file_number = number, garbage_blob_count = count, garbage_blob_bytes = nbytes\<rparr>, input))))"

lemma skip_custom_end [simp]: "skip_custom cls (EncodeVarint32 kEndMarker @ rest) = Inr rest"
  by (subst skip_custom.simps) simp

definition blob_addition_ok :: "BlobFileAddition \<Rightarrow> bool" where
  "blob_addition_ok b \<longleftrightarrow> length (checksum_method b) < 2 ^ 32 \<and> length (checksum_value b) < 2 ^ 32"

lemma length_bytes_of_string [simp]: "length (bytes_of_string s) = length s"
  by (simp add: bytes_of_string_def)

interpretation blob_add: codec "\<lambda>b. BlobFileAddition_EncodeTo b []" BlobFileAddition_DecodeFrom blob_addition_ok
  by unfold_locales (simp add: BlobFileAddition_EncodeTo_def BlobFileAddition_DecodeFrom_def Let_def put_append blob_addition_ok_def)

interpretation blob_garbage: codec "\<lambda>b. BlobFileGarbage_EncodeTo b []" BlobFileGarbage_DecodeFrom "\<lambda>_. True"
  by unfold_locales (simp add: BlobFileGarbage_EncodeTo_def BlobFileGarbage_DecodeFrom_def Let_def put_append)

section \<open>Write-ahead logs\<close>

text \<open>An unknown size is the largest number, an empty deletion is number 0.\<close>

record WalAddition =
  wal_number :: u64
  synced_size_bytes :: u64

definition kUnknownWalSize :: u64 where
  "kUnknownWalSize = u64_max"

definition HasSyncedSize :: "u64 \<Rightarrow> bool" where
  "HasSyncedSize n \<longleftrightarrow> n \<noteq> kUnknownWalSize"

definition kWalTerminate :: u32 where [tag_defs]: "kWalTerminate = 1"
definition kSyncedSize :: u32 where [tag_defs]: "kSyncedSize = 2"

fun decimal :: "nat \<Rightarrow> string" where
  "decimal n = (if n < 10 then [] else decimal (n div 10)) @ [char_of (48 + n mod 10)]"

declare decimal.simps [simp del]

definition WalAddition_EncodeTo :: "WalAddition \<Rightarrow> Slice \<Rightarrow> Slice" where
  "WalAddition_EncodeTo w dst =
     (let dst = PutVarint64 dst (wal_number w);
          dst = (if HasSyncedSize (synced_size_bytes w)
                 then PutVarint64 (PutVarint32 dst kSyncedSize) (synced_size_bytes w) else dst)
      in PutVarint32 dst kWalTerminate)"

lemma GetVarint64Ptr_loop_shorter: "GetVarint64Ptr_loop s r p = Some (v, q) \<Longrightarrow> length q < length p"
  by (induction s r p rule: GetVarint64Ptr_loop.induct) (auto split: if_splits)

lemma GetVarint64_shorter: "GetVarint64 p = Some (v, q) \<Longrightarrow> length q < length p"
  using GetVarint64Ptr_loop_shorter by (simp add: GetVarint64_def GetVarint64Ptr_def)

function wal_tags :: "Slice \<Rightarrow> u64 \<Rightarrow> status + u64 \<times> Slice" where
  "wal_tags src sz =
     (case GetVarint32 src of
        None \<Rightarrow> Inl (Corruption ''WalAddition: Error decoding tag'')
      | Some (tag, src) \<Rightarrow>
          if tag = kSyncedSize then
            (case GetVarint64 src of
               None \<Rightarrow> Inl (Corruption ''WalAddition: Error decoding WAL file size'')
             | Some (sz, src) \<Rightarrow> wal_tags src sz)
          else if tag = kWalTerminate then Inr (sz, src)
          else Inl (Corruption (''WalAddition: Unknown tag '' @ decimal (unat tag))))"
  by pat_completeness auto
termination
  by (relation "measure (\<lambda>(src, _). length src)") (auto dest!: GetVarint32_shorter GetVarint64_shorter)

declare wal_tags.simps [simp del]

definition WalAddition_DecodeFrom :: "Slice \<Rightarrow> status + WalAddition \<times> Slice" where
  "WalAddition_DecodeFrom src =
     need (GetVarint64 src) (Corruption ''WalAddition: Error decoding WAL log number'') (\<lambda>(number, src).
     case wal_tags src kUnknownWalSize of
       Inl e \<Rightarrow> Inl e
     | Inr (sz, src) \<Rightarrow> Inr (\<lparr>wal_number = number, synced_size_bytes = sz\<rparr>, src))"

definition WalDeletion_EncodeTo :: "u64 \<Rightarrow> Slice \<Rightarrow> Slice" where
  "WalDeletion_EncodeTo number dst = PutVarint64 dst number"

definition WalDeletion_DecodeFrom :: "Slice \<Rightarrow> status + u64 \<times> Slice" where
  "WalDeletion_DecodeFrom src = need (GetVarint64 src) (Corruption ''WalDeletion: Error decoding WAL log number'') Inr"

lemma wal_tags_enc:
  "wal_tags (EncodeVarint32 kWalTerminate @ rest) sz = Inr (sz, rest)"
  "wal_tags (EncodeVarint32 kSyncedSize @ EncodeVarint64 n @ EncodeVarint32 kWalTerminate @ rest) sz = Inr (n, rest)"
  by (simp_all add: wal_tags.simps tag_defs)

interpretation wal_add: codec "\<lambda>w. WalAddition_EncodeTo w []" WalAddition_DecodeFrom "\<lambda>_. True"
  by unfold_locales
    (simp add: WalAddition_EncodeTo_def WalAddition_DecodeFrom_def Let_def put_append wal_tags_enc HasSyncedSize_def)

interpretation wal_del: codec "\<lambda>n. WalDeletion_EncodeTo n []" WalDeletion_DecodeFrom "\<lambda>_. True"
  by unfold_locales (simp add: WalDeletion_EncodeTo_def WalDeletion_DecodeFrom_def put_append)

section \<open>The set of live logs\<close>

record WalSet =
  wals :: "u64 \<rightharpoonup> u64"
  min_wal_number_to_keep :: u64

definition AddWal :: "WalAddition \<Rightarrow> WalSet \<Rightarrow> status \<times> WalSet" where
  "AddWal w s =
     (if wal_number w < min_wal_number_to_keep s then (OK, s)
      else case wals s (wal_number w) of
        None \<Rightarrow> (OK, s\<lparr>wals := (wals s)(wal_number w \<mapsto> synced_size_bytes w)\<rparr>)
      | Some old \<Rightarrow>
          if \<not> HasSyncedSize (synced_size_bytes w)
          then (Corruption (''WalSet::AddWal: WAL '' @ decimal (unat (wal_number w)) @ '' is created more than once''), s)
          else if HasSyncedSize old \<and> synced_size_bytes w \<le> old then (OK, s)
          else (OK, s\<lparr>wals := (wals s)(wal_number w \<mapsto> synced_size_bytes w)\<rparr>))"

fun AddWals :: "WalAddition list \<Rightarrow> WalSet \<Rightarrow> status \<times> WalSet" where
  "AddWals [] s = (OK, s)"
| "AddWals (w # ws) s = (case AddWal w s of (st, s') \<Rightarrow> if ok st then AddWals ws s' else (st, s'))"

definition DeleteWalsBefore :: "u64 \<Rightarrow> WalSet \<Rightarrow> status \<times> WalSet" where
  "DeleteWalsBefore n s =
     (OK, if n > min_wal_number_to_keep s
          then s\<lparr>min_wal_number_to_keep := n, wals := (\<lambda>k. if k < n then None else wals s k)\<rparr>
          else s)"

definition WalSet_Reset :: "WalSet \<Rightarrow> WalSet" where
  "WalSet_Reset s = s\<lparr>wals := Map.empty, min_wal_number_to_keep := 0\<rparr>"

text \<open>
  No log below the bound is in the set; the bound never falls, and the known size of a
  log that stays in the set never shrinks.
\<close>

definition wal_inv :: "WalSet \<Rightarrow> bool" where
  "wal_inv s \<longleftrightarrow> (\<forall>k. k < min_wal_number_to_keep s \<longrightarrow> wals s k = None)"

definition wal_le :: "WalSet \<Rightarrow> WalSet \<Rightarrow> bool" where
  "wal_le s t \<longleftrightarrow> min_wal_number_to_keep s \<le> min_wal_number_to_keep t \<and>
     (\<forall>k n. wals s k = Some n \<longrightarrow> HasSyncedSize n \<longrightarrow> min_wal_number_to_keep t \<le> k \<longrightarrow>
       (\<exists>n'. wals t k = Some n' \<and> HasSyncedSize n' \<and> n \<le> n'))"

lemma wal_le_refl [simp]: "wal_le s s"
  by (simp add: wal_le_def)

lemma wal_le_trans:
  assumes "wal_le s t" "wal_le t u"
  shows "wal_le s u"
  unfolding wal_le_def
proof (intro conjI allI impI)
  show "min_wal_number_to_keep s \<le> min_wal_number_to_keep u" using assms by (auto simp: wal_le_def)
  fix k n assume a: "wals s k = Some n" "HasSyncedSize n" "min_wal_number_to_keep u \<le> k"
  then have "min_wal_number_to_keep t \<le> k" using assms(2) by (auto simp: wal_le_def)
  then obtain n' where n': "wals t k = Some n'" "HasSyncedSize n'" "n \<le> n'" using assms(1) a by (auto simp: wal_le_def)
  then obtain n'' where "wals u k = Some n''" "HasSyncedSize n''" "n' \<le> n''" using assms(2) a by (auto simp: wal_le_def)
  then show "\<exists>n'. wals u k = Some n' \<and> HasSyncedSize n' \<and> n \<le> n'" using n'(3) by auto
qed

lemma AddWal_step:
  assumes "wal_inv s"
  shows "wal_inv (snd (AddWal w s))" "wal_le s (snd (AddWal w s))"
proof -
  show "wal_inv (snd (AddWal w s))" using assms by (auto simp: AddWal_def wal_inv_def split: option.splits)
  show "wal_le s (snd (AddWal w s))"
    by (auto simp: AddWal_def wal_le_def split: option.splits)
qed

lemma AddWals_step: "wal_inv s \<Longrightarrow> wal_inv (snd (AddWals ws s)) \<and> wal_le s (snd (AddWals ws s))"
proof (induction ws arbitrary: s)
  case (Cons w ws)
  obtain st s' where a: "AddWal w s = (st, s')" by fastforce
  have "wal_inv s'" "wal_le s s'" using AddWal_step [OF Cons.prems, of w] a by simp_all
  then show ?case using Cons.IH [of s'] a by (auto intro: wal_le_trans)
qed simp

lemma DeleteWalsBefore_step:
  "wal_inv s \<Longrightarrow> wal_inv (snd (DeleteWalsBefore n s)) \<and> wal_le s (snd (DeleteWalsBefore n s))"
  by (auto simp: DeleteWalsBefore_def wal_inv_def wal_le_def)

text \<open>Recovery applies the log records of one edit after the other.\<close>

inductive wal_steps :: "WalSet \<Rightarrow> WalSet \<Rightarrow> bool" for s where
  start: "wal_steps s s"
| add: "wal_steps s t \<Longrightarrow> wal_steps s (snd (AddWals ws t))"
| delete: "wal_steps s t \<Longrightarrow> wal_steps s (snd (DeleteWalsBefore n t))"

text \<open>C15: Live logs. Whatever log records are applied, in any order and also when one is refused, no log below
  the bound is in the set, the bound never falls, and the known size of a log that is not below the bound is
  kept or grows.\<close>

theorem wal_set_monotone:
  assumes "wal_steps s t" "wal_inv s"
  shows "wal_inv t \<and> wal_le s t"
  using assms
proof (induction rule: wal_steps.induct)
  case (add t ws)
  then show ?case using AddWals_step [of t ws] wal_le_trans by blast
next
  case (delete t n)
  then show ?case using DeleteWalsBefore_step [of t n] wal_le_trans by blast
qed simp

theorem wal_set_monotone_witness:
  "let s = \<lparr>wals = [4 \<mapsto> 10], min_wal_number_to_keep = 2\<rparr>;
       t = snd (DeleteWalsBefore 3 (snd (AddWals [\<lparr>wal_number = 4, synced_size_bytes = 50\<rparr>] s)))
   in wal_inv s \<and> wal_steps s t \<and> wal_inv t \<and> wal_le s t \<and> wals t 4 = Some 50"
proof -
  let ?s = "\<lparr>wals = [4 \<mapsto> 10], min_wal_number_to_keep = 2\<rparr>"
  let ?t = "snd (DeleteWalsBefore 3 (snd (AddWals [\<lparr>wal_number = 4, synced_size_bytes = 50\<rparr>] ?s)))"
  have i: "wal_inv ?s" by (auto simp: wal_inv_def)
  have st: "wal_steps ?s ?t" by (intro wal_steps.intros)
  have "wals ?t 4 = Some 50" by (simp add: DeleteWalsBefore_def AddWal_def HasSyncedSize_def kUnknownWalSize_def)
  with i st wal_set_monotone [OF st i] show ?thesis by (simp only: Let_def simp_thms)
qed

section \<open>The progress of a subcompaction\<close>

record SubcompactionProgressPerLevel =
  num_processed_output_records :: u64
  output_files :: "FileMetaData list"
  last_persisted_output_files_count :: nat

definition clear_level :: SubcompactionProgressPerLevel where
  "clear_level = \<lparr>num_processed_output_records = 0, output_files = [], last_persisted_output_files_count = 0\<rparr>"

record SubcompactionProgress =
  next_internal_key_to_compact :: Slice
  num_processed_input_records :: u64
  output_level_progress :: SubcompactionProgressPerLevel
  proximal_output_level_progress :: SubcompactionProgressPerLevel

definition clear_progress :: SubcompactionProgress where
  "clear_progress = \<lparr>next_internal_key_to_compact = [], num_processed_input_records = 0,
     output_level_progress = clear_level, proximal_output_level_progress = clear_level\<rparr>"

definition UpdateLastPersistedOutputFilesCount :: "SubcompactionProgressPerLevel \<Rightarrow> SubcompactionProgressPerLevel" where
  "UpdateLastPersistedOutputFilesCount p = p\<lparr>last_persisted_output_files_count := length (output_files p)\<rparr>"

definition kLevelTerminate :: u32 where [tag_defs]: "kLevelTerminate = 1"
definition kOutputFilesDelta :: u32 where [tag_defs]: "kOutputFilesDelta = 2"
definition kNumProcessedOutputRecords :: u32 where [tag_defs]: "kNumProcessedOutputRecords = 3"
definition kProgressTerminate :: u32 where [tag_defs]: "kProgressTerminate = 1"
definition kNextInternalKeyToCompact :: u32 where [tag_defs]: "kNextInternalKeyToCompact = 2"
definition kNumProcessedInputRecords :: u32 where [tag_defs]: "kNumProcessedInputRecords = 3"
definition kOutputLevelProgress :: u32 where [tag_defs]: "kOutputLevelProgress = 4"
definition kProximalOutputLevelProgress :: u32 where [tag_defs]: "kProximalOutputLevelProgress = 5"
definition kProgressSafeIgnoreMask :: u32 where [tag_defs]: "kProgressSafeIgnoreMask = 0x10000"

definition EncodeOutputFiles :: "SubcompactionProgressPerLevel \<Rightarrow> Slice \<Rightarrow> Slice" where
  "EncodeOutputFiles p dst =
     (let new_files_count = (if length (output_files p) > last_persisted_output_files_count p
                             then length (output_files p) - last_persisted_output_files_count p else 0);
          dst = PutVarint32 dst (of_nat new_files_count)
      in fold (\<lambda>f dst. PutLengthPrefixedSlice dst (fst (EncodeToNewFile4 f (- 1) 0 None False [])))
           (drop (last_persisted_output_files_count p) (output_files p)) dst)"

definition Level_EncodeTo :: "SubcompactionProgressPerLevel \<Rightarrow> Slice \<Rightarrow> Slice" where
  "Level_EncodeTo p dst =
     (let dst = (if num_processed_output_records p > 0
                 then put_field kNumProcessedOutputRecords (PutVarint64 [] (num_processed_output_records p)) dst else dst);
          dst = (if output_files p \<noteq> [] then put_field kOutputFilesDelta (EncodeOutputFiles p []) dst else dst)
      in PutVarint32 dst kLevelTerminate)"

fun decode_file_list :: "nat \<Rightarrow> Slice \<Rightarrow> FileMetaData list \<Rightarrow> status + FileMetaData list" where
  "decode_file_list 0 input fs = Inr fs"
| "decode_file_list (Suc n) input fs =
     need (GetLengthPrefixedSlice input) (Corruption ''SubcompactionProgressPerLevel: output file metadata'') (\<lambda>(file_input, input).
     case GetVarint32 file_input of
       None \<Rightarrow> Inl (Corruption ''SubcompactionProgressPerLevel: expected kNewFile4 tag'')
     | Some (tag, file_input) \<Rightarrow>
         if tag \<noteq> kNewFile4 then Inl (Corruption ''SubcompactionProgressPerLevel: expected kNewFile4 tag'')
         else case DecodeNewFile4From file_input (- 1) None of
           Inl err \<Rightarrow> Inl (Corruption (''SubcompactionProgressPerLevel: '' @ err))
         | Inr (e, _) \<Rightarrow> decode_file_list n input (fs @ [nf_file e]))"

definition DecodeOutputFiles :: "Slice \<Rightarrow> FileMetaData list \<Rightarrow> status + FileMetaData list" where
  "DecodeOutputFiles input fs =
     need (GetVarint32 input) (Corruption ''SubcompactionProgressPerLevel: new output file count'')
       (\<lambda>(new_file_count, input). decode_file_list (unat new_file_count) input fs)"

function decode_level :: "Slice \<Rightarrow> SubcompactionProgressPerLevel \<Rightarrow> status + SubcompactionProgressPerLevel \<times> Slice" where
  "decode_level input p =
     (case GetVarint32 input of
        None \<Rightarrow> Inl (Corruption ''SubcompactionProgressPerLevel: tag error'')
      | Some (tag, input) \<Rightarrow>
          if tag = kLevelTerminate then Inr (p, input)
          else case GetLengthPrefixedSlice input of
            None \<Rightarrow> Inl (Corruption ''SubcompactionProgressPerLevel: field length prefixed slice error'')
          | Some (field, input) \<Rightarrow>
              if tag = kNumProcessedOutputRecords then
                (case GetVarint64 field of
                   None \<Rightarrow> Inl (Corruption ''SubcompactionProgressPerLevel: invalid num_processed_output_records_'')
                 | Some (v, _) \<Rightarrow> decode_level input (p\<lparr>num_processed_output_records := v\<rparr>))
              else if tag = kOutputFilesDelta then
                (case DecodeOutputFiles field (output_files p) of
                   Inl e \<Rightarrow> Inl e | Inr fs \<Rightarrow> decode_level input (p\<lparr>output_files := fs\<rparr>))
              else if tag AND kProgressSafeIgnoreMask \<noteq> 0 then decode_level input p
              else Inl (NotSupported ''SubcompactionProgress: unsupported critical custom field''))"
  by pat_completeness auto
termination
  by (relation "measure (\<lambda>(input, _). length input)") (auto dest!: GetVarint32_shorter GetLengthPrefixedSlice_shorter)

declare decode_level.simps [simp del]

definition Level_DecodeFrom :: "Slice \<Rightarrow> status + SubcompactionProgressPerLevel \<times> Slice" where
  "Level_DecodeFrom input = decode_level input clear_level"

definition has_new_files :: "SubcompactionProgressPerLevel \<Rightarrow> bool" where
  "has_new_files p \<longleftrightarrow> length (output_files p) > last_persisted_output_files_count p"

definition Progress_EncodeTo :: "SubcompactionProgress \<Rightarrow> Slice \<Rightarrow> Slice" where
  "Progress_EncodeTo p dst =
     (let dst = (if next_internal_key_to_compact p \<noteq> []
                 then put_field kNextInternalKeyToCompact (next_internal_key_to_compact p) dst else dst);
          dst = put_field kNumProcessedInputRecords (PutVarint64 [] (num_processed_input_records p)) dst;
          dst = (if has_new_files (output_level_progress p)
                 then put_field kOutputLevelProgress (Level_EncodeTo (output_level_progress p) []) dst else dst);
          dst = (if has_new_files (proximal_output_level_progress p)
                 then put_field kProximalOutputLevelProgress (Level_EncodeTo (proximal_output_level_progress p) []) dst else dst)
      in PutVarint32 dst kProgressTerminate)"

function decode_progress :: "Slice \<Rightarrow> SubcompactionProgress \<Rightarrow> status + SubcompactionProgress \<times> Slice" where
  "decode_progress input p =
     (case GetVarint32 input of
        None \<Rightarrow> Inl (Corruption ''SubcompactionProgress: custom field tag error'')
      | Some (tag, input) \<Rightarrow>
          if tag = kProgressTerminate then Inr (p, input)
          else case GetLengthPrefixedSlice input of
            None \<Rightarrow> Inl (Corruption ''SubcompactionProgress: custom field length prefixed slice error'')
          | Some (field, input) \<Rightarrow>
              if tag = kNextInternalKeyToCompact then decode_progress input (p\<lparr>next_internal_key_to_compact := field\<rparr>)
              else if tag = kNumProcessedInputRecords then
                (case GetVarint64 field of
                   None \<Rightarrow> Inl (Corruption ''SubcompactionProgress: invalid num_processed_input_records'')
                 | Some (v, _) \<Rightarrow> decode_progress input (p\<lparr>num_processed_input_records := v\<rparr>))
              else if tag = kOutputLevelProgress then
                (case Level_DecodeFrom field of
                   Inl e \<Rightarrow> Inl e | Inr (l, _) \<Rightarrow> decode_progress input (p\<lparr>output_level_progress := l\<rparr>))
              else if tag = kProximalOutputLevelProgress then
                (case Level_DecodeFrom field of
                   Inl e \<Rightarrow> Inl e | Inr (l, _) \<Rightarrow> decode_progress input (p\<lparr>proximal_output_level_progress := l\<rparr>))
              else if tag AND kProgressSafeIgnoreMask \<noteq> 0 then decode_progress input p
              else Inl (NotSupported ''SubcompactionProgress: unsupported critical custom field''))"
  by pat_completeness auto
termination
  by (relation "measure (\<lambda>(input, _). length input)") (auto dest!: GetVarint32_shorter GetLengthPrefixedSlice_shorter)

declare decode_progress.simps [simp del]

definition Progress_DecodeFrom :: "Slice \<Rightarrow> status + SubcompactionProgress \<times> Slice" where
  "Progress_DecodeFrom input = decode_progress input clear_progress"

text \<open>What a level's record carries: the files since the last one.\<close>

definition level_delta :: "SubcompactionProgressPerLevel \<Rightarrow> SubcompactionProgressPerLevel" where
  "level_delta p =
     (if has_new_files p
      then \<lparr>num_processed_output_records = num_processed_output_records p,
            output_files = drop (last_persisted_output_files_count p) (output_files p),
            last_persisted_output_files_count = 0\<rparr>
      else clear_level)"

definition progress_delta :: "SubcompactionProgress \<Rightarrow> SubcompactionProgress" where
  "progress_delta p = p\<lparr>output_level_progress := level_delta (output_level_progress p),
     proximal_output_level_progress := level_delta (proximal_output_level_progress p)\<rparr>"

definition file_entry :: "FileMetaData \<Rightarrow> Slice" where
  "file_entry f = fst (EncodeToNewFile4 f (- 1) 0 None False [])"

definition level_ok :: "SubcompactionProgressPerLevel \<Rightarrow> bool" where
  "level_ok p \<longleftrightarrow> length (output_files p) < 2 ^ 32 \<and> length (EncodeOutputFiles p []) < 2 ^ 32 \<and>
     length (Level_EncodeTo p []) < 2 ^ 32 \<and> (\<forall>f \<in> set (output_files p). file_ok f \<and> length (file_entry f) < 2 ^ 32)"

definition progress_ok :: "SubcompactionProgress \<Rightarrow> bool" where
  "progress_ok p \<longleftrightarrow> length (next_internal_key_to_compact p) < 2 ^ 32 \<and>
     level_ok (output_level_progress p) \<and> level_ok (proximal_output_level_progress p)"

lemma fold_put_files:
  "fold (\<lambda>f dst. PutLengthPrefixedSlice dst (fst (EncodeToNewFile4 f (- 1) 0 None False []))) fs dst =
     dst @ concat (map (lp \<circ> file_entry) fs)"
  by (induction fs arbitrary: dst) (simp_all add: put_append file_entry_def)

lemma decode_file_list_entries:
  assumes "\<forall>f \<in> set fs. file_ok f \<and> length (file_entry f) < 2 ^ 32"
  shows "decode_file_list (length fs) (concat (map (lp \<circ> file_entry) fs) @ rest) acc = Inr (acc @ fs)"
  using assms
proof (induction fs arbitrary: acc)
  case (Cons f fs)
  obtain body where body: "file_entry f = EncodeVarint32 kNewFile4 @ body"
      "\<And>r mx ml. DecodeNewFile4From (body @ r) mx ml = Inr (\<lparr>nf_level = - 1, nf_max_level = max mx (- 1),
        nf_min_log = ml, nf_file = f\<rparr>, r)"
    using new_file_body [of f 0 "- 1" None False] Cons.prems by (auto simp: file_entry_def min_log_arg_def)
  have "DecodeNewFile4From body (- 1) None = Inr (\<lparr>nf_level = - 1, nf_max_level = - 1, nf_min_log = None, nf_file = f\<rparr>, [])"
    using body(2) [of "[]" "- 1" None] by simp
  moreover have "length (file_entry f) < 2 ^ 32" using Cons.prems by simp
  ultimately show ?case using Cons.IH [of "acc @ [f]"] Cons.prems by (simp add: body(1))
qed simp

lemma level_tags:
  "kOutputFilesDelta \<noteq> kLevelTerminate" "kOutputFilesDelta \<noteq> kNumProcessedOutputRecords"
  "kNumProcessedOutputRecords \<noteq> kLevelTerminate"
  by (simp_all add: tag_defs)

lemma Level_roundtrip:
  assumes "level_ok p" "has_new_files p"
  shows "Level_DecodeFrom (Level_EncodeTo p [] @ rest) = Inr (level_delta p, rest)"
proof -
  let ?d = "drop (last_persisted_output_files_count p) (output_files p)"
  have files: "\<forall>f \<in> set ?d. file_ok f \<and> length (file_entry f) < 2 ^ 32"
    using assms(1) set_drop_subset by (fastforce simp: level_ok_def)
  have enc: "EncodeOutputFiles p [] = EncodeVarint32 (of_nat (length ?d)) @ concat (map (lp \<circ> file_entry) ?d)"
    using assms(2) unfolding EncodeOutputFiles_def Let_def fold_put_files by (simp add: put_append has_new_files_def)
  have "length ?d < 2 ^ 32" using assms(1) by (simp add: level_ok_def less_imp_diff_less)
  then have "unat (of_nat (length ?d) :: u32) = length ?d" by (simp add: unsigned_of_nat take_bit_nat_eq_self)
  then have dec: "DecodeOutputFiles (EncodeOutputFiles p []) [] = Inr ?d"
    using decode_file_list_entries [OF files, of "[]" "[]"] unfolding enc by (simp add: DecodeOutputFiles_def)
  have len: "length (EncodeOutputFiles p []) < 2 ^ 32" "output_files p \<noteq> []"
    using assms by (auto simp: level_ok_def has_new_files_def)
  have fin: "decode_level (EncodeVarint32 kLevelTerminate @ rest) q = Inr (q, rest)" for q
    by (simp add: decode_level.simps)
  have delta: "decode_level (enc_field (kOutputFilesDelta, EncodeOutputFiles p []) @ r) q =
      decode_level r (q\<lparr>output_files := ?d\<rparr>)" if "output_files q = []" for r q
    using len(1) dec that by (subst decode_level.simps) (simp add: enc_field_def level_tags)
  have recs: "decode_level (enc_field (kNumProcessedOutputRecords, EncodeVarint64 n) @ r) q =
      decode_level r (q\<lparr>num_processed_output_records := n\<rparr>)" for n r q
    using length_EncodeVarint64_le [of n] by (subst decode_level.simps) (simp add: enc_field_def level_tags)
  have "\<not> 0 < num_processed_output_records p \<Longrightarrow> num_processed_output_records p = 0" by (simp add: word_gt_0)
  then show ?thesis
    using assms(2) len(2) unfolding Level_DecodeFrom_def Level_EncodeTo_def Let_def put_append
    by (auto simp: recs delta fin level_delta_def clear_level_def)
qed

lemma progress_tags:
  "kNextInternalKeyToCompact \<noteq> kProgressTerminate" "kNumProcessedInputRecords \<noteq> kProgressTerminate"
  "kOutputLevelProgress \<noteq> kProgressTerminate" "kProximalOutputLevelProgress \<noteq> kProgressTerminate"
  "kNumProcessedInputRecords \<noteq> kNextInternalKeyToCompact"
  "kOutputLevelProgress \<noteq> kNextInternalKeyToCompact" "kOutputLevelProgress \<noteq> kNumProcessedInputRecords"
  "kProximalOutputLevelProgress \<noteq> kNextInternalKeyToCompact" "kProximalOutputLevelProgress \<noteq> kNumProcessedInputRecords"
  "kProximalOutputLevelProgress \<noteq> kOutputLevelProgress"
  by (simp_all add: tag_defs)

lemma Progress_roundtrip:
  assumes "progress_ok p"
  shows "Progress_DecodeFrom (Progress_EncodeTo p [] @ rest) = Inr (progress_delta p, rest)"
proof -
  have fin: "decode_progress (EncodeVarint32 kProgressTerminate @ rest) q = Inr (q, rest)" for q
    by (simp add: decode_progress.simps)
  have key: "decode_progress (enc_field (kNextInternalKeyToCompact, k) @ r) q =
      decode_progress r (q\<lparr>next_internal_key_to_compact := k\<rparr>)" if "length k < 2 ^ 32" for k r q
    using that by (subst decode_progress.simps) (simp add: enc_field_def progress_tags)
  have recs: "decode_progress (enc_field (kNumProcessedInputRecords, EncodeVarint64 n) @ r) q =
      decode_progress r (q\<lparr>num_processed_input_records := n\<rparr>)" for n r q
    using length_EncodeVarint64_le [of n] by (subst decode_progress.simps) (simp add: enc_field_def progress_tags)
  have lvl: "decode_progress (enc_field (kOutputLevelProgress, Level_EncodeTo l []) @ r) q =
        decode_progress r (q\<lparr>output_level_progress := level_delta l\<rparr>)"
      "decode_progress (enc_field (kProximalOutputLevelProgress, Level_EncodeTo l []) @ r) q =
        decode_progress r (q\<lparr>proximal_output_level_progress := level_delta l\<rparr>)"
    if "level_ok l" "has_new_files l" for l r q
    using Level_roundtrip [OF that, of "[]"] that(1)
    by (subst decode_progress.simps; simp add: enc_field_def progress_tags level_ok_def)+
  have ok: "level_ok (output_level_progress p)" "level_ok (proximal_output_level_progress p)"
      "length (next_internal_key_to_compact p) < 2 ^ 32"
    using assms by (simp_all add: progress_ok_def)
  have no: "\<not> has_new_files l \<Longrightarrow> level_delta l = clear_level" for l by (simp add: level_delta_def)
  show ?thesis
    unfolding Progress_DecodeFrom_def Progress_EncodeTo_def Let_def put_append
    by (auto simp: key [OF ok(3)] recs lvl [OF ok(1)] lvl [OF ok(2)] fin progress_delta_def clear_progress_def no)
qed

interpretation progress: codec "\<lambda>p. Progress_EncodeTo p []" Progress_DecodeFrom
    "\<lambda>p. progress_ok p \<and> progress_delta p = p"
  by unfold_locales (metis Progress_roundtrip)

section \<open>Rebuilding the progress from its deltas\<close>

definition MaybeMergeDeltaProgressPerLevel ::
    "SubcompactionProgressPerLevel \<Rightarrow> SubcompactionProgressPerLevel \<Rightarrow> SubcompactionProgressPerLevel" where
  "MaybeMergeDeltaProgressPerLevel acc delta =
     (if output_files delta = [] then acc
      else acc\<lparr>output_files := output_files acc @ output_files delta,
               num_processed_output_records := num_processed_output_records delta\<rparr>)"

definition MergeDeltaProgress :: "SubcompactionProgress \<Rightarrow> SubcompactionProgress \<Rightarrow> SubcompactionProgress" where
  "MergeDeltaProgress acc delta =
     acc\<lparr>next_internal_key_to_compact := next_internal_key_to_compact delta,
         num_processed_input_records := num_processed_input_records delta,
         output_level_progress := MaybeMergeDeltaProgressPerLevel (output_level_progress acc) (output_level_progress delta),
         proximal_output_level_progress :=
           MaybeMergeDeltaProgressPerLevel (proximal_output_level_progress acc) (proximal_output_level_progress delta)\<rparr>"

text \<open>
  Merging the delta of a progress whose persisted files are those already accumulated
  gives all of its files.
\<close>

lemma merged_level:
  assumes "output_files acc = take (last_persisted_output_files_count p) (output_files p)"
    "last_persisted_output_files_count p \<le> length (output_files p)"
  shows "output_files (MaybeMergeDeltaProgressPerLevel acc (level_delta p)) = output_files p"
  using assms by (auto simp: MaybeMergeDeltaProgressPerLevel_def level_delta_def has_new_files_def clear_level_def)

section \<open>Sizes\<close>

text \<open>The lengths fit when there are at most a million files with at most a thousand bytes of keys and names each.\<close>

definition small_file :: "FileMetaData \<Rightarrow> bool" where
  "small_file f \<longleftrightarrow> file_ok f \<and>
     length (smallest f) + length (largest f) + length (file_checksum f) + length (file_checksum_func_name f) \<le> 1000"

definition small_level :: "SubcompactionProgressPerLevel \<Rightarrow> bool" where
  "small_level p \<longleftrightarrow> length (output_files p) \<le> 1000000 \<and> list_all small_file (output_files p)"

definition small_progress :: "SubcompactionProgress \<Rightarrow> bool" where
  "small_progress p \<longleftrightarrow> length (next_internal_key_to_compact p) \<le> 1000 \<and>
     small_level (output_level_progress p) \<and> small_level (proximal_output_level_progress p)"

lemma length_lp: "length (lp v) \<le> 5 + length v"
  using length_EncodeVarint32_le by (simp add: lp_def)

lemma length_enc_field: "length (enc_field (t, v)) \<le> 10 + length v"
  using length_EncodeVarint32_le [of t] length_lp [of v] by (simp add: enc_field_def)

lemma length_file_fields:
  "length (concat (map enc_field (file_fields f None))) \<le> 228 + length (file_checksum f) + length (file_checksum_func_name f)"
proof -
  have i: "length (concat (map enc_field (if b then [(t, v)] else []))) \<le> 10 + length v" for b t v
    using length_enc_field [of t v] by simp
  have i2: "length (concat (map enc_field (if b then [(t, v), (t', v')] else []))) \<le> 20 + length v + length v'" for b t v t' v'
    using length_enc_field [of t v] length_enc_field [of t' v'] by simp
  have n: "length (enc_field (t, EncodeVarint64 n)) \<le> 20" for t n
    using length_enc_field [of t "EncodeVarint64 n"] length_EncodeVarint64_le [of n] by simp
  have j: "length (concat (map enc_field (if b then [(t, EncodeVarint64 n)] else []))) \<le> 20" for b t n
    using n [of t n] by simp
  have u: "length (EncodeUniqueIdBytes (unique_id f)) = 16" by (simp add: EncodeUniqueIdBytes_def)
  show ?thesis
    unfolding file_fields_def map_append concat_append length_append
    using n [of kOldestAncesterTime "oldest_ancester_time f"] n [of kFileCreationTime "file_creation_time f"]
      n [of kEpochNumber "epoch_number f"]
      i2 [of "file_checksum_func_name f \<noteq> kUnknownFileChecksumFuncName" kFileChecksum "bytes_of_string (file_checksum f)"
        kFileChecksumFuncName "bytes_of_string (file_checksum_func_name f)"]
      i [of "GetPathId (fd f) \<noteq> 0" kPathId "[ucast (GetPathId (fd f))]"] i [of "temperature f \<noteq> 0" kTemperature "[temperature f]"]
      i [of "marked_for_compaction f" kNeedCompaction "[1]"]
      j [of "oldest_blob_file_number f \<noteq> 0" kOldestBlobFileNumber "oldest_blob_file_number f"]
      i [of "unique_id f \<noteq> (0, 0)" kUniqueId "EncodeUniqueIdBytes (unique_id f)"]
      j [of "compensated_range_deletion_size f \<noteq> 0" kCompensatedRangeDeletionSize "compensated_range_deletion_size f"]
      j [of "tail_size f \<noteq> 0" kTailSize "tail_size f"]
      i [of "\<not> user_defined_timestamps_persisted f" kUserDefinedTimestampsPersisted "[0]"]
    unfolding u by (simp split del: if_split)
qed

lemma length_file_entry: "small_file f \<Longrightarrow> length (file_entry f) \<le> 1300"
  using length_file_fields [of f] length_lp [of "smallest f"] length_lp [of "largest f"]
    length_EncodeVarint32_le [of kNewFile4] length_EncodeVarint32_le [of "- 1"] length_EncodeVarint32_le [of kTerminate]
    length_EncodeVarint64_le [of "GetNumber (fd f)"] length_EncodeVarint64_le [of "fd_file_size (fd f)"]
    length_EncodeVarint64_le [of "smallest_seqno (fd f)"] length_EncodeVarint64_le [of "largest_seqno (fd f)"]
  by (simp add: file_entry_def EncodeToNewFile4_eq min_log_arg_def small_file_def)

lemma length_files:
  "list_all small_file fs \<Longrightarrow> length (concat (map (lp \<circ> file_entry) fs)) \<le> 1305 * length fs"
proof (induction fs)
  case (Cons f fs)
  then show ?case using length_lp [of "file_entry f"] length_file_entry [of f] by simp
qed simp

lemma length_level:
  assumes "small_level p"
  shows "length (EncodeOutputFiles p []) \<le> 1305000005" "length (Level_EncodeTo p []) \<le> 1305000040"
proof -
  let ?d = "drop (last_persisted_output_files_count p) (output_files p)"
  have "list_all small_file ?d" "length ?d \<le> 1000000"
    using assms set_drop_subset by (fastforce simp: small_level_def list_all_iff)+
  then have "length (concat (map (lp \<circ> file_entry) ?d)) \<le> 1305000000" using length_files [of ?d] by simp
  moreover obtain n where "EncodeOutputFiles p [] = EncodeVarint32 n @ concat (map (lp \<circ> file_entry) ?d)"
    unfolding EncodeOutputFiles_def Let_def fold_put_files by (simp only: put_append append_Nil)
  ultimately show e: "length (EncodeOutputFiles p []) \<le> 1305000005"
    using length_EncodeVarint32_le [of n] by simp
  show "length (Level_EncodeTo p []) \<le> 1305000040"
    using e length_enc_field [of kNumProcessedOutputRecords "EncodeVarint64 (num_processed_output_records p)"]
      length_EncodeVarint64_le [of "num_processed_output_records p"]
      length_enc_field [of kOutputFilesDelta "EncodeOutputFiles p []"] length_EncodeVarint32_le [of kLevelTerminate]
    by (simp add: Level_EncodeTo_def Let_def put_append)
qed

lemma small_progress_ok:
  assumes "small_progress p"
  shows "progress_ok p" "length (Progress_EncodeTo p []) < 2 ^ 32"
proof -
  have l: "small_level (output_level_progress p)" "small_level (proximal_output_level_progress p)"
    using assms by (simp_all add: small_progress_def)
  have ok: "level_ok q" if "small_level q" for q
    using length_level [OF that] that length_file_entry
    by (fastforce simp: level_ok_def small_level_def small_file_def list_all_iff)
  show "progress_ok p" using assms ok [OF l(1)] ok [OF l(2)] by (simp add: progress_ok_def small_progress_def)
  show "length (Progress_EncodeTo p []) < 2 ^ 32"
    using assms length_level(2) [OF l(1)] length_level(2) [OF l(2)]
      length_enc_field [of kNextInternalKeyToCompact "next_internal_key_to_compact p"]
      length_enc_field [of kNumProcessedInputRecords "EncodeVarint64 (num_processed_input_records p)"]
      length_EncodeVarint64_le [of "num_processed_input_records p"]
      length_enc_field [of kOutputLevelProgress "Level_EncodeTo (output_level_progress p) []"]
      length_enc_field [of kProximalOutputLevelProgress "Level_EncodeTo (proximal_output_level_progress p) []"]
      length_EncodeVarint32_le [of kProgressTerminate]
    by (simp add: Progress_EncodeTo_def Let_def put_append small_progress_def)
qed

end
