(* ===== verification/Edit_Codec.thy ===== *)
theory Edit_Codec
  imports Edit_Parts "HOL-Library.Product_Lexorder"
begin

text \<open>
  The manifest form of a version edit: \<open>VersionEdit::EncodeTo\<close> and
  \<open>VersionEdit::DecodeFrom\<close> of \<open>db/version_edit.cc\<close> with every tag. A flag and its value
  are one optional value. A decoder error is the status; the half-filled edit is dropped
  with it. The main result is that the decoder returns the encoded edit.
\<close>

section \<open>Edits with all their fields\<close>

record ManifestEdit = VersionEdit +
  max_level :: int
  db_id :: "string option"
  comparator :: "string option"
  log_number :: "u64 option"
  prev_log_number :: "u64 option"
  next_file_number :: "u64 option"
  max_column_family :: "u32 option"
  min_log_to_keep :: "u64 option"
  compact_cursors :: "(int \<times> Slice) list"
  blob_file_additions :: "BlobFileAddition list"
  blob_file_garbages :: "BlobFileGarbage list"
  wal_additions :: "WalAddition list"
  wal_deletion :: u64
  column_family_add :: "string option"
  is_column_family_drop :: bool
  remaining_entries :: u32
  is_in_atomic_group :: bool
  is_no_manifest_write_dummy :: bool
  full_history_ts_low :: Slice
  persist_user_defined_timestamps :: "bool option"
  subcompaction_progress :: "SubcompactionProgress option"

definition clear_edit :: ManifestEdit where
  "clear_edit =
     \<lparr>column_family = 0, last_sequence = None, deleted_files = {}, new_files = [], files_to_quarantine = [],
      max_level = 0, db_id = None, comparator = None, log_number = None, prev_log_number = None,
      next_file_number = None, max_column_family = None, min_log_to_keep = None, compact_cursors = [],
      blob_file_additions = [], blob_file_garbages = [], wal_additions = [], wal_deletion = 0,
      column_family_add = None, is_column_family_drop = False, remaining_entries = 0,
      is_in_atomic_group = False, is_no_manifest_write_dummy = False, full_history_ts_low = [],
      persist_user_defined_timestamps = None, subcompaction_progress = None\<rparr>"

section \<open>Operations on edits\<close>

text \<open>The setters of the class; their assertions are not checked in a release build.\<close>

definition SetDBId :: "string \<Rightarrow> ManifestEdit \<Rightarrow> ManifestEdit" where
  "SetDBId v e = e\<lparr>db_id := Some v\<rparr>"

definition SetComparatorName :: "Slice \<Rightarrow> ManifestEdit \<Rightarrow> ManifestEdit" where
  "SetComparatorName v e = e\<lparr>comparator := Some (ToString v)\<rparr>"

definition SetPersistUserDefinedTimestamps :: "bool \<Rightarrow> ManifestEdit \<Rightarrow> ManifestEdit" where
  "SetPersistUserDefinedTimestamps v e = e\<lparr>persist_user_defined_timestamps := Some v\<rparr>"

definition SetLogNumber :: "u64 \<Rightarrow> ManifestEdit \<Rightarrow> ManifestEdit" where
  "SetLogNumber num e = e\<lparr>log_number := Some num\<rparr>"

definition SetPrevLogNumber :: "u64 \<Rightarrow> ManifestEdit \<Rightarrow> ManifestEdit" where
  "SetPrevLogNumber num e = e\<lparr>prev_log_number := Some num\<rparr>"

definition SetNextFile :: "u64 \<Rightarrow> ManifestEdit \<Rightarrow> ManifestEdit" where
  "SetNextFile num e = e\<lparr>next_file_number := Some num\<rparr>"

definition SetMaxColumnFamily :: "u32 \<Rightarrow> ManifestEdit \<Rightarrow> ManifestEdit" where
  "SetMaxColumnFamily num e = e\<lparr>max_column_family := Some num\<rparr>"

definition SetMinLogNumberToKeep :: "u64 \<Rightarrow> ManifestEdit \<Rightarrow> ManifestEdit" where
  "SetMinLogNumberToKeep num e = e\<lparr>min_log_to_keep := Some num\<rparr>"

definition AddCompactCursor :: "int \<Rightarrow> Slice \<Rightarrow> ManifestEdit \<Rightarrow> ManifestEdit" where
  "AddCompactCursor level cursor e = e\<lparr>compact_cursors := compact_cursors e @ [(level, cursor)]\<rparr>"

definition SetCompactCursors :: "Slice list \<Rightarrow> ManifestEdit \<Rightarrow> ManifestEdit" where
  "SetCompactCursors cs e = e\<lparr>compact_cursors := [(int i, k). (i, k) \<leftarrow> enumerate 0 cs, InternalKey_Valid k]\<rparr>"

definition AddBlobFile :: "BlobFileAddition \<Rightarrow> ManifestEdit \<Rightarrow> ManifestEdit" where
  "AddBlobFile b e = e\<lparr>blob_file_additions := blob_file_additions e @ [b],
     files_to_quarantine := files_to_quarantine e @ [blob_file_number b]\<rparr>"

definition SetBlobFileAdditions :: "BlobFileAddition list \<Rightarrow> ManifestEdit \<Rightarrow> ManifestEdit" where
  "SetBlobFileAdditions bs e = e\<lparr>blob_file_additions := bs,
     files_to_quarantine := files_to_quarantine e @ map blob_file_number bs\<rparr>"

definition AddBlobFileGarbage :: "BlobFileGarbage \<Rightarrow> ManifestEdit \<Rightarrow> ManifestEdit" where
  "AddBlobFileGarbage g e = e\<lparr>blob_file_garbages := blob_file_garbages e @ [g]\<rparr>"

definition SetBlobFileGarbages :: "BlobFileGarbage list \<Rightarrow> ManifestEdit \<Rightarrow> ManifestEdit" where
  "SetBlobFileGarbages gs e = e\<lparr>blob_file_garbages := gs\<rparr>"

definition Edit_AddWal :: "WalAddition \<Rightarrow> ManifestEdit \<Rightarrow> ManifestEdit" where
  "Edit_AddWal w e = e\<lparr>wal_additions := wal_additions e @ [w]\<rparr>"

definition Edit_DeleteWalsBefore :: "u64 \<Rightarrow> ManifestEdit \<Rightarrow> ManifestEdit" where
  "Edit_DeleteWalsBefore number e = e\<lparr>wal_deletion := number\<rparr>"

definition NumEntries :: "ManifestEdit \<Rightarrow> nat" where
  "NumEntries e = length (new_files e) + card (deleted_files e) + length (blob_file_additions e) +
     length (blob_file_garbages e) + length (wal_additions e) + of_bool (wal_deletion e \<noteq> 0)"

definition IsWalManipulation :: "ManifestEdit \<Rightarrow> bool" where
  "IsWalManipulation e =
     (let entries = NumEntries e
      in entries > 0 \<and> (entries = length (wal_additions e) \<or> entries = of_bool (wal_deletion e \<noteq> 0)))"

definition SetColumnFamily :: "u32 \<Rightarrow> ManifestEdit \<Rightarrow> ManifestEdit" where
  "SetColumnFamily cf e = e\<lparr>column_family := cf\<rparr>"

definition AddColumnFamily :: "string \<Rightarrow> ManifestEdit \<Rightarrow> ManifestEdit" where
  "AddColumnFamily name e = e\<lparr>column_family_add := Some name\<rparr>"

definition DropColumnFamily :: "ManifestEdit \<Rightarrow> ManifestEdit" where
  "DropColumnFamily e = e\<lparr>is_column_family_drop := True\<rparr>"

definition IsColumnFamilyManipulation :: "ManifestEdit \<Rightarrow> bool" where
  "IsColumnFamilyManipulation e \<longleftrightarrow> column_family_add e \<noteq> None \<or> is_column_family_drop e"

definition MarkNoManifestWriteDummy :: "ManifestEdit \<Rightarrow> ManifestEdit" where
  "MarkNoManifestWriteDummy e = e\<lparr>is_no_manifest_write_dummy := True\<rparr>"

definition MarkAtomicGroup :: "u32 \<Rightarrow> ManifestEdit \<Rightarrow> ManifestEdit" where
  "MarkAtomicGroup n e = e\<lparr>is_in_atomic_group := True, remaining_entries := n\<rparr>"

definition SetRemainingEntries :: "u32 \<Rightarrow> ManifestEdit \<Rightarrow> ManifestEdit" where
  "SetRemainingEntries n e = e\<lparr>remaining_entries := n\<rparr>"

definition SetFullHistoryTsLow :: "Slice \<Rightarrow> ManifestEdit \<Rightarrow> ManifestEdit" where
  "SetFullHistoryTsLow ts e = e\<lparr>full_history_ts_low := ts\<rparr>"

definition SetSubcompactionProgress :: "SubcompactionProgress \<Rightarrow> ManifestEdit \<Rightarrow> ManifestEdit" where
  "SetSubcompactionProgress p e = e\<lparr>subcompaction_progress := Some p\<rparr>"

definition ClearSubcompactionProgress :: "ManifestEdit \<Rightarrow> ManifestEdit" where
  "ClearSubcompactionProgress e = e\<lparr>subcompaction_progress := None\<rparr>"

text \<open>An edit of log records only has either additions or a deletion, and no other entry.\<close>

lemma IsWalManipulation_iff:
  assumes "finite (deleted_files e)"
  shows "IsWalManipulation e \<longleftrightarrow> new_files e = [] \<and> deleted_files e = {} \<and> blob_file_additions e = [] \<and>
    blob_file_garbages e = [] \<and> (wal_additions e = [] \<longleftrightarrow> wal_deletion e \<noteq> 0)"
  using assms by (auto simp: IsWalManipulation_def NumEntries_def Let_def)

section \<open>The tags\<close>

definition kComparator :: u32 where [tag_defs]: "kComparator = 1"
definition kLogNumber :: u32 where [tag_defs]: "kLogNumber = 2"
definition kNextFileNumber :: u32 where [tag_defs]: "kNextFileNumber = 3"
definition kLastSequence :: u32 where [tag_defs]: "kLastSequence = 4"
definition kCompactCursor :: u32 where [tag_defs]: "kCompactCursor = 5"
definition kDeletedFile :: u32 where [tag_defs]: "kDeletedFile = 6"
definition kNewFile :: u32 where [tag_defs]: "kNewFile = 7"
definition kPrevLogNumber :: u32 where [tag_defs]: "kPrevLogNumber = 9"
definition kMinLogNumberToKeep :: u32 where [tag_defs]: "kMinLogNumberToKeep = 10"
definition kNewFile2 :: u32 where [tag_defs]: "kNewFile2 = 100"
definition kNewFile3 :: u32 where [tag_defs]: "kNewFile3 = 102"
definition kColumnFamily :: u32 where [tag_defs]: "kColumnFamily = 200"
definition kColumnFamilyAdd :: u32 where [tag_defs]: "kColumnFamilyAdd = 201"
definition kColumnFamilyDrop :: u32 where [tag_defs]: "kColumnFamilyDrop = 202"
definition kMaxColumnFamily :: u32 where [tag_defs]: "kMaxColumnFamily = 203"
definition kInAtomicGroup :: u32 where [tag_defs]: "kInAtomicGroup = 300"
definition kBlobFileAddition :: u32 where [tag_defs]: "kBlobFileAddition = 400"
definition kBlobFileGarbage :: u32 where [tag_defs]: "kBlobFileGarbage = 401"
definition kTagSafeIgnoreMask :: u32 where [tag_defs]: "kTagSafeIgnoreMask = 8192"
definition kDbId :: u32 where [tag_defs]: "kDbId = 8193"
definition kBlobFileAddition_DEPRECATED :: u32 where [tag_defs]: "kBlobFileAddition_DEPRECATED = 8194"
definition kBlobFileGarbage_DEPRECATED :: u32 where [tag_defs]: "kBlobFileGarbage_DEPRECATED = 8195"
definition kWalAddition :: u32 where [tag_defs]: "kWalAddition = 8196"
definition kWalDeletion :: u32 where [tag_defs]: "kWalDeletion = 8197"
definition kFullHistoryTsLow :: u32 where [tag_defs]: "kFullHistoryTsLow = 8198"
definition kWalAddition2 :: u32 where [tag_defs]: "kWalAddition2 = 8199"
definition kWalDeletion2 :: u32 where [tag_defs]: "kWalDeletion2 = 8200"
definition kPersistUserDefinedTimestamps :: u32 where [tag_defs]: "kPersistUserDefinedTimestamps = 8201"
definition kSubcompactionProgress :: u32 where [tag_defs]: "kSubcompactionProgress = 8202"

section \<open>The encoder\<close>

definition put_opt :: "'a option \<Rightarrow> ('a \<Rightarrow> Slice \<Rightarrow> Slice) \<Rightarrow> Slice \<Rightarrow> Slice" where
  "put_opt x put dst = (case x of None \<Rightarrow> dst | Some v \<Rightarrow> put v dst)"

definition put_string :: "u32 \<Rightarrow> string \<Rightarrow> Slice \<Rightarrow> Slice" where
  "put_string tag s dst = PutLengthPrefixedSlice (PutVarint32 dst tag) (bytes_of_string s)"

definition put_cursor :: "int \<times> Slice \<Rightarrow> Slice \<Rightarrow> Slice" where
  "put_cursor c dst =
     (if InternalKey_Valid (snd c)
      then PutLengthPrefixedSlice (PutVarint32 (PutVarint32 dst kCompactCursor) (of_int (fst c))) (snd c) else dst)"

text \<open>The new files; the encoder gives up at a file that it must not write.\<close>

fun put_files :: "(int \<times> FileMetaData) list \<Rightarrow> nat \<Rightarrow> u64 option \<Rightarrow> bool \<Rightarrow> Slice \<Rightarrow> Slice option" where
  "put_files [] ts_sz ml written dst = Some dst"
| "put_files ((level, f) # fs) ts_sz ml written dst =
     (if \<not> InternalKey_Valid (smallest f) \<or> \<not> InternalKey_Valid (largest f) \<or> epoch_number f = 0 then None
      else let (dst, written) = EncodeToNewFile4 f level ts_sz ml written dst in put_files fs ts_sz ml written dst)"

definition EncodeTo :: "ManifestEdit \<Rightarrow> nat \<Rightarrow> Slice option" where
  "EncodeTo e ts_sz =
     (let dst = put_opt (db_id e) (put_string kDbId) [];
          dst = put_opt (comparator e) (put_string kComparator) dst;
          dst = put_opt (log_number e) (\<lambda>v dst. PutVarint32Varint64 dst kLogNumber v) dst;
          dst = put_opt (prev_log_number e) (\<lambda>v dst. PutVarint32Varint64 dst kPrevLogNumber v) dst;
          dst = put_opt (next_file_number e) (\<lambda>v dst. PutVarint32Varint64 dst kNextFileNumber v) dst;
          dst = put_opt (max_column_family e) (\<lambda>v dst. PutVarint32Varint32 dst kMaxColumnFamily v) dst;
          dst = put_opt (min_log_to_keep e) (\<lambda>v dst. PutVarint32Varint64 dst kMinLogNumberToKeep v) dst;
          dst = put_opt (last_sequence e) (\<lambda>v dst. PutVarint32Varint64 dst kLastSequence v) dst;
          dst = fold put_cursor (compact_cursors e) dst;
          dst = fold (\<lambda>(level, number) dst. PutVarint32Varint32Varint64 dst kDeletedFile (of_int level) number)
                  (sorted_list_of_set (deleted_files e)) dst
      in case put_files (new_files e) ts_sz (min_log_to_keep e) False dst of
           None \<Rightarrow> None
         | Some dst \<Rightarrow>
     (let dst = fold (\<lambda>b dst. BlobFileAddition_EncodeTo b (PutVarint32 dst kBlobFileAddition)) (blob_file_additions e) dst;
          dst = fold (\<lambda>b dst. BlobFileGarbage_EncodeTo b (PutVarint32 dst kBlobFileGarbage)) (blob_file_garbages e) dst;
          dst = fold (\<lambda>w dst. PutLengthPrefixedSlice (PutVarint32 dst kWalAddition2) (WalAddition_EncodeTo w []))
                  (wal_additions e) dst;
          dst = (if wal_deletion e \<noteq> 0
                 then PutLengthPrefixedSlice (PutVarint32 dst kWalDeletion2) (WalDeletion_EncodeTo (wal_deletion e) []) else dst);
          dst = (if column_family e \<noteq> 0 then PutVarint32Varint32 dst kColumnFamily (column_family e) else dst);
          dst = put_opt (column_family_add e) (put_string kColumnFamilyAdd) dst;
          dst = (if is_column_family_drop e then PutVarint32 dst kColumnFamilyDrop else dst);
          dst = (if is_in_atomic_group e then PutVarint32 (PutVarint32 dst kInAtomicGroup) (remaining_entries e) else dst);
          dst = (if full_history_ts_low e \<noteq> []
                 then PutLengthPrefixedSlice (PutVarint32 dst kFullHistoryTsLow) (full_history_ts_low e) else dst);
          dst = put_opt (persist_user_defined_timestamps e)
                  (\<lambda>b dst. PutLengthPrefixedSlice (PutVarint32 dst kPersistUserDefinedTimestamps) [if b then 1 else 0]) dst;
          dst = put_opt (subcompaction_progress e)
                  (\<lambda>p dst. PutLengthPrefixedSlice (PutVarint32 dst kSubcompactionProgress) (Progress_EncodeTo p [])) dst
      in Some dst))"

text \<open>
  What the encoder asserts of the edit: it is meant for the manifest, and the name of the
  comparator comes with the flag for timestamps. The size of timestamps is always given here.
\<close>

definition EncodeTo_asserts :: "ManifestEdit \<Rightarrow> bool" where
  "EncodeTo_asserts e \<longleftrightarrow> \<not> is_no_manifest_write_dummy e \<and>
     (comparator e \<noteq> None \<longrightarrow> persist_user_defined_timestamps e \<noteq> None) \<and>
     (persist_user_defined_timestamps e \<noteq> None \<longrightarrow> comparator e \<noteq> None)"

section \<open>The decoder\<close>

abbreviation bad :: "string \<Rightarrow> status + 'b" where
  "bad msg \<equiv> Inl (Corruption (''VersionEdit: '' @ msg))"

definition get1 :: "('a \<times> Slice) option \<Rightarrow> string \<Rightarrow> ('a \<Rightarrow> ManifestEdit) \<Rightarrow> status + ManifestEdit \<times> Slice" where
  "get1 r msg g = (case r of None \<Rightarrow> bad msg | Some (v, input) \<Rightarrow> Inr (g v, input))"

text \<open>The older forms of a new file have no custom fields.\<close>

definition old_file :: "FileDescriptor \<Rightarrow> Slice \<Rightarrow> Slice \<Rightarrow> FileMetaData" where
  "old_file d lo hi = default_file\<lparr>fd := d, smallest := lo, largest := hi\<rparr>"

definition GetPath :: "bool \<Rightarrow> Slice \<Rightarrow> (u32 \<times> Slice) option" where
  "GetPath with_path input = (if with_path then GetVarint32 input else Some (0, input))"

definition GetSeqnos :: "bool \<Rightarrow> Slice \<Rightarrow> ((u64 \<times> u64) \<times> Slice) option" where
  "GetSeqnos with_seq input =
     (if with_seq
      then case GetVarint64 input of None \<Rightarrow> None
           | Some (a, input) \<Rightarrow> (case GetVarint64 input of None \<Rightarrow> None | Some (b, input) \<Rightarrow> Some ((a, b), input))
      else Some ((kMaxSequenceNumber, 0), input))"

definition DecodeOldFile :: "bool \<Rightarrow> bool \<Rightarrow> string \<Rightarrow> Slice \<Rightarrow> ManifestEdit \<Rightarrow> status + ManifestEdit \<times> Slice" where
  "DecodeOldFile with_path with_seq msg input e =
     (case GetLevel input (max_level e) of None \<Rightarrow> bad msg | Some (level, mx, input) \<Rightarrow>
     (case GetVarint64 input of None \<Rightarrow> bad msg | Some (number, input) \<Rightarrow>
     (case GetPath with_path input of None \<Rightarrow> bad msg | Some (path_id, input) \<Rightarrow>
     (case GetVarint64 input of None \<Rightarrow> bad msg | Some (file_size, input) \<Rightarrow>
     (case GetInternalKey input of None \<Rightarrow> bad msg | Some (lo, input) \<Rightarrow>
     (case GetInternalKey input of None \<Rightarrow> bad msg | Some (hi, input) \<Rightarrow>
     (case GetSeqnos with_seq input of None \<Rightarrow> bad msg | Some ((a, b), input) \<Rightarrow>
        Inr (e\<lparr>max_level := mx,
               new_files := new_files e @ [(level, old_file (make_fd number path_id file_size a b) lo hi)]\<rparr>, input))))))))"

definition via :: "(status + 'a \<times> Slice) \<Rightarrow> ('a \<Rightarrow> ManifestEdit) \<Rightarrow> status + ManifestEdit \<times> Slice" where
  "via r g = (case r of Inl s \<Rightarrow> Inl s | Inr (x, input) \<Rightarrow> Inr (g x, input))"

definition prefixed :: "Slice \<Rightarrow> string \<Rightarrow> (Slice \<Rightarrow> status + 'a \<times> Slice) \<Rightarrow> status + 'a \<times> Slice" where
  "prefixed input msg dec =
     (case GetLengthPrefixedSlice input of None \<Rightarrow> bad msg
      | Some (encoded, input) \<Rightarrow> (case dec encoded of Inl s \<Rightarrow> Inl s | Inr (x, _) \<Rightarrow> Inr (x, input)))"

text \<open>One pass of the loop, after the tag.\<close>

definition decode_tag :: "u32 \<Rightarrow> Slice \<Rightarrow> ManifestEdit \<Rightarrow> status + ManifestEdit \<times> Slice" where
  "decode_tag tag input e =
     (if tag = kDbId then get1 (GetLengthPrefixedSlice input) ''db id'' (\<lambda>str. e\<lparr>db_id := Some (ToString str)\<rparr>)
      else if tag = kComparator then
        get1 (GetLengthPrefixedSlice input) ''comparator name'' (\<lambda>str. e\<lparr>comparator := Some (ToString str)\<rparr>)
      else if tag = kLogNumber then get1 (GetVarint64 input) ''log number'' (\<lambda>v. e\<lparr>log_number := Some v\<rparr>)
      else if tag = kPrevLogNumber then
        get1 (GetVarint64 input) ''previous log number'' (\<lambda>v. e\<lparr>prev_log_number := Some v\<rparr>)
      else if tag = kNextFileNumber then
        get1 (GetVarint64 input) ''next file number'' (\<lambda>v. e\<lparr>next_file_number := Some v\<rparr>)
      else if tag = kMaxColumnFamily then
        get1 (GetVarint32 input) ''max column family'' (\<lambda>v. e\<lparr>max_column_family := Some v\<rparr>)
      else if tag = kMinLogNumberToKeep then
        get1 (GetVarint64 input) ''min log number to kee'' (\<lambda>v. e\<lparr>min_log_to_keep := Some v\<rparr>)
      else if tag = kLastSequence then
        get1 (GetVarint64 input) ''last sequence number'' (\<lambda>v. e\<lparr>last_sequence := Some v\<rparr>)
      else if tag = kCompactCursor then
        (case GetLevel input (max_level e) of None \<Rightarrow> bad ''compaction cursor''
         | Some (level, mx, input) \<Rightarrow>
             get1 (GetInternalKey input) ''compaction cursor''
               (\<lambda>key. e\<lparr>max_level := mx, compact_cursors := compact_cursors e @ [(level, key)]\<rparr>))
      else if tag = kDeletedFile then
        (case GetLevel input (max_level e) of None \<Rightarrow> bad ''deleted file''
         | Some (level, mx, input) \<Rightarrow>
             get1 (GetVarint64 input) ''deleted file''
               (\<lambda>number. e\<lparr>max_level := mx, deleted_files := insert (level, number) (deleted_files e)\<rparr>))
      else if tag = kNewFile then DecodeOldFile False False ''new-file entry'' input e
      else if tag = kNewFile2 then DecodeOldFile False True ''new-file2 entry'' input e
      else if tag = kNewFile3 then DecodeOldFile True True ''new-file3 entry'' input e
      else if tag = kNewFile4 then
        (case DecodeNewFile4From input (max_level e) (min_log_to_keep e) of
           Inl msg \<Rightarrow> bad msg
         | Inr (n, input) \<Rightarrow>
             Inr (e\<lparr>max_level := nf_max_level n, min_log_to_keep := nf_min_log n,
                    new_files := new_files e @ [(nf_level n, nf_file n)]\<rparr>, input))
      else if tag = kBlobFileAddition \<or> tag = kBlobFileAddition_DEPRECATED then
        via (BlobFileAddition_DecodeFrom input) (\<lambda>b. AddBlobFile b e)
      else if tag = kBlobFileGarbage \<or> tag = kBlobFileGarbage_DEPRECATED then
        via (BlobFileGarbage_DecodeFrom input) (\<lambda>b. e\<lparr>blob_file_garbages := blob_file_garbages e @ [b]\<rparr>)
      else if tag = kWalAddition then
        via (WalAddition_DecodeFrom input) (\<lambda>w. e\<lparr>wal_additions := wal_additions e @ [w]\<rparr>)
      else if tag = kWalAddition2 then
        via (prefixed input ''WalAddition not prefixed by length'' WalAddition_DecodeFrom)
          (\<lambda>w. e\<lparr>wal_additions := wal_additions e @ [w]\<rparr>)
      else if tag = kWalDeletion then via (WalDeletion_DecodeFrom input) (\<lambda>n. e\<lparr>wal_deletion := n\<rparr>)
      else if tag = kWalDeletion2 then
        via (prefixed input ''WalDeletion not prefixed by length'' WalDeletion_DecodeFrom) (\<lambda>n. e\<lparr>wal_deletion := n\<rparr>)
      else if tag = kColumnFamily then
        get1 (GetVarint32 input) ''set column family id'' (\<lambda>v. e\<lparr>column_family := v\<rparr>)
      else if tag = kColumnFamilyAdd then
        get1 (GetLengthPrefixedSlice input) ''column family add'' (\<lambda>str. e\<lparr>column_family_add := Some (ToString str)\<rparr>)
      else if tag = kColumnFamilyDrop then Inr (e\<lparr>is_column_family_drop := True\<rparr>, input)
      else if tag = kInAtomicGroup then
        get1 (GetVarint32 input) ''remaining entries'' (\<lambda>n. e\<lparr>is_in_atomic_group := True, remaining_entries := n\<rparr>)
      else if tag = kFullHistoryTsLow then
        (case GetLengthPrefixedSlice input of None \<Rightarrow> bad ''full_history_ts_low''
         | Some (str, input) \<Rightarrow>
             if str = [] then bad ''full_history_ts_low: empty'' else Inr (e\<lparr>full_history_ts_low := str\<rparr>, input))
      else if tag = kPersistUserDefinedTimestamps then
        (case GetLengthPrefixedSlice input of None \<Rightarrow> bad ''persist_user_defined_timestamps''
         | Some (str, input) \<Rightarrow>
             if length str \<noteq> 1 then bad ''persist_user_defined_timestamps field wrong size''
             else Inr (e\<lparr>persist_user_defined_timestamps := Some (hd str = 1)\<rparr>, input))
      else if tag = kSubcompactionProgress then
        via (prefixed input ''SubcompactionProgress not prefixed by length'' Progress_DecodeFrom)
          (\<lambda>p. e\<lparr>subcompaction_progress := Some p\<rparr>)
      else if tag AND kTagSafeIgnoreMask \<noteq> 0 then
        (case GetVarint32 input of None \<Rightarrow> bad ''safely ignoreable tag length error''
         | Some (field_len, input) \<Rightarrow>
             if unat field_len > length input then bad ''safely ignoreable tag length error''
             else Inr (e, drop (unat field_len) input))
      else bad ''unknown tag'')"

text \<open>Each part consumes its input, so the loop ends.\<close>

lemma GetLevel_shorter: "GetLevel p m = Some (a, b, q) \<Longrightarrow> length q < length p"
  using GetVarint32_shorter by (auto simp: GetLevel_def Let_def split: option.splits prod.splits)

lemma GetInternalKey_shorter: "GetInternalKey p = Some (a, q) \<Longrightarrow> length q < length p"
  using GetLengthPrefixedSlice_shorter by (auto simp: GetInternalKey_def split: option.splits prod.splits if_splits)

lemma decode_fields_shorter: "decode_fields p st = Inr (st', q) \<Longrightarrow> length q < length p"
proof (induction "length p" arbitrary: p st rule: less_induct)
  case less
  from less.prems show ?case
    by (subst (asm) decode_fields.simps)
      (auto split: option.splits prod.splits if_splits sum.splits dest!: GetVarint32_shorter GetLengthPrefixedSlice_shorter, (meson less.hyps less_trans)?)
qed

lemma DecodeNewFile4From_shorter: "DecodeNewFile4From p m l = Inr (n, q) \<Longrightarrow> length q < length p"
  by (auto simp: DecodeNewFile4From_def split: option.splits prod.splits sum.splits
      dest!: GetLevel_shorter GetVarint64_shorter GetInternalKey_shorter decode_fields_shorter)

lemma skip_custom_shorter: "skip_custom c p = Inr q \<Longrightarrow> length q < length p"
proof (induction "length p" arbitrary: c p rule: less_induct)
  case less
  from less.prems show ?case
    by (subst (asm) skip_custom.simps)
      (auto split: option.splits prod.splits if_splits dest!: GetVarint32_shorter GetLengthPrefixedSlice_shorter, (meson less.hyps less_trans)?)
qed

lemma wal_tags_shorter: "wal_tags p n = Inr (m, q) \<Longrightarrow> length q < length p"
proof (induction "length p" arbitrary: p n rule: less_induct)
  case less
  from less.prems show ?case
    by (subst (asm) wal_tags.simps)
      (auto split: option.splits prod.splits if_splits dest!: GetVarint32_shorter GetVarint64_shorter, (meson less.hyps less_trans)?)
qed

lemma sum_bind_Inr: "(case r of Inl e \<Rightarrow> Inl e | Inr x \<Rightarrow> k x) = Inr y \<longleftrightarrow> (\<exists>x. r = Inr x \<and> k x = Inr y)"
  by (cases r) simp_all

lemma parts_shorter:
  "BlobFileAddition_DecodeFrom p = Inr (b, q) \<Longrightarrow> length q < length p"
  "BlobFileGarbage_DecodeFrom p = Inr (g, q) \<Longrightarrow> length q < length p"
  "WalAddition_DecodeFrom p = Inr (w, q) \<Longrightarrow> length q < length p"
  "WalDeletion_DecodeFrom p = Inr (n, q) \<Longrightarrow> length q < length p"
  by (auto simp: BlobFileAddition_DecodeFrom_def BlobFileGarbage_DecodeFrom_def WalAddition_DecodeFrom_def
      WalDeletion_DecodeFrom_def need_Inr sum_bind_Inr
      dest!: GetVarint64_shorter GetLengthPrefixedSlice_shorter skip_custom_shorter wal_tags_shorter)

lemma DecodeOldFile_shorter: "DecodeOldFile a b msg p e = Inr (e', q) \<Longrightarrow> length q < length p"
  by (auto simp: DecodeOldFile_def GetPath_def GetSeqnos_def split: option.splits prod.splits if_splits
      dest!: GetLevel_shorter GetVarint64_shorter GetVarint32_shorter GetInternalKey_shorter)

lemma prefixed_shorter: "prefixed p msg dec = Inr (x, q) \<Longrightarrow> length q < length p"
  by (auto simp: prefixed_def split: option.splits prod.splits sum.splits dest!: GetLengthPrefixedSlice_shorter)

definition shrinks :: "nat \<Rightarrow> status + ManifestEdit \<times> Slice \<Rightarrow> bool" where
  "shrinks n r \<longleftrightarrow> (\<forall>e q. r = Inr (e, q) \<longrightarrow> length q \<le> n)"

lemma shrinks_if: "(c \<Longrightarrow> shrinks n a) \<Longrightarrow> (\<not> c \<Longrightarrow> shrinks n b) \<Longrightarrow> shrinks n (if c then a else b)"
  by simp

lemma shrinks_simps [simp]: "shrinks n (Inl s)" "shrinks n (Inr (e, q)) \<longleftrightarrow> length q \<le> n"
  by (simp_all add: shrinks_def)

lemma shrinks_get1: "(\<And>v q. r = Some (v, q) \<Longrightarrow> length q \<le> n) \<Longrightarrow> shrinks n (get1 r msg g)"
  by (auto simp: get1_def shrinks_def split: option.splits prod.splits)

lemma shrinks_via: "(\<And>v q. r = Inr (v, q) \<Longrightarrow> length q < n) \<Longrightarrow> shrinks n (via r g)"
  by (force simp: via_def shrinks_def split: sum.splits prod.splits)

lemma shrinks_old: "shrinks (length p) (DecodeOldFile a b msg p e)"
  using DecodeOldFile_shorter by (fastforce simp: shrinks_def)

lemma shrinks_option: "(\<And>v. r = Some v \<Longrightarrow> shrinks n (k v)) \<Longrightarrow> shrinks n (case r of None \<Rightarrow> Inl s | Some v \<Rightarrow> k v)"
  by (cases r) simp_all

lemma shrinks_sum: "(\<And>v. r = Inr v \<Longrightarrow> shrinks n (k v)) \<Longrightarrow> shrinks n (case r of Inl m \<Rightarrow> Inl (h m) | Inr v \<Rightarrow> k v)"
  by (cases r) simp_all

lemma decode_tag_shorter: "shrinks (length p) (decode_tag tag p e)"
  unfolding decode_tag_def
  by (intro shrinks_if shrinks_get1 shrinks_via shrinks_old shrinks_option shrinks_sum;
      (clarsimp split: prod.splits)?;
      (intro shrinks_if shrinks_get1)?;
      (auto dest!: GetVarint32_shorter GetVarint64_shorter GetLengthPrefixedSlice_shorter GetLevel_shorter
        GetInternalKey_shorter parts_shorter prefixed_shorter DecodeNewFile4From_shorter)?)

function decode_edit :: "Slice \<Rightarrow> ManifestEdit \<Rightarrow> status + ManifestEdit" where
  "decode_edit input e =
     (case GetVarint32 input of
        None \<Rightarrow> if input = [] then Inr e else bad ''invalid tag''
      | Some (tag, input) \<Rightarrow>
          (case decode_tag tag input e of Inl s \<Rightarrow> Inl s | Inr (e, input) \<Rightarrow> decode_edit input e))"
  by pat_completeness auto
termination
proof (relation "measure (\<lambda>(input, _). length input)")
  fix input :: Slice and e :: ManifestEdit and x tag q y e' q'
  assume "GetVarint32 input = Some x" "(tag, q) = x" "decode_tag tag q e = Inr y" "(e', q') = y"
  then show "((q', e'), input, e) \<in> measure (\<lambda>(input, _). length input)"
    using GetVarint32_shorter [of input tag q] decode_tag_shorter [of q tag e] by (auto simp: shrinks_def)
qed simp

declare decode_edit.simps [simp del]

definition DecodeFrom :: "Slice \<Rightarrow> status + ManifestEdit" where
  "DecodeFrom src = decode_edit src clear_edit"

section \<open>Round trip\<close>

lemma decode_edit_entry:
  assumes "decode_tag tag (body @ rest) e = Inr (e', rest)"
  shows "decode_edit (EncodeVarint32 tag @ body @ rest) e = decode_edit rest e'"
  using assms by (subst decode_edit.simps) simp

lemma decode_edit_Nil: "decode_edit [] e = Inr e"
proof -
  have "GetVarint32 [] = None" using GetVarint32_shorter [of "[]"] by (cases "GetVarint32 []") auto
  then show ?thesis by (subst decode_edit.simps) simp
qed

definition enc_opt :: "('a \<Rightarrow> Slice) \<Rightarrow> 'a option \<Rightarrow> Slice" where
  "enc_opt f x = (case x of None \<Rightarrow> [] | Some v \<Rightarrow> f v)"

definition enc_if :: "bool \<Rightarrow> Slice \<Rightarrow> Slice" where
  "enc_if b v = (if b then v else [])"

lemma put_opt_append: "(\<And>v dst. put v dst = dst @ f v) \<Longrightarrow> put_opt x put dst = dst @ enc_opt f x"
  by (simp add: put_opt_def enc_opt_def split: option.split)

lemma fold_append: "(\<And>x dst. x \<in> set xs \<Longrightarrow> put x dst = dst @ f x) \<Longrightarrow> fold put xs dst = dst @ concat (map f xs)"
  by (induction xs arbitrary: dst) simp_all

text \<open>The entries of single fields.\<close>

lemmas entry_defs = decode_tag_def tag_defs get1_def

definition str_ok :: "string option \<Rightarrow> bool" where
  "str_ok x \<longleftrightarrow> (case x of None \<Rightarrow> True | Some s \<Rightarrow> length s < 2 ^ 32)"

abbreviation enc_str :: "u32 \<Rightarrow> string \<Rightarrow> Slice" where
  "enc_str tag v \<equiv> EncodeVarint32 tag @ lp (bytes_of_string v)"

abbreviation enc_num :: "u32 \<Rightarrow> u64 \<Rightarrow> Slice" where
  "enc_num tag v \<equiv> EncodeVarint32 tag @ EncodeVarint64 v"

definition if_read :: "'a option \<Rightarrow> 'a option \<Rightarrow> 'a option" where
  "if_read x old = (case x of None \<Rightarrow> old | Some v \<Rightarrow> Some v)"

lemma if_read_None [simp]: "if_read x None = x"
  by (simp add: if_read_def split: option.split)

definition if_set :: "bool \<Rightarrow> 'a \<Rightarrow> 'a \<Rightarrow> 'a" where
  "if_set b v old = (if b then v else old)"

lemma if_set_self [simp]: "if_set (v \<noteq> old) v old = v" "if_set b True False = b"
  by (simp_all add: if_set_def)

lemma decode_strings:
  assumes "str_ok x"
  shows "decode_edit (enc_opt (enc_str kDbId) x @ rest) e = decode_edit rest (e\<lparr>db_id := if_read x (db_id e)\<rparr>)"
    and "decode_edit (enc_opt (enc_str kComparator) x @ rest) e =
      decode_edit rest (e\<lparr>comparator := if_read x (comparator e)\<rparr>)"
    and "decode_edit (enc_opt (enc_str kColumnFamilyAdd) x @ rest) e =
      decode_edit rest (e\<lparr>column_family_add := if_read x (column_family_add e)\<rparr>)"
  using assms
  by (cases x; simp add: enc_opt_def if_read_def str_ok_def; subst decode_edit_entry [OF _]; simp add: entry_defs)+

lemma decode_numbers:
  "decode_edit (enc_opt (enc_num kLogNumber) x @ rest) e = decode_edit rest (e\<lparr>log_number := if_read x (log_number e)\<rparr>)"
  "decode_edit (enc_opt (enc_num kPrevLogNumber) x @ rest) e =
    decode_edit rest (e\<lparr>prev_log_number := if_read x (prev_log_number e)\<rparr>)"
  "decode_edit (enc_opt (enc_num kNextFileNumber) x @ rest) e =
    decode_edit rest (e\<lparr>next_file_number := if_read x (next_file_number e)\<rparr>)"
  "decode_edit (enc_opt (enc_num kMinLogNumberToKeep) x @ rest) e =
    decode_edit rest (e\<lparr>min_log_to_keep := if_read x (min_log_to_keep e)\<rparr>)"
  "decode_edit (enc_opt (enc_num kLastSequence) x @ rest) e =
    decode_edit rest (e\<lparr>last_sequence := if_read x (last_sequence e)\<rparr>)"
  by (cases x; simp add: enc_opt_def if_read_def; subst decode_edit_entry [OF _]; simp add: entry_defs)+

lemma decode_numbers32:
  "decode_edit (enc_opt (\<lambda>v. EncodeVarint32 kMaxColumnFamily @ EncodeVarint32 v) x @ rest) e =
    decode_edit rest (e\<lparr>max_column_family := if_read x (max_column_family e)\<rparr>)"
  by (cases x; simp add: enc_opt_def if_read_def; subst decode_edit_entry [OF _]; simp add: entry_defs)

lemma decode_column_family:
  "decode_edit (enc_if (v \<noteq> 0) (EncodeVarint32 kColumnFamily @ EncodeVarint32 v) @ rest) e =
    decode_edit rest (e\<lparr>column_family := if_set (v \<noteq> 0) v (column_family e)\<rparr>)"
  by (cases "v = 0"; simp add: enc_if_def if_set_def; subst decode_edit_entry [OF _]; simp add: entry_defs)

lemma decode_drop:
  "decode_edit (enc_if b (EncodeVarint32 kColumnFamilyDrop) @ rest) e =
    decode_edit rest (e\<lparr>is_column_family_drop := if_set b True (is_column_family_drop e)\<rparr>)"
proof -
  have "decode_tag kColumnFamilyDrop ([] @ r) e = Inr (e\<lparr>is_column_family_drop := True\<rparr>, r)" for r
    by (simp add: entry_defs)
  from decode_edit_entry [OF this] show ?thesis by (simp add: enc_if_def if_set_def)
qed

lemma decode_atomic_group:
  "decode_edit (enc_if b (EncodeVarint32 kInAtomicGroup @ EncodeVarint32 v) @ rest) e =
    decode_edit rest (e\<lparr>is_in_atomic_group := if_set b True (is_in_atomic_group e),
      remaining_entries := if_set b v (remaining_entries e)\<rparr>)"
  by (cases b; simp add: enc_if_def if_set_def; subst decode_edit_entry [OF _]; simp add: entry_defs)

lemma decode_ts_low:
  assumes "length v < 2 ^ 32"
  shows "decode_edit (enc_if (v \<noteq> []) (EncodeVarint32 kFullHistoryTsLow @ lp v) @ rest) e =
    decode_edit rest (e\<lparr>full_history_ts_low := if_set (v \<noteq> []) v (full_history_ts_low e)\<rparr>)"
  using assms by (cases "v = []"; simp add: enc_if_def if_set_def; subst decode_edit_entry [OF _]; simp add: entry_defs)

lemma decode_persist:
  "decode_edit (enc_opt (\<lambda>b. EncodeVarint32 kPersistUserDefinedTimestamps @ lp [if b then 1 else 0]) x @ rest) e =
    decode_edit rest (e\<lparr>persist_user_defined_timestamps := if_read x (persist_user_defined_timestamps e)\<rparr>)"
proof (cases x)
  case (Some v)
  have "decode_tag kPersistUserDefinedTimestamps (lp [if v then 1 else 0] @ r) e =
      Inr (e\<lparr>persist_user_defined_timestamps := Some v\<rparr>, r)" for r
    by (cases v) (simp_all add: entry_defs)
  from decode_edit_entry [OF this] show ?thesis using Some by (simp add: enc_opt_def if_read_def)
qed (simp add: enc_opt_def if_read_def)

lemma decode_progress_entry:
  assumes "case x of None \<Rightarrow> True | Some p \<Rightarrow> progress_ok p \<and> length (Progress_EncodeTo p []) < 2 ^ 32"
  shows "decode_edit (enc_opt (\<lambda>p. EncodeVarint32 kSubcompactionProgress @ lp (Progress_EncodeTo p [])) x @ rest) e =
    decode_edit rest (e\<lparr>subcompaction_progress := if_read (map_option progress_delta x) (subcompaction_progress e)\<rparr>)"
proof (cases x)
  case (Some p)
  have "Progress_DecodeFrom (Progress_EncodeTo p []) = Inr (progress_delta p, [])"
    using Progress_roundtrip [of p "[]"] assms Some by simp
  then have "decode_tag kSubcompactionProgress (lp (Progress_EncodeTo p []) @ rest) e =
      Inr (e\<lparr>subcompaction_progress := Some (progress_delta p)\<rparr>, rest)"
    using assms Some by (simp add: entry_defs via_def prefixed_def)
  then show ?thesis using Some by (simp add: enc_opt_def if_read_def decode_edit_entry)
qed (simp add: enc_opt_def if_read_def)

lemmas decode_progress_last = decode_progress_entry [where rest = "[]", unfolded append_Nil2 decode_edit_Nil]

lemma decode_wal_deletion:
  "decode_edit (enc_if (n \<noteq> 0) (EncodeVarint32 kWalDeletion2 @ lp (WalDeletion_EncodeTo n [])) @ rest) e =
    decode_edit rest (e\<lparr>wal_deletion := if_set (n \<noteq> 0) n (wal_deletion e)\<rparr>)"
proof (cases "n = 0")
  case False
  have "length (WalDeletion_EncodeTo n []) < 2 ^ 32"
    using length_EncodeVarint64_le [of n] by (simp add: WalDeletion_EncodeTo_def put_append)
  then have "decode_tag kWalDeletion2 (lp (WalDeletion_EncodeTo n []) @ rest) e = Inr (e\<lparr>wal_deletion := n\<rparr>, rest)"
    using wal_del.dec_enc_all [of n] by (simp add: entry_defs via_def prefixed_def)
  then show ?thesis using False by (simp add: enc_if_def if_set_def decode_edit_entry)
qed (simp add: enc_if_def if_set_def)

text \<open>The entries that repeat.\<close>

definition level_ok32 :: "int \<Rightarrow> bool" where
  "level_ok32 l \<longleftrightarrow> - (2 ^ 31) \<le> l \<and> l < 2 ^ 31"

lemma GetLevel_Encode: "level_ok32 l \<Longrightarrow> GetLevel (EncodeVarint32 (word_of_int l) @ rest) m = Some (l, max m l, rest)"
  by (simp add: GetLevel_def level_ok32_def sint_level)

lemma decode_repeat:
  assumes "\<And>x r e. x \<in> set xs \<Longrightarrow> decode_tag tag (enc x @ r) e = Inr (g x e, r)"
  shows "decode_edit (concat (map (\<lambda>x. EncodeVarint32 tag @ enc x) xs) @ rest) e = decode_edit rest (fold g xs e)"
  using assms
proof (induction xs arbitrary: e)
  case (Cons x xs)
  have "decode_tag tag (enc x @ r) e = Inr (g x e, r)" for r using Cons.prems by simp
  from decode_edit_entry [OF this] show ?case using Cons by simp
qed simp

definition cursors_ok :: "(int \<times> Slice) list \<Rightarrow> bool" where
  "cursors_ok cs \<longleftrightarrow> (\<forall>c \<in> set cs. level_ok32 (fst c) \<and> InternalKey_Valid (snd c) \<and> length (snd c) < 2 ^ 32)"

definition enc_cursors :: "(int \<times> Slice) list \<Rightarrow> Slice" where
  "enc_cursors cs = concat (map (\<lambda>c. EncodeVarint32 kCompactCursor @ EncodeVarint32 (of_int (fst c)) @ lp (snd c)) cs)"

lemma put_cursors: "fold put_cursor cs dst = dst @ enc_cursors (filter (\<lambda>c. InternalKey_Valid (snd c)) cs)"
  by (induction cs arbitrary: dst) (simp_all add: put_cursor_def put_append enc_cursors_def)

lemma decode_cursors:
  assumes "cursors_ok cs"
  shows "decode_edit (enc_cursors cs @ rest) e =
    decode_edit rest (e\<lparr>max_level := fold max (map fst cs) (max_level e), compact_cursors := compact_cursors e @ cs\<rparr>)"
proof -
  define g where "g c e = e\<lparr>max_level := max (max_level e) (fst c), compact_cursors := compact_cursors e @ [c]\<rparr>"
    for c and e :: ManifestEdit
  have "decode_tag kCompactCursor ((EncodeVarint32 (of_int (fst c)) @ lp (snd c)) @ r) e = Inr (g c e, r)"
    if "c \<in> set cs" for c r e
    using assms that by (simp add: g_def cursors_ok_def entry_defs GetLevel_Encode GetInternalKey_def)
  from decode_repeat [OF this] have "decode_edit (enc_cursors cs @ rest) e = decode_edit rest (fold g cs e)"
    by (simp add: enc_cursors_def)
  moreover have "fold g cs e = e\<lparr>max_level := fold max (map fst cs) (max_level e), compact_cursors := compact_cursors e @ cs\<rparr>" for e
    by (induction cs arbitrary: e) (simp_all add: g_def max.commute)
  ultimately show ?thesis by simp
qed

definition enc_deleted :: "(int \<times> u64) list \<Rightarrow> Slice" where
  "enc_deleted ds = concat (map (\<lambda>d. EncodeVarint32 kDeletedFile @ EncodeVarint32 (of_int (fst d)) @ EncodeVarint64 (snd d)) ds)"

lemma put_deleted:
  "fold (\<lambda>(level, number) dst. PutVarint32Varint32Varint64 dst kDeletedFile (of_int level) number) ds dst = dst @ enc_deleted ds"
  unfolding enc_deleted_def by (rule fold_append) (simp add: put_append split: prod.split)

lemma decode_deleted:
  assumes "\<forall>d \<in> set ds. level_ok32 (fst d)"
  shows "decode_edit (enc_deleted ds @ rest) e =
    decode_edit rest (e\<lparr>max_level := fold max (map fst ds) (max_level e), deleted_files := deleted_files e \<union> set ds\<rparr>)"
proof -
  define g where "g d e = e\<lparr>max_level := max (max_level e) (fst d), deleted_files := insert d (deleted_files e)\<rparr>"
    for d and e :: ManifestEdit
  have "decode_tag kDeletedFile ((EncodeVarint32 (of_int (fst d)) @ EncodeVarint64 (snd d)) @ r) e = Inr (g d e, r)"
    if "d \<in> set ds" for d r e
    using assms that by (simp add: g_def entry_defs GetLevel_Encode)
  from decode_repeat [OF this] have "decode_edit (enc_deleted ds @ rest) e = decode_edit rest (fold g ds e)"
    by (simp add: enc_deleted_def)
  moreover have "fold g ds e = e\<lparr>max_level := fold max (map fst ds) (max_level e), deleted_files := deleted_files e \<union> set ds\<rparr>" for e
    by (induction ds arbitrary: e) (simp_all add: g_def max.commute)
  ultimately show ?thesis by simp
qed

definition enc_blobs :: "BlobFileAddition list \<Rightarrow> Slice" where
  "enc_blobs bs = concat (map (\<lambda>b. EncodeVarint32 kBlobFileAddition @ BlobFileAddition_EncodeTo b []) bs)"

lemma put_blobs:
  "fold (\<lambda>b dst. BlobFileAddition_EncodeTo b (PutVarint32 dst kBlobFileAddition)) bs dst = dst @ enc_blobs bs"
  unfolding enc_blobs_def by (rule fold_append) (simp add: BlobFileAddition_EncodeTo_def put_append)

lemma decode_blobs:
  assumes "\<forall>b \<in> set bs. blob_addition_ok b"
  shows "decode_edit (enc_blobs bs @ rest) e =
    decode_edit rest (e\<lparr>blob_file_additions := blob_file_additions e @ bs,
      files_to_quarantine := files_to_quarantine e @ map blob_file_number bs\<rparr>)"
proof -
  have "decode_tag kBlobFileAddition (BlobFileAddition_EncodeTo b [] @ r) e = Inr (AddBlobFile b e, r)"
    if "b \<in> set bs" for b r e
    using assms that by (simp add: entry_defs via_def blob_add.dec_enc)
  from decode_repeat [OF this] have "decode_edit (enc_blobs bs @ rest) e = decode_edit rest (fold AddBlobFile bs e)"
    by (simp add: enc_blobs_def)
  moreover have "fold AddBlobFile bs e = e\<lparr>blob_file_additions := blob_file_additions e @ bs,
      files_to_quarantine := files_to_quarantine e @ map blob_file_number bs\<rparr>" for e
    by (induction bs arbitrary: e) (simp_all add: AddBlobFile_def)
  ultimately show ?thesis by simp
qed

definition enc_garbages :: "BlobFileGarbage list \<Rightarrow> Slice" where
  "enc_garbages gs = concat (map (\<lambda>b. EncodeVarint32 kBlobFileGarbage @ BlobFileGarbage_EncodeTo b []) gs)"

lemma put_garbages:
  "fold (\<lambda>b dst. BlobFileGarbage_EncodeTo b (PutVarint32 dst kBlobFileGarbage)) gs dst = dst @ enc_garbages gs"
  unfolding enc_garbages_def by (rule fold_append) (simp add: BlobFileGarbage_EncodeTo_def put_append)

lemma decode_garbages:
  "decode_edit (enc_garbages gs @ rest) e = decode_edit rest (e\<lparr>blob_file_garbages := blob_file_garbages e @ gs\<rparr>)"
proof -
  define g where "g b e = e\<lparr>blob_file_garbages := blob_file_garbages e @ [b]\<rparr>" for b and e :: ManifestEdit
  have "decode_tag kBlobFileGarbage (BlobFileGarbage_EncodeTo b [] @ r) e = Inr (g b e, r)" for b r e
    by (simp add: g_def entry_defs via_def blob_garbage.dec_enc)
  from decode_repeat [OF this] have "decode_edit (enc_garbages gs @ rest) e = decode_edit rest (fold g gs e)"
    by (simp add: enc_garbages_def)
  moreover have "fold g gs e = e\<lparr>blob_file_garbages := blob_file_garbages e @ gs\<rparr>" for e
    by (induction gs arbitrary: e) (simp_all add: g_def)
  ultimately show ?thesis by simp
qed

definition enc_wals :: "WalAddition list \<Rightarrow> Slice" where
  "enc_wals ws = concat (map (\<lambda>w. EncodeVarint32 kWalAddition2 @ lp (WalAddition_EncodeTo w [])) ws)"

lemma put_wals:
  "fold (\<lambda>w dst. PutLengthPrefixedSlice (PutVarint32 dst kWalAddition2) (WalAddition_EncodeTo w [])) ws dst = dst @ enc_wals ws"
  unfolding enc_wals_def by (rule fold_append) (simp add: put_append)

lemma length_WalAddition: "length (WalAddition_EncodeTo w []) < 2 ^ 32"
  using length_EncodeVarint64_le [of "wal_number w"] length_EncodeVarint64_le [of "synced_size_bytes w"]
    length_EncodeVarint32_le [of kSyncedSize] length_EncodeVarint32_le [of kWalTerminate]
  by (simp add: WalAddition_EncodeTo_def put_append Let_def)

lemma decode_wals:
  "decode_edit (enc_wals ws @ rest) e = decode_edit rest (e\<lparr>wal_additions := wal_additions e @ ws\<rparr>)"
proof -
  define g where "g w e = e\<lparr>wal_additions := wal_additions e @ [w]\<rparr>" for w and e :: ManifestEdit
  have "decode_tag kWalAddition2 (lp (WalAddition_EncodeTo w []) @ r) e = Inr (g w e, r)" for w r e
    using length_WalAddition [of w] by (simp add: g_def entry_defs via_def prefixed_def wal_add.dec_enc_all)
  from decode_repeat [OF this] have "decode_edit (enc_wals ws @ rest) e = decode_edit rest (fold g ws e)"
    by (simp add: enc_wals_def)
  moreover have "fold g ws e = e\<lparr>wal_additions := wal_additions e @ ws\<rparr>" for e
    by (induction ws arbitrary: e) (simp_all add: g_def)
  ultimately show ?thesis by simp
qed

text \<open>The file that is written: without persisted timestamps the boundaries lose theirs.\<close>

definition stored_file :: "nat \<Rightarrow> FileMetaData \<Rightarrow> FileMetaData" where
  "stored_file ts_sz f =
     (if ts_sz = 0 \<or> user_defined_timestamps_persisted f then f
      else f\<lparr>smallest := StripTimestampFromInternalKey [] (smallest f) ts_sz,
             largest := StripTimestampFromInternalKey [] (largest f) ts_sz\<rparr>)"

definition stored_files :: "nat \<Rightarrow> (int \<times> FileMetaData) list \<Rightarrow> (int \<times> FileMetaData) list" where
  "stored_files ts_sz fs = map (\<lambda>(level, f). (level, stored_file ts_sz f)) fs"

lemma stored_files_simps [simp]:
  "stored_files ts_sz [] = []" "stored_files ts_sz ((l, f) # fs) = (l, stored_file ts_sz f) # stored_files ts_sz fs"
  by (simp_all add: stored_files_def)

lemma EncodeToNewFile4_stored: "EncodeToNewFile4 f level ts_sz ml w dst = EncodeToNewFile4 (stored_file ts_sz f) level 0 ml w dst"
proof -
  have "EncodeFileBoundaries d f ts_sz = EncodeFileBoundaries d (stored_file ts_sz f) 0" for d
    by (simp add: EncodeFileBoundaries_def stored_file_def)
  moreover have "fd (stored_file ts_sz f) = fd f" "oldest_ancester_time (stored_file ts_sz f) = oldest_ancester_time f"
    "file_creation_time (stored_file ts_sz f) = file_creation_time f" "epoch_number (stored_file ts_sz f) = epoch_number f"
    "file_checksum (stored_file ts_sz f) = file_checksum f" "file_checksum_func_name (stored_file ts_sz f) = file_checksum_func_name f"
    "temperature (stored_file ts_sz f) = temperature f" "marked_for_compaction (stored_file ts_sz f) = marked_for_compaction f"
    "oldest_blob_file_number (stored_file ts_sz f) = oldest_blob_file_number f" "unique_id (stored_file ts_sz f) = unique_id f"
    "compensated_range_deletion_size (stored_file ts_sz f) = compensated_range_deletion_size f"
    "tail_size (stored_file ts_sz f) = tail_size f"
    "user_defined_timestamps_persisted (stored_file ts_sz f) = user_defined_timestamps_persisted f"
    by (simp_all add: stored_file_def)
  ultimately show ?thesis unfolding EncodeToNewFile4_def by (simp only:)
qed

lemma strip_valid:
  assumes "InternalKey_Valid k" "8 + ts_sz \<le> length k"
  shows "InternalKey_Valid (StripTimestampFromInternalKey [] k ts_sz)"
    "length (StripTimestampFromInternalKey [] k ts_sz) = length k - ts_sz"
proof -
  let ?s = "StripTimestampFromInternalKey [] k ts_sz"
  show l: "length ?s = length k - ts_sz" using assms(2) by (simp add: StripTimestampFromInternalKey_def)
  have "length k - 8 - ts_sz = length k - ts_sz - 8" by simp
  then have d: "drop (length ?s - 8) ?s = drop (length k - 8) k"
    using assms(2) unfolding l by (simp add: StripTimestampFromInternalKey_def)
  have "\<not> length ?s < 8" "\<not> length k < 8" using assms(2) l by simp_all
  then show "InternalKey_Valid ?s"
    using assms(1) unfolding InternalKey_Valid_def ParseInternalKey_def d
    by (auto simp: Let_def split: option.splits if_splits)
qed

text \<open>The encoder's test, and what else a file needs to be read back.\<close>

definition storable :: "FileMetaData \<Rightarrow> bool" where
  "storable f \<longleftrightarrow> InternalKey_Valid (smallest f) \<and> InternalKey_Valid (largest f) \<and> epoch_number f \<noteq> 0"

definition stamped :: "nat \<Rightarrow> FileMetaData \<Rightarrow> bool" where
  "stamped ts_sz f \<longleftrightarrow> ts_sz = 0 \<or> user_defined_timestamps_persisted f \<or>
     8 + ts_sz \<le> length (smallest f) \<and> 8 + ts_sz \<le> length (largest f)"

lemma file_ok_stored: "file_ok f \<Longrightarrow> stamped ts_sz f \<Longrightarrow> file_ok (stored_file ts_sz f)"
  using strip_valid [of "smallest f" ts_sz] strip_valid [of "largest f" ts_sz]
  by (auto simp: file_ok_def stored_file_def stamped_def)

lemma put_files_None: "\<not> (\<forall>(l, f) \<in> set fs. storable f) \<Longrightarrow> put_files fs ts_sz ml w dst = None"
proof (induction fs arbitrary: w dst)
  case (Cons lf fs)
  obtain l f where lf: "lf = (l, f)" by fastforce
  show ?case
  proof (cases "storable f")
    case True
    then have "put_files fs ts_sz ml w' dst' = None" for w' dst' using Cons.prems by (intro Cons.IH) (auto simp: lf)
    then show ?thesis by (simp add: lf split_beta Let_def)
  qed (simp add: lf storable_def)
qed simp

lemma decode_files:
  assumes "\<forall>(l, f) \<in> set fs. level_ok32 l \<and> file_ok f \<and> epoch_number f \<noteq> 0 \<and> stamped ts_sz f"
  shows "\<exists>body. (\<forall>dst. put_files fs ts_sz ml w dst = Some (dst @ body)) \<and>
    (\<forall>rest e. min_log_to_keep e = ml \<longrightarrow> decode_edit (body @ rest) e =
      decode_edit rest (e\<lparr>max_level := fold max (map fst fs) (max_level e), new_files := new_files e @ stored_files ts_sz fs\<rparr>))"
  using assms
proof (induction fs arbitrary: w)
  case (Cons lf fs)
  obtain l f where lf: "lf = (l, f)" by fastforce
  have ok: "level_ok32 l" "file_ok f" "epoch_number f \<noteq> 0" "stamped ts_sz f"
    using Cons.prems lf by auto
  have lv: "- (2 ^ 31) \<le> l" "l < 2 ^ 31" using ok(1) by (simp_all add: level_ok32_def)
  obtain b1 where b1: "\<And>dst. EncodeToNewFile4 f l ts_sz ml w dst = (dst @ EncodeVarint32 kNewFile4 @ b1, w \<or> ml \<noteq> None)"
      "\<And>rest mx ml0. DecodeNewFile4From (b1 @ rest) mx ml0 = Inr (\<lparr>nf_level = l, nf_max_level = max mx l,
        nf_min_log = (case min_log_arg ml w of None \<Rightarrow> ml0 | Some n \<Rightarrow> Some n), nf_file = stored_file ts_sz f\<rparr>, rest)"
    using new_file_body [OF file_ok_stored [OF ok(2,4)] _ lv, of 0 ml w] by (auto simp: EncodeToNewFile4_stored [of f l ts_sz])
  obtain b2 where b2: "\<And>dst. put_files fs ts_sz ml (w \<or> ml \<noteq> None) dst = Some (dst @ b2)"
      "\<And>rest e. min_log_to_keep e = ml \<Longrightarrow> decode_edit (b2 @ rest) e =
        decode_edit rest (e\<lparr>max_level := fold max (map fst fs) (max_level e), new_files := new_files e @ stored_files ts_sz fs\<rparr>)"
    using Cons.IH [of "w \<or> ml \<noteq> None"] Cons.prems by auto
  have v: "InternalKey_Valid (smallest f)" "InternalKey_Valid (largest f)" using ok(2) by (simp_all add: file_ok_def)
  have "put_files (lf # fs) ts_sz ml w dst = Some (dst @ (EncodeVarint32 kNewFile4 @ b1) @ b2)" for dst
    using b2(1) [of "dst @ EncodeVarint32 kNewFile4 @ b1"] by (simp add: lf v ok(3) b1(1))
  moreover have "decode_edit (((EncodeVarint32 kNewFile4 @ b1) @ b2) @ rest) e =
      decode_edit rest (e\<lparr>max_level := fold max (map fst (lf # fs)) (max_level e), new_files := new_files e @ stored_files ts_sz (lf # fs)\<rparr>)"
    if "min_log_to_keep e = ml" for rest e
  proof -
    have "decode_tag kNewFile4 (b1 @ r) e = Inr (e\<lparr>max_level := max (max_level e) l, new_files := new_files e @ [(l, stored_file ts_sz f)]\<rparr>, r)" for r
      using b1(2) [of r "max_level e" "min_log_to_keep e"] that
      by (auto simp: entry_defs min_log_arg_def split: option.split)
    from decode_edit_entry [OF this] show ?thesis using b2(2) that by (simp add: lf max.commute)
  qed
  ultimately show ?case by blast
qed simp

text \<open>What an edit must be to be written and read back, and the edit that is read.\<close>

definition files_ok :: "(int \<times> FileMetaData) list \<Rightarrow> nat \<Rightarrow> bool" where
  "files_ok fs ts_sz \<longleftrightarrow> (\<forall>(l, f) \<in> set fs. level_ok32 l \<and> (storable f \<longrightarrow> file_ok f \<and> stamped ts_sz f))"

definition valid_cursors :: "ManifestEdit \<Rightarrow> (int \<times> Slice) list" where
  "valid_cursors e = filter (\<lambda>c. InternalKey_Valid (snd c)) (compact_cursors e)"

definition edit_ok :: "ManifestEdit \<Rightarrow> nat \<Rightarrow> bool" where
  "edit_ok e ts_sz \<longleftrightarrow> str_ok (db_id e) \<and> str_ok (comparator e) \<and> str_ok (column_family_add e) \<and>
     cursors_ok (valid_cursors e) \<and> finite (deleted_files e) \<and> (\<forall>d \<in> deleted_files e. level_ok32 (fst d)) \<and>
     files_ok (new_files e) ts_sz \<and> (\<forall>b \<in> set (blob_file_additions e). blob_addition_ok b) \<and>
     length (full_history_ts_low e) < 2 ^ 32 \<and>
     (case subcompaction_progress e of None \<Rightarrow> True | Some p \<Rightarrow> progress_ok p \<and> length (Progress_EncodeTo p []) < 2 ^ 32)"

text \<open>Every edit that the operations build is such an edit.\<close>

inductive built :: "nat \<Rightarrow> ManifestEdit \<Rightarrow> bool" for ts_sz where
  clear: "built ts_sz clear_edit"
| db_id: "built ts_sz e \<Longrightarrow> length v < 2 ^ 32 \<Longrightarrow> built ts_sz (SetDBId v e)"
| comparator: "built ts_sz e \<Longrightarrow> length n < 2 ^ 32 \<Longrightarrow> built ts_sz (SetComparatorName n e)"
| numbers: "built ts_sz e \<Longrightarrow> f \<in> {SetLogNumber v, SetPrevLogNumber v, SetNextFile v, SetMinLogNumberToKeep v,
      SetLastSequence v, Edit_DeleteWalsBefore v} \<Longrightarrow> built ts_sz (f e)"
| numbers32: "built ts_sz e \<Longrightarrow> f \<in> {SetMaxColumnFamily u, SetColumnFamily u, MarkAtomicGroup u, SetRemainingEntries u} \<Longrightarrow>
    built ts_sz (f e)"
| flags: "built ts_sz e \<Longrightarrow> f \<in> {SetPersistUserDefinedTimestamps b, DropColumnFamily, MarkNoManifestWriteDummy,
      ClearSubcompactionProgress} \<Longrightarrow> built ts_sz (f e)"
| cursor: "built ts_sz e \<Longrightarrow> level_ok32 l \<Longrightarrow> length k < 2 ^ 32 \<Longrightarrow> built ts_sz (AddCompactCursor l k e)"
| cursors: "built ts_sz e \<Longrightarrow> length ks < 2 ^ 31 \<Longrightarrow> \<forall>k \<in> set ks. length k < 2 ^ 32 \<Longrightarrow> built ts_sz (SetCompactCursors ks e)"
| delete: "built ts_sz e \<Longrightarrow> level_ok32 l \<Longrightarrow> built ts_sz (DeleteFile l n e)"
| add: "built ts_sz e \<Longrightarrow> files_ok [(l, m)] ts_sz \<Longrightarrow> built ts_sz (AddFile l m e)"
| blob: "built ts_sz e \<Longrightarrow> blob_addition_ok a \<Longrightarrow> built ts_sz (AddBlobFile a e)"
| blobs: "built ts_sz e \<Longrightarrow> \<forall>a \<in> set as. blob_addition_ok a \<Longrightarrow> built ts_sz (SetBlobFileAdditions as e)"
| garbage: "built ts_sz e \<Longrightarrow> f \<in> {AddBlobFileGarbage g, SetBlobFileGarbages gs} \<Longrightarrow> built ts_sz (f e)"
| wal: "built ts_sz e \<Longrightarrow> built ts_sz (Edit_AddWal w e)"
| family: "built ts_sz e \<Longrightarrow> length v < 2 ^ 32 \<Longrightarrow> built ts_sz (AddColumnFamily v e)"
| ts_low: "built ts_sz e \<Longrightarrow> length k < 2 ^ 32 \<Longrightarrow> built ts_sz (SetFullHistoryTsLow k e)"
| progress: "built ts_sz e \<Longrightarrow> progress_ok p \<Longrightarrow> length (Progress_EncodeTo p []) < 2 ^ 32 \<Longrightarrow>
    built ts_sz (SetSubcompactionProgress p e)"

lemmas set_defs = SetDBId_def SetComparatorName_def SetLogNumber_def SetPrevLogNumber_def SetNextFile_def
  SetMinLogNumberToKeep_def SetLastSequence_def Edit_DeleteWalsBefore_def SetMaxColumnFamily_def SetColumnFamily_def
  MarkAtomicGroup_def SetRemainingEntries_def SetPersistUserDefinedTimestamps_def DropColumnFamily_def
  MarkNoManifestWriteDummy_def ClearSubcompactionProgress_def AddCompactCursor_def SetCompactCursors_def DeleteFile_def
  AddFile_def AddBlobFile_def SetBlobFileAdditions_def AddBlobFileGarbage_def SetBlobFileGarbages_def Edit_AddWal_def
  AddColumnFamily_def SetFullHistoryTsLow_def SetSubcompactionProgress_def

lemma SetCompactCursors_ok:
  "length ks < 2 ^ 31 \<Longrightarrow> \<forall>k \<in> set ks. length k < 2 ^ 32 \<Longrightarrow>
    cursors_ok [(int i, k). (i, k) \<leftarrow> enumerate 0 ks, InternalKey_Valid k]"
  by (auto simp: cursors_ok_def level_ok32_def in_set_enumerate_eq split: if_splits)

lemma cursors_ok_filter: "cursors_ok cs \<Longrightarrow> cursors_ok (filter P cs)"
  by (simp add: cursors_ok_def)

lemma built_ok: "built ts_sz e \<Longrightarrow> edit_ok e ts_sz"
proof (induction rule: built.induct)
  case clear
  show ?case by (simp add: edit_ok_def clear_edit_def str_ok_def valid_cursors_def cursors_ok_def files_ok_def)
next
  case (cursors e ks)
  then show ?case using cursors_ok_filter [OF SetCompactCursors_ok [of ks]]
    by (simp add: edit_ok_def SetCompactCursors_def valid_cursors_def)
next
  case (add e l m)
  then show ?case
    by (auto simp: edit_ok_def AddFile_def SetLastSequence_def Let_def files_ok_def valid_cursors_def split: option.splits)
qed (auto simp: edit_ok_def set_defs str_ok_def valid_cursors_def cursors_ok_def ToString_def)

definition read_back :: "nat \<Rightarrow> ManifestEdit \<Rightarrow> ManifestEdit" where
  "read_back ts_sz e = e\<lparr>
     compact_cursors := valid_cursors e,
     new_files := stored_files ts_sz (new_files e),
     max_level := Max (insert 0 (fst ` set (valid_cursors e) \<union> fst ` deleted_files e \<union> fst ` set (new_files e))),
     files_to_quarantine := map blob_file_number (blob_file_additions e),
     remaining_entries := if is_in_atomic_group e then remaining_entries e else 0,
     subcompaction_progress := map_option progress_delta (subcompaction_progress e)\<rparr>"

lemma fold_max_levels: "fold max (c :: int list) (fold max b (fold max a 0)) = Max (insert 0 (set a \<union> set b \<union> set c))"
  using Max.set_eq_fold [of "0 :: int" "a @ b @ c"] by (simp add: Un_assoc)

definition head_entries :: "ManifestEdit \<Rightarrow> Slice" where
  "head_entries e =
     enc_opt (enc_str kDbId) (db_id e) @ enc_opt (enc_str kComparator) (comparator e) @
     enc_opt (enc_num kLogNumber) (log_number e) @ enc_opt (enc_num kPrevLogNumber) (prev_log_number e) @
     enc_opt (enc_num kNextFileNumber) (next_file_number e) @
     enc_opt (\<lambda>v. EncodeVarint32 kMaxColumnFamily @ EncodeVarint32 v) (max_column_family e) @
     enc_opt (enc_num kMinLogNumberToKeep) (min_log_to_keep e) @ enc_opt (enc_num kLastSequence) (last_sequence e) @
     enc_cursors (valid_cursors e) @ enc_deleted (sorted_list_of_set (deleted_files e))"

definition tail_entries :: "ManifestEdit \<Rightarrow> Slice" where
  "tail_entries e =
     enc_blobs (blob_file_additions e) @ enc_garbages (blob_file_garbages e) @ enc_wals (wal_additions e) @
     enc_if (wal_deletion e \<noteq> 0) (EncodeVarint32 kWalDeletion2 @ lp (WalDeletion_EncodeTo (wal_deletion e) [])) @
     enc_if (column_family e \<noteq> 0) (EncodeVarint32 kColumnFamily @ EncodeVarint32 (column_family e)) @
     enc_opt (enc_str kColumnFamilyAdd) (column_family_add e) @
     enc_if (is_column_family_drop e) (EncodeVarint32 kColumnFamilyDrop) @
     enc_if (is_in_atomic_group e) (EncodeVarint32 kInAtomicGroup @ EncodeVarint32 (remaining_entries e)) @
     enc_if (full_history_ts_low e \<noteq> []) (EncodeVarint32 kFullHistoryTsLow @ lp (full_history_ts_low e)) @
     enc_opt (\<lambda>b. EncodeVarint32 kPersistUserDefinedTimestamps @ lp [if b then 1 else 0]) (persist_user_defined_timestamps e) @
     enc_opt (\<lambda>p. EncodeVarint32 kSubcompactionProgress @ lp (Progress_EncodeTo p [])) (subcompaction_progress e)"

lemma EncodeTo_entries:
  assumes "\<And>dst. put_files (new_files e) ts_sz (min_log_to_keep e) False dst = Some (dst @ body)"
  shows "EncodeTo e ts_sz = Some (head_entries e @ body @ tail_entries e)"
proof -
  have o: "put_opt x (put_string tag) dst = dst @ enc_opt (enc_str tag) x"
    "put_opt y (\<lambda>v dst. PutVarint32Varint64 dst tag v) dst = dst @ enc_opt (enc_num tag) y"
    "put_opt z (\<lambda>v dst. PutVarint32Varint32 dst tag v) dst = dst @ enc_opt (\<lambda>v. EncodeVarint32 tag @ EncodeVarint32 v) z"
    "put_opt a (\<lambda>b dst. PutLengthPrefixedSlice (PutVarint32 dst tag) [if b then 1 else 0]) dst =
      dst @ enc_opt (\<lambda>b. EncodeVarint32 tag @ lp [if b then 1 else 0]) a"
    "put_opt p (\<lambda>p dst. PutLengthPrefixedSlice (PutVarint32 dst tag) (Progress_EncodeTo p [])) dst =
      dst @ enc_opt (\<lambda>p. EncodeVarint32 tag @ lp (Progress_EncodeTo p [])) p"
    for tag dst x y z a p
    by (rule put_opt_append, simp add: put_string_def put_append)+
  have i: "(if b then PutLengthPrefixedSlice (PutVarint32 dst tag) v else dst) = dst @ enc_if b (EncodeVarint32 tag @ lp v)"
    "(if b then PutVarint32Varint32 dst tag n else dst) = dst @ enc_if b (EncodeVarint32 tag @ EncodeVarint32 n)"
    "(if b then PutVarint32 (PutVarint32 dst tag) n else dst) = dst @ enc_if b (EncodeVarint32 tag @ EncodeVarint32 n)"
    "(if b then PutVarint32 dst tag else dst) = dst @ enc_if b (EncodeVarint32 tag)" for b tag dst v n
    by (simp_all add: enc_if_def put_append)
  show ?thesis
    unfolding EncodeTo_def Let_def o put_cursors put_deleted assms option.case put_blobs put_garbages put_wals i
    by (simp add: head_entries_def tail_entries_def valid_cursors_def)
qed

definition after_head :: "ManifestEdit \<Rightarrow> ManifestEdit" where
  "after_head e = clear_edit\<lparr>db_id := db_id e, comparator := comparator e, log_number := log_number e,
     prev_log_number := prev_log_number e, next_file_number := next_file_number e, max_column_family := max_column_family e,
     min_log_to_keep := min_log_to_keep e, last_sequence := last_sequence e, compact_cursors := valid_cursors e,
     deleted_files := deleted_files e,
     max_level := fold max (map fst (sorted_list_of_set (deleted_files e))) (fold max (map fst (valid_cursors e)) 0)\<rparr>"

lemma decode_head:
  assumes "edit_ok e ts_sz"
  shows "decode_edit (head_entries e @ rest) clear_edit = decode_edit rest (after_head e)"
proof -
  note ok = assms [unfolded edit_ok_def]
  have "\<forall>d \<in> set (sorted_list_of_set (deleted_files e)). level_ok32 (fst d)" using ok by simp
  then show ?thesis
    using ok unfolding head_entries_def append_assoc
    by (simp add: decode_strings decode_numbers decode_numbers32 decode_cursors decode_deleted)
      (simp add: after_head_def clear_edit_def)
qed

lemma decode_tail:
  assumes "edit_ok e ts_sz" "mx = fold max (map fst (new_files e)) (max_level (after_head e))" "\<not> is_no_manifest_write_dummy e"
  shows "decode_edit (tail_entries e)
      ((after_head e)\<lparr>max_level := mx, new_files := stored_files ts_sz (new_files e)\<rparr>) = Inr (read_back ts_sz e)"
proof -
  note ok = assms(1) [unfolded edit_ok_def]
  have mx: "mx = Max (insert 0 (fst ` set (valid_cursors e) \<union> fst ` deleted_files e \<union> fst ` set (new_files e)))"
    using assms(2) ok fold_max_levels [of "map fst (new_files e)" "map fst (sorted_list_of_set (deleted_files e))"
        "map fst (valid_cursors e)"]
    by (simp add: after_head_def)
  show ?thesis
    using ok unfolding tail_entries_def
    by (simp add: decode_strings decode_atomic_group decode_column_family decode_drop decode_ts_low decode_persist
        decode_progress_last decode_wal_deletion decode_blobs decode_garbages decode_wals)
      (simp add: after_head_def clear_edit_def read_back_def mx assms(3) if_set_def [of "is_in_atomic_group e"])
qed

lemma encoded_edit:
  assumes "edit_ok e ts_sz" "\<not> is_no_manifest_write_dummy e" "\<forall>(l, f) \<in> set (new_files e). storable f"
  shows "\<exists>record. EncodeTo e ts_sz = Some record \<and> DecodeFrom record = Inr (read_back ts_sz e)"
proof -
  have ok: "\<forall>(l, f) \<in> set (new_files e). level_ok32 l \<and> file_ok f \<and> epoch_number f \<noteq> 0 \<and> stamped ts_sz f"
    using assms(1,3) by (auto simp: edit_ok_def files_ok_def storable_def)
  obtain body where b: "\<And>dst. put_files (new_files e) ts_sz (min_log_to_keep e) False dst = Some (dst @ body)"
      "\<And>rest e0. min_log_to_keep e0 = min_log_to_keep e \<Longrightarrow> decode_edit (body @ rest) e0 =
        decode_edit rest (e0\<lparr>max_level := fold max (map fst (new_files e)) (max_level e0),
          new_files := new_files e0 @ stored_files ts_sz (new_files e)\<rparr>)"
    using decode_files [OF ok, of "min_log_to_keep e" False] by blast
  have "DecodeFrom (head_entries e @ body @ tail_entries e) = Inr (read_back ts_sz e)"
    using decode_tail [OF assms(1) refl assms(2)] b(2) [of "after_head e" "tail_entries e"]
    by (simp add: DecodeFrom_def decode_head [OF assms(1)]) (simp add: after_head_def clear_edit_def)
  then show ?thesis using EncodeTo_entries [OF b(1)] by blast
qed

lemma refused_edit:
  assumes "\<not> (\<forall>(l, f) \<in> set (new_files e). storable f)"
  shows "EncodeTo e ts_sz = None"
  unfolding EncodeTo_def Let_def put_files_None [OF assms] option.case by (rule refl)

text \<open>C13: Writing an edit and reading it. Take any edit that the operations build from the empty one, with levels
  that fit in 32 bits, strings whose length fits, well-formed progress and files whose metadata the format can hold
  (and, where timestamps are not persisted, keys that have one), that satisfies the encoder's assertions. If a new
  file has an invalid key or an unknown epoch the encoder refuses the edit. Otherwise the edit is written, and the
  decoder returns every scalar field, the set of deleted files, every new file with all its metadata, and the blob
  and log records. Six fields come back in another form: boundaries without persisted timestamps lose their
  timestamps, invalid cursors are left out, the maximum level is the largest level read, the quarantined files are
  those of the blob additions, the progress is the part that is not persisted yet, and the size of an atomic group
  is read only inside one.\<close>

theorem edit_roundtrip:
  assumes "built ts_sz e" "EncodeTo_asserts e"
  shows "if \<forall>(l, f) \<in> set (new_files e).
           InternalKey_Valid (smallest f) \<and> InternalKey_Valid (largest f) \<and> epoch_number f \<noteq> 0
         then \<exists>record. EncodeTo e ts_sz = Some record \<and> DecodeFrom record = Inr (read_back ts_sz e)
         else EncodeTo e ts_sz = None"
  using encoded_edit [OF built_ok [OF assms(1)]] refused_edit [of e ts_sz] assms(2)
  unfolding EncodeTo_asserts_def storable_def by auto

definition sample_file :: FileMetaData where
  "sample_file = default_file\<lparr>smallest := replicate 8 0, largest := replicate 9 0, epoch_number := 3\<rparr>"

definition sample_edit :: ManifestEdit where
  "sample_edit = MarkAtomicGroup 1 (Edit_AddWal \<lparr>wal_number = 5, synced_size_bytes = 100\<rparr>
     (AddFile 2 sample_file (DeleteFile 1 9 (DeleteFile 0 12 (AddCompactCursor 1 (replicate 8 0)
       (SetLogNumber 7 (SetDBId ''d'' clear_edit)))))))"

text \<open>The same with a second file, whose keys have a one-byte timestamp that is not persisted.\<close>

definition stamped_file :: FileMetaData where
  "stamped_file = sample_file\<lparr>smallest := 5 # replicate 8 0, user_defined_timestamps_persisted := False\<rparr>"

lemma sample_file_ok: "file_ok sample_file" "InternalKey_Valid (replicate 8 0)"
proof -
  show v: "InternalKey_Valid (replicate 8 0)" by code_simp
  have "InternalKey_Valid (replicate 9 0)" by code_simp
  then show "file_ok sample_file"
    using v by (simp add: sample_file_def file_ok_def default_file_def kLastTemperature_def kUnknownFileChecksumFuncName_def)
qed

lemma stamped_file_ok: "file_ok stamped_file" "stamped 1 stamped_file" "storable stamped_file" "storable sample_file"
proof -
  have "InternalKey_Valid (5 # replicate 8 0)" by code_simp
  then show "file_ok stamped_file" "stamped 1 stamped_file" "storable stamped_file" "storable sample_file"
    using sample_file_ok
    by (simp_all add: stamped_file_def sample_file_def file_ok_def stamped_def storable_def default_file_def
        kLastTemperature_def kUnknownFileChecksumFuncName_def)
qed

theorem edit_roundtrip_witness:
  "(\<exists>record. EncodeTo (AddFile 3 stamped_file sample_edit) 1 = Some record \<and>
    DecodeFrom record = Inr (sample_edit\<lparr>max_level := 3, files_to_quarantine := [],
      new_files := [(2, sample_file), (3, stamped_file\<lparr>smallest := replicate 8 0, largest := replicate 8 0\<rparr>)]\<rparr>)) \<and>
   EncodeTo (AddFile 3 (stamped_file\<lparr>epoch_number := 0\<rparr>) sample_edit) 1 = None"
proof -
  have f: "files_ok [(2, sample_file)] 1" "files_ok [(3, stamped_file)] 1" "files_ok [(3, stamped_file\<lparr>epoch_number := 0\<rparr>)] 1"
    using sample_file_ok stamped_file_ok
    by (simp_all add: files_ok_def level_ok32_def storable_def) (simp add: stamped_def sample_file_def default_file_def)
  have ok: "built 1 sample_edit"
    unfolding sample_edit_def
    by (rule built.numbers32 [where u = 1, OF built.wal [OF built.add [OF built.delete [OF built.delete [OF built.cursor
          [OF built.numbers [where v = 7, OF built.db_id [OF built.clear]]]]]]]])
      (use f sample_file_ok in \<open>simp_all add: level_ok32_def\<close>)
  note B = built.add [OF ok f(2)] built.add [OF ok f(3)]
  have a: "EncodeTo_asserts (AddFile l m sample_edit)" for l m
    by (simp add: EncodeTo_asserts_def sample_edit_def clear_edit_def set_defs Let_def split: option.split)
  have nf: "new_files (AddFile l m sample_edit) = [(2, sample_file), (l, m)]" for l m
    by (simp add: sample_edit_def clear_edit_def set_defs Let_def split: option.split)
  have "read_back 1 (AddFile 3 stamped_file sample_edit) = sample_edit\<lparr>max_level := 3, files_to_quarantine := [],
      new_files := [(2, sample_file), (3, stamped_file\<lparr>smallest := replicate 8 0, largest := replicate 8 0\<rparr>)]\<rparr>"
    using sample_file_ok(2)
    by (simp add: sample_edit_def clear_edit_def read_back_def valid_cursors_def set_defs stamped_file_def sample_file_def
        default_file_def stored_file_def StripTimestampFromInternalKey_def)
  then show ?thesis
    using edit_roundtrip [OF B(1) a] edit_roundtrip [OF B(2) a] stamped_file_ok(3,4) unfolding nf
    by (simp add: storable_def)
qed

end
