(* ===== verification/Progress_Log.thy ===== *)
theory Progress_Log
  imports Edit_Codec
begin

text \<open>
  Resuming a compaction: \<open>CompactionJob\<close> persists its progress after an output file
  (\<open>db/compaction/compaction_job.cc\<close>), and \<open>DBImplSecondary::ParseCompactionProgressFile\<close>
  (\<open>db/db_impl/db_impl_secondary.cc\<close>) rebuilds it with a \<open>SubcompactionProgressBuilder\<close>.
  The writer and the reader of the log file are parameters. The main result is that
  reading the log of a run gives the progress at its last persisted point.
\<close>

section \<open>The builder\<close>

record SubcompactionProgressBuilder =
  accumulated_subcompaction_progress :: SubcompactionProgress
  has_subcompaction_progress :: bool

definition Builder_Clear :: SubcompactionProgressBuilder where
  "Builder_Clear = \<lparr>accumulated_subcompaction_progress = clear_progress, has_subcompaction_progress = False\<rparr>"

definition ProcessVersionEdit :: "ManifestEdit \<Rightarrow> SubcompactionProgressBuilder \<Rightarrow> bool \<times> SubcompactionProgressBuilder" where
  "ProcessVersionEdit edit b =
     (case subcompaction_progress edit of
        None \<Rightarrow> (False, b)
      | Some p \<Rightarrow>
          (True, b\<lparr>accumulated_subcompaction_progress := MergeDeltaProgress (accumulated_subcompaction_progress b) p,
                   has_subcompaction_progress := True\<rparr>))"

section \<open>Reading the log\<close>

text \<open>
  A record of the log comes with the status of the reader at that time. The loop ends
  after the last record, at a record that does not decode, and at one without progress.
\<close>

fun parse_records :: "(status \<times> Slice) list \<Rightarrow> SubcompactionProgressBuilder \<Rightarrow> status + SubcompactionProgressBuilder" where
  "parse_records [] b = Inr b"
| "parse_records ((reader_status, encoded) # rs) b =
     (if \<not> ok reader_status then Inl reader_status
      else case DecodeFrom encoded of
             Inl s \<Rightarrow> Inl s
           | Inr edit \<Rightarrow> (case ProcessVersionEdit edit b of (res, b) \<Rightarrow> if res then parse_records rs b else Inr b))"

definition ParseCompactionProgressFile :: "status \<Rightarrow> (status \<times> Slice) list \<Rightarrow> status + SubcompactionProgress" where
  "ParseCompactionProgressFile open_status rs =
     (if \<not> ok open_status then Inl open_status
      else case parse_records rs Builder_Clear of
             Inl s \<Rightarrow> Inl s
           | Inr b \<Rightarrow>
               if has_subcompaction_progress b then Inr (accumulated_subcompaction_progress b)
               else Inl (NotFound ''No compaction progress was persisted yet''))"

section \<open>Writing the log\<close>

text \<open>What the job reads when an output file is finished.\<close>

record FinishedOutput =
  has_meta :: bool
  next_table_min_key :: Slice
  prev_iter_output_internal_key :: ParsedInternalKey
  timestamp_size :: nat
  IsCurrentKeyAlreadyScanned :: bool
  HasNumInputEntryScanned :: bool
  NumInputEntryScanned :: u64
  has_accurate_num_input_records :: bool
  num_input_records :: u64
  SupportsPerKeyPlacement :: bool
  num_output_records :: "bool \<Rightarrow> u64"
  GetOutputs :: "bool \<Rightarrow> FileMetaData list"

definition range_end_type :: "ValueType \<Rightarrow> bool" where
  "range_end_type t \<longleftrightarrow> t = kTypeRangeDeletion \<or> t = kTypeMaxValid"

definition ShouldUpdateSubcompactionProgress ::
    "bool \<Rightarrow> (Slice \<Rightarrow> Slice \<Rightarrow> bool) \<Rightarrow> FinishedOutput \<Rightarrow> bool option" where
  "ShouldUpdateSubcompactionProgress has_writer EqualWithoutTimestamp v =
     (let prev = prev_iter_output_internal_key v
      in if \<not> has_writer then Some False
      else if \<not> has_meta v then Some False
      else if next_table_min_key v = [] then Some False
      else if timestamp_size v > 0 then Some False
      else case ExtractValueType (next_table_min_key v) of
        None \<Rightarrow> None
      | Some next_type \<Rightarrow>
          let prev_type = (if user_key prev = [] then kTypeValue else type prev)
          in if range_end_type next_type \<or> range_end_type prev_type then Some False
             else case ExtractUserKey (next_table_min_key v) of
               None \<Rightarrow> None
             | Some next_user_key \<Rightarrow>
                 if EqualWithoutTimestamp next_user_key (user_key prev) then Some False
                 else Some (\<not> IsCurrentKeyAlreadyScanned v))"

definition AddToOutputFiles :: "FileMetaData \<Rightarrow> SubcompactionProgressPerLevel \<Rightarrow> SubcompactionProgressPerLevel" where
  "AddToOutputFiles f p = p\<lparr>output_files := output_files p @ [f]\<rparr>"

definition UpdateSubcompactionProgressPerLevel ::
    "FinishedOutput \<Rightarrow> bool \<Rightarrow> SubcompactionProgressPerLevel \<Rightarrow> SubcompactionProgressPerLevel" where
  "UpdateSubcompactionProgressPerLevel v is_proximal_level p =
     (let p = p\<lparr>num_processed_output_records := num_output_records v is_proximal_level\<rparr>
      in fold AddToOutputFiles (drop (length (output_files p)) (GetOutputs v is_proximal_level)) p)"

definition UpdateSubcompactionProgress :: "FinishedOutput \<Rightarrow> SubcompactionProgress \<Rightarrow> SubcompactionProgress option" where
  "UpdateSubcompactionProgress v p =
     (case ExtractUserKey (next_table_min_key v) of
        None \<Rightarrow> None
      | Some next_user_key \<Rightarrow>
          let p = p\<lparr>next_internal_key_to_compact := InternalKey next_user_key kMaxSequenceNumber kValueTypeForSeek,
                    num_processed_input_records :=
                      (if HasNumInputEntryScanned v \<and> has_accurate_num_input_records v
                       then NumInputEntryScanned v + num_input_records v else 0)\<rparr>;
              p = p\<lparr>output_level_progress := UpdateSubcompactionProgressPerLevel v False (output_level_progress p)\<rparr>
          in Some (if SupportsPerKeyPlacement v
                   then p\<lparr>proximal_output_level_progress :=
                          UpdateSubcompactionProgressPerLevel v True (proximal_output_level_progress p)\<rparr>
                   else p))"

text \<open>The writer of the log and the file below it.\<close>

record 'w progress_writer =
  AddRecord :: "Slice \<Rightarrow> 'w \<Rightarrow> status \<times> 'w"
  PrepareIOOptions :: "'w \<Rightarrow> status"
  Sync :: "'w \<Rightarrow> status \<times> 'w"

definition mark_persisted :: "SubcompactionProgress \<Rightarrow> SubcompactionProgress" where
  "mark_persisted p =
     p\<lparr>output_level_progress := UpdateLastPersistedOutputFilesCount (output_level_progress p),
       proximal_output_level_progress := UpdateLastPersistedOutputFilesCount (proximal_output_level_progress p)\<rparr>"

definition PersistSubcompactionProgress ::
    "'w progress_writer \<Rightarrow> SubcompactionProgress \<Rightarrow> 'w \<Rightarrow> status \<times> SubcompactionProgress \<times> 'w" where
  "PersistSubcompactionProgress env p w =
     (case EncodeTo (SetSubcompactionProgress p clear_edit) 0 of
        None \<Rightarrow> (Corruption ''Failed to encode subcompaction progress'', p, w)
      | Some record \<Rightarrow>
          let (s, w) = AddRecord env record w;
              s = (if ok s then PrepareIOOptions env w else s);
              (s, w) = (if ok s then Sync env w else (s, w))
          in if \<not> ok s then (s, p, w) else (OK, mark_persisted p, w))"

text \<open>The end of \<open>FinishCompactionOutputFile\<close>, and the run over the finished files.\<close>

definition finish_output ::
    "'w progress_writer \<Rightarrow> (Slice \<Rightarrow> Slice \<Rightarrow> bool) \<Rightarrow> FinishedOutput \<Rightarrow> SubcompactionProgress \<Rightarrow> 'w \<Rightarrow>
      (status \<times> SubcompactionProgress \<times> 'w) option" where
  "finish_output env eq v p w =
     (case ShouldUpdateSubcompactionProgress True eq v of
        None \<Rightarrow> None
      | Some False \<Rightarrow> Some (OK, p, w)
      | Some True \<Rightarrow> map_option (\<lambda>p. PersistSubcompactionProgress env p w) (UpdateSubcompactionProgress v p))"

fun finish_outputs ::
    "'w progress_writer \<Rightarrow> (Slice \<Rightarrow> Slice \<Rightarrow> bool) \<Rightarrow> FinishedOutput list \<Rightarrow> SubcompactionProgress \<Rightarrow> 'w \<Rightarrow>
      (status \<times> SubcompactionProgress \<times> 'w) option" where
  "finish_outputs env eq [] p w = Some (OK, p, w)"
| "finish_outputs env eq (v # vs) p w =
     (case finish_output env eq v p w of
        None \<Rightarrow> None
      | Some (s, p, w) \<Rightarrow> if ok s then finish_outputs env eq vs p w else Some (s, p, w))"

section \<open>Reading back a run\<close>

text \<open>The states of the progress that are written.\<close>

fun snapshots :: "(Slice \<Rightarrow> Slice \<Rightarrow> bool) \<Rightarrow> FinishedOutput list \<Rightarrow> SubcompactionProgress \<Rightarrow> SubcompactionProgress list" where
  "snapshots eq [] p = []"
| "snapshots eq (v # vs) p =
     (case (ShouldUpdateSubcompactionProgress True eq v, UpdateSubcompactionProgress v p) of
        (Some True, Some q) \<Rightarrow> q # snapshots eq vs (mark_persisted q)
      | _ \<Rightarrow> snapshots eq vs p)"

definition writer_contract :: "'w progress_writer \<Rightarrow> ('w \<Rightarrow> Slice list) \<Rightarrow> bool" where
  "writer_contract env records \<longleftrightarrow>
     (\<forall>r w w'. AddRecord env r w = (OK, w') \<longrightarrow> records w' = records w @ [r]) \<and>
     (\<forall>w s w'. Sync env w = (s, w') \<longrightarrow> records w' = records w)"

definition level_agrees :: "SubcompactionProgressPerLevel \<Rightarrow> SubcompactionProgressPerLevel \<Rightarrow> bool" where
  "level_agrees acc p \<longleftrightarrow> output_files acc = output_files p \<and> last_persisted_output_files_count p = length (output_files p)"

definition agrees :: "SubcompactionProgress \<Rightarrow> SubcompactionProgress \<Rightarrow> bool" where
  "agrees acc p \<longleftrightarrow> next_internal_key_to_compact acc = next_internal_key_to_compact p \<and>
     num_processed_input_records acc = num_processed_input_records p \<and>
     level_agrees (output_level_progress acc) (output_level_progress p) \<and>
     level_agrees (proximal_output_level_progress acc) (proximal_output_level_progress p)"

lemma fold_AddToOutputFiles: "fold AddToOutputFiles fs p = p\<lparr>output_files := output_files p @ fs\<rparr>"
  by (induction fs arbitrary: p) (simp_all add: AddToOutputFiles_def)

lemma level_agrees_update:
  assumes "level_agrees acc p"
  shows "level_agrees (MaybeMergeDeltaProgressPerLevel acc (level_delta (UpdateSubcompactionProgressPerLevel v b p)))
    (UpdateLastPersistedOutputFilesCount (UpdateSubcompactionProgressPerLevel v b p))"
  using assms merged_level [of acc "UpdateSubcompactionProgressPerLevel v b p"]
  by (simp add: level_agrees_def UpdateSubcompactionProgressPerLevel_def UpdateLastPersistedOutputFilesCount_def
      fold_AddToOutputFiles)

lemma level_agrees_same:
  "level_agrees acc p \<Longrightarrow> level_agrees (MaybeMergeDeltaProgressPerLevel acc (level_delta p)) (UpdateLastPersistedOutputFilesCount p)"
  using merged_level [of acc p] by (simp add: level_agrees_def UpdateLastPersistedOutputFilesCount_def)

lemma agrees_update:
  assumes "agrees acc p" "UpdateSubcompactionProgress v p = Some q"
  shows "agrees (MergeDeltaProgress acc (progress_delta q)) (mark_persisted q)"
  using assms
  by (auto simp: agrees_def UpdateSubcompactionProgress_def MergeDeltaProgress_def progress_delta_def mark_persisted_def Let_def
      level_agrees_update level_agrees_same split: option.splits if_splits)

lemma progress_record:
  assumes "small_progress p"
  shows "\<exists>r e. EncodeTo (SetSubcompactionProgress p clear_edit) 0 = Some r \<and> DecodeFrom r = Inr e \<and>
    subcompaction_progress e = Some (progress_delta p)"
proof -
  let ?e = "SetSubcompactionProgress p clear_edit"
  have "built 0 ?e" using small_progress_ok [OF assms] by (intro built.progress built.clear)
  then obtain body where b: "EncodeTo ?e 0 = Some body" "DecodeFrom body = Inr (read_back 0 ?e)"
    using encoded_edit [OF built_ok, of 0 ?e] by (auto simp: SetSubcompactionProgress_def clear_edit_def)
  moreover have "subcompaction_progress (read_back 0 ?e) = Some (progress_delta p)"
    by (simp add: read_back_def SetSubcompactionProgress_def)
  ultimately show ?thesis by blast
qed

lemma Persist_record:
  assumes "writer_contract env records" "small_progress p" "PersistSubcompactionProgress env p w = (OK, p', w')"
  shows "p' = mark_persisted p \<and> (\<exists>r e. records w' = records w @ [r] \<and> DecodeFrom r = Inr e \<and>
    subcompaction_progress e = Some (progress_delta p))"
proof -
  obtain r e where r: "EncodeTo (SetSubcompactionProgress p clear_edit) 0 = Some r" "DecodeFrom r = Inr e"
      "subcompaction_progress e = Some (progress_delta p)"
    using progress_record [OF assms(2)] by blast
  obtain s1 w1 where a: "AddRecord env r w = (s1, w1)" by fastforce
  obtain s2 w2 where y: "Sync env w1 = (s2, w2)" by fastforce
  have "s1 = OK" "s2 = OK" "p' = mark_persisted p" "w' = w2"
    using assms(3) r(1) a y by (auto simp: PersistSubcompactionProgress_def ok_def Let_def split: if_splits)
  moreover have "records w2 = records w @ [r]"
    using assms(1) a y \<open>s1 = OK\<close> by (simp add: writer_contract_def)
  ultimately show ?thesis using r by blast
qed

lemma parse_run:
  assumes "writer_contract env records" "finish_outputs env eq vs p w = Some (OK, p', w')"
    "\<forall>q \<in> set (snapshots eq vs p). small_progress q" "agrees (accumulated_subcompaction_progress b) p"
  shows "\<exists>rs b'. records w' = records w @ rs \<and> parse_records (map (Pair OK) rs) b = Inr b' \<and>
    agrees (accumulated_subcompaction_progress b') p' \<and> has_subcompaction_progress b' = (has_subcompaction_progress b \<or> rs \<noteq> [])"
  using assms(2-)
proof (induction vs arbitrary: p w b)
  case Nil
  then show ?case by (auto intro: exI [of _ "[]"])
next
  case (Cons v vs)
  show ?case
  proof (cases "ShouldUpdateSubcompactionProgress True eq v")
    case None
    then show ?thesis using Cons.prems by (simp add: finish_output_def)
  next
    case (Some u)
    show ?thesis
    proof (cases u)
      case False
      then show ?thesis using Cons Some by (simp add: finish_output_def)
    next
      case True
      obtain q where q: "UpdateSubcompactionProgress v p = Some q"
        using Cons.prems(1) Some True by (cases "UpdateSubcompactionProgress v p") (auto simp: finish_output_def)
      obtain p1 w1 where 1: "PersistSubcompactionProgress env q w = (OK, p1, w1)" "finish_outputs env eq vs p1 w1 = Some (OK, p', w')"
        using Cons.prems(1) Some True q by (auto simp: finish_output_def ok_def split: prod.splits if_splits)
      have sn: "small_progress q" "\<forall>q \<in> set (snapshots eq vs (mark_persisted q)). small_progress q"
        using Cons.prems(2) Some True q by simp_all
      obtain r e where r: "p1 = mark_persisted q" "records w1 = records w @ [r]" "DecodeFrom r = Inr e"
          "subcompaction_progress e = Some (progress_delta q)"
        using Persist_record [OF assms(1) sn(1) 1(1)] by blast
      let ?b = "b\<lparr>accumulated_subcompaction_progress := MergeDeltaProgress (accumulated_subcompaction_progress b) (progress_delta q),
        has_subcompaction_progress := True\<rparr>"
      have "agrees (accumulated_subcompaction_progress ?b) p1" using agrees_update [OF Cons.prems(3) q] r(1) by simp
      then obtain rs b' where rs: "records w' = records w1 @ rs" "parse_records (map (Pair OK) rs) ?b = Inr b'"
          "agrees (accumulated_subcompaction_progress b') p'" "has_subcompaction_progress b'"
        using Cons.IH [OF 1(2), of ?b] sn(2) r(1) by auto
      have "parse_records (map (Pair OK) (r # rs)) b = Inr b'" using r rs(2) by (simp add: ProcessVersionEdit_def)
      then show ?thesis using r(2) rs by (intro exI [of _ "r # rs"]) auto
    qed
  qed
qed

text \<open>C14: Resuming a compaction. Let a job finish any sequence of output files with every write of its
  progress successful, on a log that appends what is written. Then the log read back is refused exactly when
  nothing was written; otherwise it gives the key to resume at, the number of input records and the output
  files of both levels as the job last wrote them, although each record has only the files since the one
  before. At most a million files with a thousand bytes of keys and names each are assumed, so that no length
  wraps.\<close>

theorem progress_resumes:
  assumes "writer_contract env records" "records w = []" "finish_outputs env eq vs clear_progress w = Some (OK, p, w')"
    "\<forall>q \<in> set (snapshots eq vs clear_progress). small_progress q"
  shows "case ParseCompactionProgressFile OK (map (Pair OK) (records w')) of
      Inl s \<Rightarrow> records w' = [] \<and> s = NotFound ''No compaction progress was persisted yet''
    | Inr q \<Rightarrow> records w' \<noteq> [] \<and> next_internal_key_to_compact q = next_internal_key_to_compact p \<and>
        num_processed_input_records q = num_processed_input_records p \<and>
        output_files (output_level_progress q) = output_files (output_level_progress p) \<and>
        output_files (proximal_output_level_progress q) = output_files (proximal_output_level_progress p)"
proof -
  have "agrees (accumulated_subcompaction_progress Builder_Clear) clear_progress"
    by (simp add: agrees_def level_agrees_def Builder_Clear_def clear_progress_def clear_level_def)
  from parse_run [OF assms(1,3,4) this] show ?thesis
    using assms(2) by (auto simp: ParseCompactionProgressFile_def Builder_Clear_def agrees_def level_agrees_def)
qed

definition list_writer :: "Slice list progress_writer" where
  "list_writer = \<lparr>AddRecord = (\<lambda>r w. (OK, w @ [r])), PrepareIOOptions = (\<lambda>_. OK), Sync = (\<lambda>w. (OK, w))\<rparr>"

definition sample_output :: "u64 \<Rightarrow> byte \<Rightarrow> FileMetaData list \<Rightarrow> FinishedOutput" where
  "sample_output n k fs = \<lparr>has_meta = True, next_table_min_key = k # replicate 8 0,
     prev_iter_output_internal_key = \<lparr>user_key = [5], sequence = 0, type = kTypeValue\<rparr>, timestamp_size = 0,
     IsCurrentKeyAlreadyScanned = False, HasNumInputEntryScanned = True, NumInputEntryScanned = n,
     has_accurate_num_input_records = True, num_input_records = 2, SupportsPerKeyPlacement = False,
     num_output_records = (\<lambda>_. n), GetOutputs = (\<lambda>_. fs)\<rparr>"

definition sample_outputs :: "FinishedOutput list" where
  "sample_outputs = [sample_output 30 9 [sample_file], sample_output 70 11 [sample_file, sample_file\<lparr>epoch_number := 8\<rparr>]]"

lemma list_writer_contract: "writer_contract list_writer id"
  by (auto simp: writer_contract_def list_writer_def)

lemma list_writer_persists: "small_progress p \<Longrightarrow> \<exists>r. PersistSubcompactionProgress list_writer p w = (OK, mark_persisted p, w @ [r])"
  using progress_record [of p] by (auto simp: PersistSubcompactionProgress_def list_writer_def)

lemma small_sample: "small_file sample_file" "small_file (sample_file\<lparr>epoch_number := 8\<rparr>)"
proof -
  have v: "file_ok sample_file" by (rule sample_file_ok)
  have l: "length (smallest sample_file) + length (largest sample_file) + length (file_checksum sample_file) +
      length (file_checksum_func_name sample_file) \<le> 1000"
    by (simp add: sample_file_def default_file_def kUnknownFileChecksumFuncName_def)
  show "small_file sample_file" using v l by (simp add: small_file_def)
  show "small_file (sample_file\<lparr>epoch_number := 8\<rparr>)" using v l by (simp add: small_file_def file_ok_def)
qed

definition resumed :: "u64 \<Rightarrow> byte \<Rightarrow> FileMetaData list \<Rightarrow> nat \<Rightarrow> SubcompactionProgress" where
  "resumed n k fs i = clear_progress\<lparr>next_internal_key_to_compact := InternalKey [k] kMaxSequenceNumber kValueTypeForSeek,
     num_processed_input_records := n + 2,
     output_level_progress := \<lparr>num_processed_output_records = n, output_files = fs, last_persisted_output_files_count = i\<rparr>\<rparr>"

lemma small_resumed: "list_all small_file fs \<Longrightarrow> length fs \<le> 1000000 \<Longrightarrow> small_progress (resumed n k fs i)"
  by (simp add: small_progress_def resumed_def clear_progress_def clear_level_def small_level_def InternalKey_def
      AppendInternalKey_def PutFixed64_def)

lemma mark_resumed: "mark_persisted (resumed n k fs i) = resumed n k fs (length fs)"
  by (simp add: mark_persisted_def resumed_def UpdateLastPersistedOutputFilesCount_def clear_progress_def clear_level_def)

lemma should_sample:
  assumes "k \<noteq> 5"
  shows "ShouldUpdateSubcompactionProgress True (=) (sample_output n k fs) = Some True"
proof -
  have "DecodeFixed64 (replicate 8 0) = Some 0" by code_simp
  then have "ExtractValueType (k # replicate 8 0) = Some 0"
    by (simp add: ExtractValueType_def ExtractInternalKeyFooter_def)
  moreover have "ExtractUserKey (k # replicate 8 0) = Some [k]" by (simp add: ExtractUserKey_def)
  moreover have "\<not> range_end_type 0" "\<not> range_end_type kTypeValue" by code_simp+
  ultimately show ?thesis using assms by (simp add: ShouldUpdateSubcompactionProgress_def Let_def sample_output_def)
qed

lemma update_sample:
  "UpdateSubcompactionProgress (sample_output n k fs) clear_progress = Some (resumed n k fs 0)"
  "UpdateSubcompactionProgress (sample_output n k (fs @ fs')) (resumed m j fs i) = Some (resumed n k (fs @ fs') i)"
  by (simp_all add: UpdateSubcompactionProgress_def UpdateSubcompactionProgressPerLevel_def fold_AddToOutputFiles
      sample_output_def ExtractUserKey_def resumed_def clear_progress_def clear_level_def)

theorem progress_resumes_witness:
  "\<exists>p w'. writer_contract list_writer id \<and> finish_outputs list_writer (=) sample_outputs clear_progress [] = Some (OK, p, w') \<and>
    list_all small_progress (snapshots (=) sample_outputs clear_progress) \<and>
    (case ParseCompactionProgressFile OK (map (Pair OK) (id w')) of
       Inl s \<Rightarrow> False
     | Inr q \<Rightarrow> num_processed_input_records q = 72 \<and>
         output_files (output_level_progress q) = [sample_file, sample_file\<lparr>epoch_number := 8\<rparr>])"
proof -
  let ?f = "sample_file\<lparr>epoch_number := 8\<rparr>"
  have u: "UpdateSubcompactionProgress (sample_output 70 11 [sample_file, ?f]) (resumed 30 9 [sample_file] 1) =
      Some (resumed 70 11 [sample_file, ?f] 1)"
    using update_sample(2) [of 70 11 "[sample_file]" "[?f]"] by simp
  have sm: "small_progress (resumed 30 9 [sample_file] 0)" "small_progress (resumed 70 11 [sample_file, ?f] 1)"
    using small_sample by (simp_all add: small_resumed)
  obtain r1 where r1: "PersistSubcompactionProgress list_writer (resumed 30 9 [sample_file] 0) [] =
      (OK, resumed 30 9 [sample_file] 1, [r1])"
    using list_writer_persists [OF sm(1), of "[]"] by (auto simp: mark_resumed)
  obtain r2 where r2: "PersistSubcompactionProgress list_writer (resumed 70 11 [sample_file, ?f] 1) [r1] =
      (OK, resumed 70 11 [sample_file, ?f] 2, [r1, r2])"
    using list_writer_persists [OF sm(2), of "[r1]"] by (auto simp: mark_resumed numeral_2_eq_2)
  have run: "finish_outputs list_writer (=) sample_outputs clear_progress [] = Some (OK, resumed 70 11 [sample_file, ?f] 2, [r1, r2])"
    using r1 r2 by (simp add: sample_outputs_def finish_output_def should_sample update_sample(1) u [simplified])
  have sn: "snapshots (=) sample_outputs clear_progress = [resumed 30 9 [sample_file] 0, resumed 70 11 [sample_file, ?f] 1]"
    by (simp add: sample_outputs_def should_sample update_sample(1) u [simplified] mark_resumed)
  show ?thesis
    using progress_resumes [OF list_writer_contract _ run] run sn sm list_writer_contract
    by (auto simp: resumed_def split: sum.splits)
qed

end
