(* ===== verification/File_Bounds.thy ===== *)
theory File_Bounds
  imports Edit_Parts
begin

text \<open>
  What a table builder records about a file while it writes it: the blob index of an
  entry (\<open>db/blob/blob_index.h\<close>) and the boundaries, sequence numbers and oldest blob
  file of the file (\<open>FileMetaData::UpdateBoundaries\<close> of \<open>db/version_edit.cc\<close> and
  \<open>UpdateBoundariesForRange\<close> of \<open>db/version_edit.h\<close>).
\<close>

section \<open>Blob indexes\<close>

datatype BlobIndex_Type = kInlinedTTL | kBlob | kBlobTTL | kUnknown

text \<open>The enumeration is compared by its codes.\<close>

fun index_code :: "BlobIndex_Type \<Rightarrow> byte" where
  "index_code kInlinedTTL = 0"
| "index_code kBlob = 1"
| "index_code kBlobTTL = 2"
| "index_code kUnknown = 3"

lemma index_code_inject: "index_code a = index_code b \<longleftrightarrow> a = b"
  by (cases a; cases b) simp_all

instantiation BlobIndex_Type :: linorder
begin

definition less_eq_BlobIndex_Type :: "BlobIndex_Type \<Rightarrow> BlobIndex_Type \<Rightarrow> bool" where
  "less_eq_BlobIndex_Type a b \<longleftrightarrow> index_code a \<le> index_code b"

definition less_BlobIndex_Type :: "BlobIndex_Type \<Rightarrow> BlobIndex_Type \<Rightarrow> bool" where
  "less_BlobIndex_Type a b \<longleftrightarrow> index_code a < index_code b"

instance
  by standard (auto simp: less_eq_BlobIndex_Type_def less_BlobIndex_Type_def index_code_inject less_le)

end

lemma kUnknown_le [simp]: "kUnknown \<le> t \<longleftrightarrow> t = kUnknown"
  by (cases t) (simp_all add: less_eq_BlobIndex_Type_def word_le_nat_alt)

definition index_type :: "byte \<Rightarrow> BlobIndex_Type" where
  "index_type b = (if b = 0 then kInlinedTTL else if b = 1 then kBlob else if b = 2 then kBlobTTL else kUnknown)"

record BlobIndex =
  index_kind :: BlobIndex_Type
  expiration :: u64
  inlined_value :: Slice
  file_number :: u64
  blob_offset :: u64
  blob_size :: u64
  compression :: byte

definition new_index :: "BlobIndex_Type \<Rightarrow> u64 \<Rightarrow> BlobIndex" where
  "new_index t e = \<lparr>index_kind = t, expiration = e, inlined_value = [], file_number = 0, blob_offset = 0, blob_size = 0,
     compression = 0\<rparr>"

definition IsInlined :: "BlobIndex_Type \<Rightarrow> bool" where
  "IsInlined t \<longleftrightarrow> t = kInlinedTTL"

definition HasTTL :: "BlobIndex_Type \<Rightarrow> bool" where
  "HasTTL t \<longleftrightarrow> t = kInlinedTTL \<or> t = kBlobTTL"

definition index_error :: "string \<Rightarrow> status" where
  "index_error msg = Corruption (''Error while decoding blob index: '' @ msg)"

definition char_decimal :: "byte \<Rightarrow> string" where
  "char_decimal b = (if sint b < 0 then ''-'' @ decimal (nat (- sint b)) else decimal (nat (sint b)))"

text \<open>Reading the type of an empty slice is out of bounds, \<open>None\<close>.\<close>

definition BlobIndex_DecodeFrom :: "Slice \<Rightarrow> (status + BlobIndex) option" where
  "BlobIndex_DecodeFrom slc =
     (case slc of
        [] \<Rightarrow> None
      | b # slc \<Rightarrow> Some
          (let t = index_type b
           in if t \<ge> kUnknown then Inl (index_error (''Unknown blob index type: '' @ char_decimal b))
              else need (if HasTTL t then GetVarint64 slc else Some (0, slc)) (index_error ''Corrupted expiration'') (\<lambda>(e, slc).
                if IsInlined t then Inr ((new_index t e)\<lparr>inlined_value := slc\<rparr>)
                else need (GetVarint64 slc) (index_error ''Corrupted blob offset'') (\<lambda>(n, slc).
                     need (GetVarint64 slc) (index_error ''Corrupted blob offset'') (\<lambda>(off, slc).
                     need (GetVarint64 slc) (index_error ''Corrupted blob offset'') (\<lambda>(sz, slc).
                     if length slc = 1
                     then Inr ((new_index t e)\<lparr>file_number := n, blob_offset := off, blob_size := sz, compression := hd slc\<rparr>)
                     else Inl (index_error ''Corrupted blob offset'')))))))"

definition EncodeInlinedTTL :: "u64 \<Rightarrow> Slice \<Rightarrow> Slice" where
  "EncodeInlinedTTL e v = PutVarint64 [0] e @ v"

definition EncodeBlob :: "u64 \<Rightarrow> u64 \<Rightarrow> u64 \<Rightarrow> byte \<Rightarrow> Slice" where
  "EncodeBlob n off sz c = PutVarint64 (PutVarint64 (PutVarint64 [1] n) off) sz @ [c]"

definition EncodeBlobTTL :: "u64 \<Rightarrow> u64 \<Rightarrow> u64 \<Rightarrow> u64 \<Rightarrow> byte \<Rightarrow> Slice" where
  "EncodeBlobTTL e n off sz c = PutVarint64 (PutVarint64 (PutVarint64 (PutVarint64 [2] e) n) off) sz @ [c]"

section \<open>Boundaries\<close>

definition kInvalidBlobFileNumber :: u64 where
  "kInvalidBlobFileNumber = 0"

definition widen_seqnos :: "SequenceNumber \<Rightarrow> FileMetaData \<Rightarrow> FileMetaData" where
  "widen_seqnos seqno f = f\<lparr>fd := (fd f)\<lparr>smallest_seqno := min (smallest_seqno (fd f)) seqno,
     largest_seqno := max (largest_seqno (fd f)) seqno\<rparr>\<rparr>"

definition UpdateBoundaries ::
    "Slice \<Rightarrow> Slice \<Rightarrow> SequenceNumber \<Rightarrow> ValueType \<Rightarrow> FileMetaData \<Rightarrow> (status \<times> FileMetaData) option" where
  "UpdateBoundaries key val seqno ty f =
     (let finish = (\<lambda>f.
            let f = (if smallest f = [] then f\<lparr>smallest := key\<rparr> else f);
                f = f\<lparr>largest := key\<rparr>
            in Some (OK, widen_seqnos seqno f))
      in if ty = kTypeBlobIndex
         then case BlobIndex_DecodeFrom val of
                None \<Rightarrow> None
              | Some (Inl s) \<Rightarrow> Some (s, f)
              | Some (Inr b) \<Rightarrow>
                  if \<not> IsInlined (index_kind b) \<and> \<not> HasTTL (index_kind b)
                  then if file_number b = kInvalidBlobFileNumber then Some (Corruption ''Invalid blob file number'', f)
                       else finish (if oldest_blob_file_number f = kInvalidBlobFileNumber \<or> oldest_blob_file_number f > file_number b
                                    then f\<lparr>oldest_blob_file_number := file_number b\<rparr> else f)
                  else finish f
         else finish f)"

text \<open>The comparison of a key without a footer is out of bounds.\<close>

definition UpdateBoundariesForRange ::
    "(Slice \<Rightarrow> Slice \<Rightarrow> int) \<Rightarrow> Slice \<Rightarrow> Slice \<Rightarrow> SequenceNumber \<Rightarrow> FileMetaData \<Rightarrow> FileMetaData option" where
  "UpdateBoundariesForRange cmp start fin seqno f =
     (case (if smallest f = [] then Some True else map_option (\<lambda>r. r < 0) (CompareSlices cmp start (smallest f))) of
        None \<Rightarrow> None
      | Some lower \<Rightarrow>
     (case (if largest f = [] then Some True else map_option (\<lambda>r. r < 0) (CompareSlices cmp (largest f) fin)) of
        None \<Rightarrow> None
      | Some higher \<Rightarrow>
          Some (widen_seqnos seqno (f\<lparr>smallest := if lower then start else smallest f,
                                       largest := if higher then fin else largest f\<rparr>))))"

section \<open>Facts\<close>

lemma BlobIndex_roundtrip:
  "BlobIndex_DecodeFrom (EncodeInlinedTTL e v) = Some (Inr ((new_index kInlinedTTL e)\<lparr>inlined_value := v\<rparr>))"
  "BlobIndex_DecodeFrom (EncodeBlob n off sz c) =
    Some (Inr ((new_index kBlob 0)\<lparr>file_number := n, blob_offset := off, blob_size := sz, compression := c\<rparr>))"
  "BlobIndex_DecodeFrom (EncodeBlobTTL e n off sz c) =
    Some (Inr ((new_index kBlobTTL e)\<lparr>file_number := n, blob_offset := off, blob_size := sz, compression := c\<rparr>))"
  by (simp_all add: BlobIndex_DecodeFrom_def EncodeInlinedTTL_def EncodeBlob_def EncodeBlobTTL_def put_append index_type_def
      HasTTL_def IsInlined_def)

lemma index_error_OK [simp]: "index_error m \<noteq> OK"
  by (simp add: index_error_def)

lemma need_OK: "need r (index_error m) k = Inl OK \<longleftrightarrow> (\<exists>x. r = Some x \<and> k x = Inl OK)"
  by (cases r) simp_all

lemma BlobIndex_error: "BlobIndex_DecodeFrom v \<noteq> Some (Inl OK)"
  by (auto simp: BlobIndex_DecodeFrom_def Let_def need_OK split: list.splits if_splits)

lemma BlobIndex_known: "BlobIndex_DecodeFrom v = Some (Inr b) \<Longrightarrow> index_kind b \<noteq> kUnknown"
  by (auto simp: BlobIndex_DecodeFrom_def Let_def need_Inr new_index_def split: list.splits if_splits)

record table_entry =
  entry_key :: Slice
  entry_value :: Slice
  entry_seqno :: SequenceNumber
  entry_type :: ValueType

text \<open>The builder calls the update for the entries of the table in their order.\<close>

fun update_all :: "table_entry list \<Rightarrow> FileMetaData \<Rightarrow> (status \<times> FileMetaData) option" where
  "update_all [] f = Some (OK, f)"
| "update_all (x # xs) f =
     (case UpdateBoundaries (entry_key x) (entry_value x) (entry_seqno x) (entry_type x) f of
        None \<Rightarrow> None
      | Some (s, f) \<Rightarrow> if ok s then update_all xs f else Some (s, f))"

definition blob_refs :: "table_entry \<Rightarrow> u64 set" where
  "blob_refs x =
     (if entry_type x = kTypeBlobIndex
      then case BlobIndex_DecodeFrom (entry_value x) of
             Some (Inr b) \<Rightarrow> if index_kind b = kBlob then {file_number b} else {}
           | _ \<Rightarrow> {}
      else {})"

definition least_blob :: "u64 set \<Rightarrow> u64" where
  "least_blob A = (if A = {} then kInvalidBlobFileNumber else Min A)"

definition known_blob :: "u64 \<Rightarrow> u64 set" where
  "known_blob n = (if n = kInvalidBlobFileNumber then {} else {n})"

lemma UpdateBoundaries_OK:
  assumes "UpdateBoundaries (entry_key x) (entry_value x) (entry_seqno x) (entry_type x) f = Some (OK, f')"
  shows "smallest f' = (if smallest f = [] then entry_key x else smallest f) \<and> largest f' = entry_key x \<and>
    smallest_seqno (fd f') = min (smallest_seqno (fd f)) (entry_seqno x) \<and>
    largest_seqno (fd f') = max (largest_seqno (fd f)) (entry_seqno x) \<and> kInvalidBlobFileNumber \<notin> blob_refs x \<and>
    finite (blob_refs x) \<and>
    oldest_blob_file_number f' = least_blob (known_blob (oldest_blob_file_number f) \<union> blob_refs x)"
proof (cases "entry_type x = kTypeBlobIndex")
  case False
  then show ?thesis
    using assms by (auto simp: UpdateBoundaries_def widen_seqnos_def blob_refs_def known_blob_def least_blob_def Let_def)
next
  case True
  then obtain b where b: "BlobIndex_DecodeFrom (entry_value x) = Some (Inr b)"
    using assms BlobIndex_error [of "entry_value x"] by (auto simp: UpdateBoundaries_def split: option.splits sum.splits)
  have k: "\<not> IsInlined (index_kind b) \<and> \<not> HasTTL (index_kind b) \<longleftrightarrow> index_kind b = kBlob"
    using BlobIndex_known [OF b] by (cases "index_kind b") (simp_all add: IsInlined_def HasTTL_def)
  show ?thesis
    using assms True b unfolding UpdateBoundaries_def Let_def
    by (auto simp: k widen_seqnos_def blob_refs_def known_blob_def least_blob_def min_def split: if_splits)
qed

lemma least_blob_Un:
  assumes "finite A" "finite B" "kInvalidBlobFileNumber \<notin> A"
  shows "least_blob (known_blob (least_blob A) \<union> B) = least_blob (A \<union> B)"
proof (cases "A = {}")
  case False
  then have "Min A \<noteq> kInvalidBlobFileNumber" using assms by (metis Min_in)
  then show ?thesis using assms False by (cases "B = {}") (simp_all add: least_blob_def known_blob_def Min_Un)
qed (simp add: least_blob_def known_blob_def)

lemma known_blob_simps [simp]: "finite (known_blob n)" "kInvalidBlobFileNumber \<notin> known_blob n"
  by (simp_all add: known_blob_def)

lemma update_all_OK:
  assumes "update_all xs f = Some (OK, f')" "xs \<noteq> []" "\<forall>x \<in> set xs. entry_key x \<noteq> []"
  shows "smallest f' = (if smallest f = [] then entry_key (hd xs) else smallest f) \<and> largest f' = entry_key (last xs) \<and>
    smallest_seqno (fd f') = Min (insert (smallest_seqno (fd f)) (entry_seqno ` set xs)) \<and>
    largest_seqno (fd f') = Max (insert (largest_seqno (fd f)) (entry_seqno ` set xs)) \<and>
    oldest_blob_file_number f' = least_blob (known_blob (oldest_blob_file_number f) \<union> (\<Union>x \<in> set xs. blob_refs x))"
  using assms
proof (induction xs arbitrary: f)
  case (Cons x xs)
  obtain f1 where f1: "UpdateBoundaries (entry_key x) (entry_value x) (entry_seqno x) (entry_type x) f = Some (OK, f1)"
      "update_all xs f1 = Some (OK, f')"
    using Cons.prems(1) by (auto simp: ok_def split: option.splits prod.splits if_splits)
  note u = UpdateBoundaries_OK [OF f1(1)]
  show ?case
  proof (cases "xs = []")
    case True
    then show ?thesis using f1(2) u by (simp add: min.commute max.commute)
  next
    case False
    then have i: "smallest f' = (if smallest f1 = [] then entry_key (hd xs) else smallest f1)" "largest f' = entry_key (last xs)"
        "smallest_seqno (fd f') = Min (insert (smallest_seqno (fd f1)) (entry_seqno ` set xs))"
        "largest_seqno (fd f') = Max (insert (largest_seqno (fd f1)) (entry_seqno ` set xs))"
        "oldest_blob_file_number f' = least_blob (known_blob (oldest_blob_file_number f1) \<union> (\<Union>x \<in> set xs. blob_refs x))"
      using Cons.IH [OF f1(2)] Cons.prems(3) by simp_all
    have fin: "finite (\<Union>x \<in> set xs. blob_refs x)" by (auto simp: blob_refs_def split: option.split sum.split)
    have "least_blob (known_blob (least_blob (known_blob (oldest_blob_file_number f) \<union> blob_refs x)) \<union> (\<Union>x \<in> set xs. blob_refs x)) =
        least_blob ((known_blob (oldest_blob_file_number f) \<union> blob_refs x) \<union> (\<Union>x \<in> set xs. blob_refs x))"
      using u fin by (intro least_blob_Un) auto
    then show ?thesis using i u Cons.prems(3) False by (simp add: Un_assoc min.assoc max.assoc)
  qed
qed simp

text \<open>C16: Bounds of a written file. When the entries of a table are given one after the other to a file
  without boundaries and every update succeeds, the smallest key is that of the first entry, the largest that of
  the last, the sequence numbers are the least and greatest of all entries, and the oldest blob file is the least one any entry refers to without an expiration.\<close>

theorem file_bounds:
  assumes "update_all xs (default_file\<lparr>fd := make_fd n p 0 kMaxSequenceNumber 0\<rparr>) = Some (OK, f)" "xs \<noteq> []"
    "\<forall>x \<in> set xs. entry_key x \<noteq> [] \<and> entry_seqno x \<le> kMaxSequenceNumber"
  shows "smallest f = entry_key (hd xs) \<and> largest f = entry_key (last xs) \<and>
    smallest_seqno (fd f) = Min (entry_seqno ` set xs) \<and> largest_seqno (fd f) = Max (entry_seqno ` set xs) \<and>
    oldest_blob_file_number f = least_blob (\<Union>x \<in> set xs. blob_refs x)"
proof -
  let ?S = "entry_seqno ` set xs"
  have "Min ?S \<le> kMaxSequenceNumber" using assms(2,3) Min_in [of ?S] by (metis (no_types, lifting) List.finite_set finite_imageI
        image_iff image_is_empty set_empty)
  then have "Min (insert kMaxSequenceNumber ?S) = Min ?S" using assms(2) by (simp add: min_absorb2 del: Min_le_iff)
  moreover have "Max (insert 0 ?S) = Max ?S" using assms(2) by (simp add: max_absorb2)
  ultimately show ?thesis
    using update_all_OK [OF assms(1,2)] assms(3)
    by (simp add: default_file_def make_fd_def known_blob_def kInvalidBlobFileNumber_def)
qed

theorem file_bounds_witness:
  "let xs = [\<lparr>entry_key = [1], entry_value = EncodeBlob 6 0 0 0, entry_seqno = 9, entry_type = kTypeBlobIndex\<rparr>,
             \<lparr>entry_key = [2], entry_value = [], entry_seqno = 4, entry_type = kTypeValue\<rparr>]
   in \<exists>f. update_all xs (default_file\<lparr>fd := make_fd 3 0 0 kMaxSequenceNumber 0\<rparr>) = Some (OK, f) \<and> smallest f = [1] \<and>
     largest f = [2] \<and> smallest_seqno (fd f) = 4 \<and> largest_seqno (fd f) = 9 \<and> oldest_blob_file_number f = 6"
proof -
  let ?xs = "[\<lparr>entry_key = [1], entry_value = EncodeBlob 6 0 0 0, entry_seqno = 9, entry_type = kTypeBlobIndex\<rparr>,
             \<lparr>entry_key = [2], entry_value = [], entry_seqno = 4, entry_type = kTypeValue\<rparr>]"
  obtain f where f: "update_all ?xs (default_file\<lparr>fd := make_fd 3 0 0 kMaxSequenceNumber 0\<rparr>) = Some (OK, f)"
    by (simp add: UpdateBoundaries_def BlobIndex_roundtrip new_index_def IsInlined_def HasTTL_def kInvalidBlobFileNumber_def Let_def
        kTypeValue_def kTypeBlobIndex_def)
  have r: "blob_refs (?xs ! 0) = {6}" "blob_refs (?xs ! 1) = {}"
    by (simp_all add: blob_refs_def BlobIndex_roundtrip new_index_def kTypeValue_def kTypeBlobIndex_def)
  from file_bounds [OF f] f r show ?thesis
    by (auto simp: Let_def kMaxSequenceNumber_def least_blob_def)
qed

end
