(* ===== verification/Spec2Isabelle.thy ===== *)
theory Spec2Isabelle
  imports Size_Calibration PLR_Merge Materialize Trivial_Move Install_Materialization Key_Membership Key_Stream
    Progress_Log File_Bounds
begin

text \<open>
  \<^bold>\<open>Verification of virtual compaction.\<close>

  The program is a fork of RocksDB that can run the compactions of a load without
  writing table files. A table file is replaced by a descriptor, a \<open>VirtualSST\<close>: a
  piecewise linear model from keys to ranks, a list of hashed key samples, a key range,
  an entry count and an estimated size. Compactions merge and split descriptors, the
  manifest records the resulting files as usual, and at the end the keys of the surviving
  descriptors are written out and installed. This library models that path from the
  arithmetic up to the manifest records, together with the parts of \<open>db_bench\<close> that
  produce and keep the keys.

  \<^bold>\<open>How the parts interact.\<close> \<open>CalibrateSSTSizeModel\<close> measures sample tables and gives the
  size model. The load driver draws keys (\<open>BaselineKeyStream\<close>), remembers them
  (\<open>KeyMembership\<close>), fits a model and range samples to each batch and hands it to
  \<open>EnqueueVirtualL0Files\<close>. The L0 window admits files in batches: it registers their
  descriptors (\<open>VirtualSSTRegistry\<close>) and logs an edit. A compaction
  (\<open>RunVirtualCompaction\<close>) looks its inputs up, merges models and samples, splits the
  result at the boundaries of the grandparents, and hands an edit with its outputs to the
  group commit (\<open>CommitVirtualCompactionEdit\<close>), which logs a batch of edits, publishes the
  outputs in the registry and lets the L0 window admit more. Trivial moves take the same
  queue. \<open>MaterializeKeys\<close> and the unique key reservation turn descriptors back into keys,
  and \<open>InstallVirtualCompactionMaterialization\<close> installs the written tables. The manifest
  records are those of \<open>VersionEdit\<close>, and \<open>CompactionJob\<close> keeps its progress in them.

  \<^bold>\<open>Theories.\<close> Paths are below \<open>src/\<close>; \<open>vc\<close> stands for \<open>db/virtual_compaction\<close> and
  \<open>flush\<close> for \<open>db/db_impl/db_impl_compaction_flush.cc\<close>. A definition has the name of the
  function it models; a long function is cut into named parts at its loops and lambdas.

  \<^item> Base. \<open>Vc_Prelude\<close>: machine integers, statuses, facts on words and lists. \<open>Fp_Round\<close>
    and \<open>Fp_Ops\<close>: rounding to nearest even and the operations on \<open>double\<close> and
    \<open>long double\<close>; locale \<open>rounding\<close>, interpreted for both formats. \<open>Cond_Var\<close>: condition
    variables (\<open>port/port_posix.cc\<close>) as sets of sleeping threads.
  \<^item> Sizes. \<open>Size_Model\<close> (\<open>vc/sst_size_model.h\<close>): the envelope of rational lines; Estimate
    and MaxEntries are an exact pair of adjoints (locale \<open>size_estimator\<close>). \<open>Size_Calibration\<close>
    (\<open>vc/sst_size_calibration.cc\<close>): the plan of the samples and the loop; an accepted model
    covers every measurement.
  \<^item> Models of keys. \<open>PLR_Model\<close> (\<open>vc/plr_model.cc\<close>): Predict, Inverse and the greedy fit;
    coverage, block structure, range and definedness of the casts. \<open>KMV_Hash\<close>,
    \<open>KMV_Sketch\<close>, \<open>KMV_Union\<close>, \<open>KMV_Merge\<close> (\<open>vc/virtual_sst.cc\<close>): the invertible hash, the
    bottom-k samples (locale \<open>max_heap\<close> for the standard heap operations), the estimates of
    distinct keys and the samples of outputs. The contract \<open>represents\<close> says that a sketch
    holds exactly the hashes of a key set up to its theta.
  \<^item> Merging and splitting. \<open>PLR_Merge\<close> (\<open>NWayMergeKMVRangeAware\<close>): the merge succeeds and
    tiles the key hull. \<open>Split_SSTs\<close> (\<open>SplitIntoSSTs\<close>): the cuts keep every entry and the
    size limit. \<open>Materialize\<close> (\<open>MaterializeKeys\<close>): count, order and range of the keys.
  \<^item> Keys and encodings. \<open>Coding\<close> (\<open>util/coding*\<close>): fixed, varint, zigzag and
    length-prefixed values. \<open>Db_Format\<close> (\<open>db/dbformat.*\<close>, \<open>util/comparator.cc\<close>): internal
    keys and their order (locales \<open>comparator\<close>, \<open>user_comparator\<close>). \<open>Version_Edit\<close>,
    \<open>File_Codec\<close>, \<open>Edit_Parts\<close>, \<open>Edit_Codec\<close> (\<open>db/version_edit.*\<close>, \<open>db/wal_edit.*\<close>,
    \<open>db/blob\<close>): edits, their records and every tag of the manifest format, with the round
    trip of whole edits (locale \<open>codec\<close> for the embedded records). \<open>File_Bounds\<close>: the
    boundaries a table builder records. \<open>Progress_Log\<close>
    (\<open>db/compaction/compaction_job.cc\<close>): what a resumed compaction reads back.
  \<^item> The database. \<open>Registry\<close> (\<open>vc/virtual_sst_registry.h\<close>): a refinement of the life cycle
    of a file number (locale \<open>virtual_files\<close>). \<open>L0_Window\<close> (\<open>flush\<close>): refill, back pressure
    and accounting; an invariant over interleaved refills. \<open>Commit_Queue\<close> (\<open>flush\<close>): rounds
    of the leader and a step relation of the threads with sleeping and waking. \<open>Run_Compaction\<close>
    (\<open>flush\<close>): the whole job; what it does to the manifest and the registry, and that it
    keeps the database typed. \<open>Trivial_Move\<close>, \<open>Install_Materialization\<close> (\<open>flush\<close>): moves
    keep descriptors, installed tables get fresh ordered sequence numbers.
  \<^item> The tool. \<open>Key_Bitmap\<close>, \<open>Key_Membership\<close>, \<open>Key_Stream\<close>
    (\<open>tools/db_bench_tool.cc\<close>): bitmaps as key sets (locale \<open>key_reservation\<close>), the cursor that
    spreads keys, and the producer and its consumers as a step relation with two condition
    variables.

  \<^bold>\<open>Conventions.\<close> \<open>uint64_t\<close>, \<open>size_t\<close> values that are computed with, and \<open>uint32_t\<close> are
  words and wrap; sizes of vectors are natural numbers; \<open>__int128\<close> is a 128-bit word. Each
  floating-point operation is rounded on its own in binary64 or, for \<open>long double\<close>, in the
  x87 extended format; infinities and NaN are values. None is undefined behaviour (a cast out
  of range, a null pointer, a missing value) or a refusal of an encoder; a decoder error is
  the status or message. Bytes are 8-bit words and slices are lists of them. The database is a record that
  each operation returns updated; \<open>ticks\<close> counts clock readings. Code that is called but
  not modelled (the version set, table files, the clock, environment variables) is a field
  of an environment record, and what is relied on is a hypothesis of the theorem: the
  manifest write runs its callback whenever it succeeds, creating a file number leaves
  the current files alone, and file numbers come from a counter.

  \<^bold>\<open>Concurrency.\<close> Code under one mutex is one step. The L0 window and the group commit are
  cut where \<open>LogAndApply\<close> releases the mutex. In the step relations of the commit queue and
  of the key stream a waiting thread is in the sleep set of its condition variable, signals
  wake an arbitrary member, and wake-ups without a signal are steps of the environment.
  Liveness is stated for runs in which no new calls arrive, as the absence of infinite runs
  together with what holds when no step is left; beside it stand bounds that hold while
  calls keep arriving. \<open>RunVirtualCompaction\<close> takes the effect of the other threads as functions.

  \<^bold>\<open>Termination.\<close> All loops are total functions with a measure, except two.
  \<open>split_loop\<close> and \<open>InvertXorShift_loop\<close> are partial functions into option, and both are
  proved to return: the first for every limit and boundary list, the second for every
  shift that the hash uses. No fuel is used.

  \<^bold>\<open>Not modelled.\<close> The load driver of \<open>db_bench\<close> around the classes above (command line,
  threads, files); the version set and the manifest log, which are parameters; table files
  and the file system; the compaction picker and scheduler, which choose the inputs; the
  trace and dump tools, which print; the rest of the storage engine, which this path uses
  only through the parameters; language bindings and experiment scripts. Log lines, test
  hooks and counters that no result depends on are left out.
\<close>

end
